(* ===== verification/Fuse_Prelude.thy ===== *)
theory Fuse_Prelude
  imports Main "HOL-Library.Word" "HOL-Library.Monad_Syntax"
begin

text \<open>
  The shared vocabulary of the development: the fixed-width integers of the C++ sources,
  buffer reads that fail when they leave the buffer, and the word and list lemmas that the
  component theories use.

  \<^item> \<open>u8\<close>, \<open>u16\<close>, \<open>u32\<close>, \<open>u64\<close> are the \<^verbatim>\<open>uintN_t\<close> types; their arithmetic wraps.
    Lengths and array indices (\<^verbatim>\<open>size_t\<close>) are \<^typ>\<open>nat\<close>.
  \<^item> A received datagram is a list of bytes; \<open>rd\<close> is the C expression \<^verbatim>\<open>p[i]\<close>, and
    answers \<^term>\<open>None\<close> exactly where the C code would read outside the buffer.
  \<^item> A decoder has a result of type \<open>'a decoded\<close>. The outer option is memory safety
    (\<^term>\<open>None\<close>: an out-of-bounds access), the inner one is the decoder's boolean result
    (\<open>refuse\<close>: \<^verbatim>\<open>return false\<close>; \<open>accept x\<close>: \<^verbatim>\<open>return true\<close> with the out-parameter filled).
\<close>

unbundle bit_operations_syntax

type_synonym u8 = "8 word"
type_synonym u16 = "16 word"
type_synonym u32 = "32 word"
type_synonym u64 = "64 word"
type_synonym byte = u8

named_theorems wire_simps \<open>reading back what was written\<close>
named_theorems wire_inv \<open>what a successful read says about the buffer\<close>
named_theorems wire_len \<open>lengths of encoded fields\<close>
named_theorems ring_simps \<open>rings indexed by a sequence number modulo their size\<close>

section \<open>Decoder results\<close>

type_synonym 'a decoded = "'a option option"

abbreviation refuse :: "'a decoded" where
  "refuse \<equiv> Some None"

abbreviation accept :: "'a \<Rightarrow> 'a decoded" where
  "accept x \<equiv> Some (Some x)"

definition safe :: "'a option \<Rightarrow> bool" where
  "safe r \<longleftrightarrow> r \<noteq> None"

lemma safe_Some [simp]: "safe (Some x)"
  by (simp add: safe_def)

lemma safe_bind: "safe m \<Longrightarrow> (\<And>x. m = Some x \<Longrightarrow> safe (f x)) \<Longrightarrow> safe (Option.bind m f)"
  by (cases m) (auto simp: safe_def)

lemma safe_if [simp]: "safe (if b then x else y) \<longleftrightarrow> (b \<longrightarrow> safe x) \<and> (\<not> b \<longrightarrow> safe y)"
  by simp

section \<open>Buffer reads\<close>

definition rd :: "byte list \<Rightarrow> nat \<Rightarrow> byte option" where
  "rd p i = (if i < length p then Some (p ! i) else None)"

definition get_bytes :: "nat \<Rightarrow> byte list \<Rightarrow> nat \<Rightarrow> byte list option" where
  "get_bytes n p off = (if off + n \<le> length p then Some (take n (drop off p)) else None)"

text \<open>The read loop of the big-endian getters: \<^verbatim>\<open>out = (out << 8) | p[i]\<close>, \<open>n\<close> times.\<close>

fun get_loop :: "nat \<Rightarrow> byte list \<Rightarrow> nat \<Rightarrow> 'a::len word \<Rightarrow> 'a word option" where
  "get_loop 0 p off out = Some out"
| "get_loop (Suc n) p off out =
     do { b \<leftarrow> rd p off; get_loop n p (Suc off) (push_bit 8 out OR ucast b) }"

lemma rd_append_skip [wire_simps]: "length xs \<le> i \<Longrightarrow> rd (xs @ ys) i = rd ys (i - length xs)"
  by (auto simp: rd_def nth_append)

lemma rd_append_hit: "i < length xs \<Longrightarrow> rd (xs @ ys) i = rd xs i"
  by (auto simp: rd_def nth_append)

lemma rd_Cons_0 [simp]: "rd (x # xs) 0 = Some x"
  by (simp add: rd_def)

lemma rd_eq_Some_iff: "rd p i = Some b \<longleftrightarrow> i < length p \<and> b = p ! i"
  by (auto simp: rd_def)

lemma safe_rd [simp]: "safe (rd p i) \<longleftrightarrow> i < length p"
  by (simp add: rd_def safe_def)

lemma safe_get_bytes [simp]: "safe (get_bytes n p off) \<longleftrightarrow> off + n \<le> length p"
  by (simp add: get_bytes_def safe_def)

lemma get_bytes_append_skip [wire_simps]:
  "length xs \<le> off \<Longrightarrow> get_bytes n (xs @ ys) off = get_bytes n ys (off - length xs)"
  by (auto simp: get_bytes_def)

lemma get_bytes_append_hit [wire_simps]: "length xs = n \<Longrightarrow> get_bytes n (xs @ ys) 0 = Some xs"
  by (simp add: get_bytes_def)

lemma get_bytes_hit [wire_simps]: "length xs = n \<Longrightarrow> get_bytes n xs 0 = Some xs"
  by (simp add: get_bytes_def)

lemma get_bytes_length: "get_bytes n p off = Some bs \<Longrightarrow> length bs = n"
  by (auto simp: get_bytes_def split: if_splits)

text \<open>The loop computes the big-endian value of the bytes it reads.\<close>

definition be_word :: "byte list \<Rightarrow> 'a::len word" where
  "be_word bs = foldl (\<lambda>out b. push_bit 8 out OR ucast b) 0 bs"

lemma get_loop_eq:
  "get_loop n p off out =
     (if n = 0 \<or> off + n \<le> length p
      then Some (foldl (\<lambda>out b. push_bit 8 out OR ucast b) out (take n (drop off p)))
      else None)"
proof (induction n arbitrary: off out)
  case 0
  then show ?case by simp
next
  case (Suc n)
  show ?case
  proof (cases "off < length p")
    case True
    then have "take (Suc n) (drop off p) = p ! off # take n (drop (Suc off) p)"
      by (metis Cons_nth_drop_Suc take_Suc_Cons)
    with True Suc show ?thesis by (auto simp: rd_def)
  next
    case False
    then show ?thesis by (simp add: rd_def)
  qed
qed

lemma safe_get_loop [simp]: "safe (get_loop n p off out) \<longleftrightarrow> n = 0 \<or> off + n \<le> length p"
  by (simp add: get_loop_eq safe_def)

lemma bit_be_word:
  "bit (be_word bs :: 'a::len word) k \<longleftrightarrow>
     k < LENGTH('a) \<and> k div 8 < length bs \<and> bit (bs ! (length bs - 1 - k div 8)) (k mod 8)"
proof (induction bs arbitrary: k rule: rev_induct)
  case Nil
  then show ?case by (simp add: be_word_def)
next
  case (snoc b bs)
  have step: "(be_word (bs @ [b]) :: 'a word) = push_bit 8 (be_word bs) OR ucast b"
    by (simp add: be_word_def)
  show ?case
  proof (cases "k < 8")
    case True
    then have "k div 8 = 0" "k mod 8 = k" by simp_all
    with True show ?thesis
      by (auto simp: step bit_simps)
  next
    case False
    then have k: "k div 8 = Suc ((k - 8) div 8)" "k mod 8 = (k - 8) mod 8"
      by (simp_all add: le_div_geq le_mod_geq)
    have nb: "\<not> bit b k"
      using False bit_imp_le_length [of b k] by auto
    have "(length (bs @ [b]) - 1 - k div 8) = length bs - 1 - (k - 8) div 8"
      by (simp add: k)
    moreover have "(k - 8) div 8 < length bs \<Longrightarrow>
        (bs @ [b]) ! (length bs - 1 - (k - 8) div 8) = bs ! (length bs - 1 - (k - 8) div 8)"
      by (auto simp: nth_append)
    ultimately show ?thesis
      using False nb by (auto simp: step bit_simps snoc.IH k)
  qed
qed

section \<open>Lists\<close>

text \<open>A C array of \<open>n\<close> elements whose first entries are \<open>xs\<close> and whose rest is the default.\<close>

definition pad :: "nat \<Rightarrow> 'a \<Rightarrow> 'a list \<Rightarrow> 'a list" where
  "pad n d xs = xs @ replicate (n - length xs) d"

lemma length_pad [simp]: "length (pad n d xs) = max n (length xs)"
  by (simp add: pad_def)

lemma take_pad [simp]: "k \<le> length xs \<Longrightarrow> take k (pad n d xs) = take k xs"
  by (simp add: pad_def)

lemma pad_take_canonical:
  assumes "length xs = n" "k \<le> n" "drop k xs = replicate (n - k) d"
  shows "pad n d (take k xs) = xs"
  using assms by (metis append_take_drop_id length_take min.absorb2 pad_def)

lemma pad_nth: "i < n \<Longrightarrow> pad n d xs ! i = (if i < length xs then xs ! i else d)"
  by (simp add: pad_def nth_append)

lemma length_concat_const:
  assumes "\<And>x. length (f x) = w"
  shows "length (concat (map f xs)) = w * length xs"
  by (induction xs) (auto simp: assms)

lemma drop_split: "drop off xs = take n (drop off xs) @ drop (off + n) xs"
  using append_take_drop_id [of n "drop off xs"] by (simp add: add.commute)

section \<open>Words\<close>

lemma unat_u64_less: "unat (x :: u64) < 2 ^ 64"
  using unsigned_less [of x, where 'a = nat] by simp

lemma unat_u64_less': "unat (x :: u64) < 18446744073709551616"
  using unsigned_less [of x, where 'a = nat] by simp

lemma unat_ucast_up:
  "LENGTH('a :: len) \<le> LENGTH('b :: len) \<Longrightarrow> unat (ucast (w :: 'a word) :: 'b word) = unat w"
proof -
  assume "LENGTH('a) \<le> LENGTH('b)"
  then have "unat w < 2 ^ LENGTH('b)"
    using unsigned_less [of w] by (meson le_less_trans less_le_trans one_le_numeral power_increasing order_less_le_trans)
  then show ?thesis by (simp add: unsigned_ucast_eq take_bit_nat_eq_self)
qed

lemma unat_add_lt: "unat (x :: u64) + n < 2 ^ 64 \<Longrightarrow> unat (x + of_nat n) = unat x + n"
  by (simp add: unat_word_ariths unat_of_nat)

lemma unat_suc: "(x :: u64) < y \<Longrightarrow> unat (x + 1) = unat x + 1"
  using unat_u64_less [of y] by (simp add: word_less_nat_alt unat_word_ariths)

lemma unat_suc_less: "unat (x :: u64) < unat (y :: u64) \<Longrightarrow> unat y - unat (x + 1) < unat y - unat x"
  using unat_suc [of x y] by (simp add: word_less_nat_alt)

text \<open>
  Sequence numbers index rings whose size divides \<open>2 ^ 64\<close>, so the ring slot of
  \<open>base + d\<close> is the same whether or not the 64-bit addition wraps.
\<close>

lemma unat_add_mod_1024 [ring_simps]:
  "unat ((x :: u64) + of_nat n) mod 1024 = (unat x + n) mod 1024"
proof -
  have "(1024::nat) dvd 2 ^ 64" by simp
  then show ?thesis
    by (simp add: unat_word_ariths unat_of_nat mod_mod_cancel mod_add_right_eq)
qed

end
