(* ===== verification/Wire.thy ===== *)
theory Wire
  imports Fuse_Prelude
begin

text \<open>
  The wire foundation (\<^verbatim>\<open>include/fuse/proto/wire.hpp\<close>): protocol constants, message types,
  the big-endian field writers and readers every (de)serialiser is built from, and the
  version-8 extension area. The writers return the bytes they store at the cursor; the
  cursor arithmetic of the C code is the length of what was written.

  The locale \<open>codec\<close> at the end is the contract every message format of the protocol
  keeps: decoding never reads outside the datagram, encoding fits the caller's buffer, and
  decoding what was encoded gives the message back.
\<close>

section \<open>Constants\<close>

definition kProtocolVersion :: u8 where [simp]: "kProtocolVersion = 8"
definition kDefaultPayloadSize :: nat where [simp]: "kDefaultPayloadSize = 1200"
definition kMaxPayloadSize :: nat where [simp]: "kMaxPayloadSize = 16384"
definition kMaxWindow :: nat where [simp]: "kMaxWindow = 1024"
definition kMaskWords :: nat where [simp]: "kMaskWords = (kMaxWindow + 63) div 64"
definition kFlagRetransmission :: u8 where [simp]: "kFlagRetransmission = 1"
definition kFlagLastBlock :: u8 where [simp]: "kFlagLastBlock = 2"
definition kOuterHeaderSize :: nat where [simp]: "kOuterHeaderSize = 2"
definition kBlockHeaderSize :: nat where [simp]: "kBlockHeaderSize = 21"
definition kSendTimeSize :: nat where [simp]: "kSendTimeSize = 8"
definition kDataPrefixSize :: nat where
  [simp]: "kDataPrefixSize = kOuterHeaderSize + kBlockHeaderSize + kSendTimeSize"
definition kMaxDatagramSize :: nat where
  [simp]: "kMaxDatagramSize = kDataPrefixSize + kMaxPayloadSize"
definition kMaxExtensionBytes :: nat where [simp]: "kMaxExtensionBytes = 256"
definition kExtensionCritical :: u16 where [simp]: "kExtensionCritical = 0x8000"

section \<open>Message types\<close>

text \<open>
  \<^verbatim>\<open>enum class MsgType : uint8_t\<close> holds any byte; the values without an enumerator are
  \<open>MsgOther\<close>. \<open>msg_byte\<close> and \<open>msg_of_byte\<close> are the two \<^verbatim>\<open>static_cast\<close>s.
\<close>

datatype MsgType =
    MsgData | MsgHeartbeat | MsgAck | MsgNack | MsgSetupData | MsgSetupHashReply
  | MsgSetupFinAck | MsgStreamStart | MsgHello | MsgHelloAck | MsgClose | MsgStreamClose
  | MsgResumeRanges | MsgFileDigest | MsgRetry | MsgPathChallenge | MsgPathResponse
  | MsgOther byte

fun msg_byte :: "MsgType \<Rightarrow> byte" where
  "msg_byte MsgData = 0"
| "msg_byte MsgHeartbeat = 1"
| "msg_byte MsgAck = 2"
| "msg_byte MsgNack = 3"
| "msg_byte MsgSetupData = 4"
| "msg_byte MsgSetupHashReply = 5"
| "msg_byte MsgSetupFinAck = 6"
| "msg_byte MsgStreamStart = 7"
| "msg_byte MsgHello = 8"
| "msg_byte MsgHelloAck = 9"
| "msg_byte MsgClose = 10"
| "msg_byte MsgStreamClose = 11"
| "msg_byte MsgResumeRanges = 12"
| "msg_byte MsgFileDigest = 13"
| "msg_byte MsgRetry = 14"
| "msg_byte MsgPathChallenge = 15"
| "msg_byte MsgPathResponse = 16"
| "msg_byte (MsgOther b) = b"

definition msg_of_byte :: "byte \<Rightarrow> MsgType" where
  "msg_of_byte b =
     (if b = 0 then MsgData else if b = 1 then MsgHeartbeat else if b = 2 then MsgAck
      else if b = 3 then MsgNack else if b = 4 then MsgSetupData
      else if b = 5 then MsgSetupHashReply else if b = 6 then MsgSetupFinAck
      else if b = 7 then MsgStreamStart else if b = 8 then MsgHello
      else if b = 9 then MsgHelloAck else if b = 10 then MsgClose
      else if b = 11 then MsgStreamClose else if b = 12 then MsgResumeRanges
      else if b = 13 then MsgFileDigest else if b = 14 then MsgRetry
      else if b = 15 then MsgPathChallenge else if b = 16 then MsgPathResponse
      else MsgOther b)"

definition known_msg :: "MsgType \<Rightarrow> bool" where
  "known_msg t \<longleftrightarrow> (case t of MsgOther _ \<Rightarrow> False | _ \<Rightarrow> True)"

lemma known_msg_simps [simp]:
  "known_msg MsgData" "known_msg MsgHeartbeat" "known_msg MsgAck" "known_msg MsgNack"
  "known_msg MsgSetupData" "known_msg MsgSetupHashReply" "known_msg MsgSetupFinAck"
  "known_msg MsgStreamStart" "known_msg MsgHello" "known_msg MsgHelloAck" "known_msg MsgClose"
  "known_msg MsgStreamClose" "known_msg MsgResumeRanges" "known_msg MsgFileDigest"
  "known_msg MsgRetry" "known_msg MsgPathChallenge" "known_msg MsgPathResponse"
  "\<not> known_msg (MsgOther b)"
  by (simp_all add: known_msg_def)

lemma msg_of_byte_byte [simp]: "known_msg t \<Longrightarrow> msg_of_byte (msg_byte t) = t"
  by (cases t) (simp_all add: msg_of_byte_def)

lemma msg_byte_of_byte [simp]: "msg_byte (msg_of_byte b) = b"
  by (simp add: msg_of_byte_def)

lemma msg_of_byte_eq_iff: "known_msg t \<Longrightarrow> msg_of_byte b = t \<longleftrightarrow> b = msg_byte t"
  using msg_of_byte_byte msg_byte_of_byte by metis

section \<open>Big-endian writers and readers\<close>

definition put_u8 :: "u8 \<Rightarrow> byte list" where
  "put_u8 v = [v]"

definition put_u16 :: "u16 \<Rightarrow> byte list" where
  "put_u16 v = [ucast (drop_bit 8 v), ucast v]"

definition put_u32 :: "u32 \<Rightarrow> byte list" where
  "put_u32 v = map (\<lambda>i. ucast (drop_bit (24 - 8 * i) v)) [0..<4]"

definition put_u64 :: "u64 \<Rightarrow> byte list" where
  "put_u64 v = map (\<lambda>i. ucast (drop_bit (56 - 8 * i) v)) [0..<8]"

definition get_u8 :: "byte list \<Rightarrow> nat \<Rightarrow> u8 option" where
  "get_u8 p off = rd p off"

definition get_u16 :: "byte list \<Rightarrow> nat \<Rightarrow> u16 option" where
  "get_u16 p off =
     do { a \<leftarrow> rd p off; b \<leftarrow> rd p (off + 1); Some (push_bit 8 (ucast a) OR ucast b) }"

definition get_u32 :: "byte list \<Rightarrow> nat \<Rightarrow> u32 option" where
  "get_u32 p off = get_loop 4 p off 0"

definition get_u64 :: "byte list \<Rightarrow> nat \<Rightarrow> u64 option" where
  "get_u64 p off = get_loop 8 p off 0"

text \<open>
  The loops over arrays: \<open>n\<close> entries of \<open>w\<close> bytes, each read by \<open>get\<close>.
\<close>

fun get_array ::
  "nat \<Rightarrow> (byte list \<Rightarrow> nat \<Rightarrow> 'a option) \<Rightarrow> nat \<Rightarrow> byte list \<Rightarrow> nat \<Rightarrow> 'a list option" where
  "get_array w get 0 p off = Some []"
| "get_array w get (Suc n) p off =
     do { v \<leftarrow> get p off; vs \<leftarrow> get_array w get n p (off + w); Some (v # vs) }"

lemma length_put [simp, wire_len]:
  "length (put_u8 a) = 1" "length (put_u16 b) = 2"
  "length (put_u32 c) = 4" "length (put_u64 d) = 8"
  by (simp_all add: put_u8_def put_u16_def put_u32_def put_u64_def)

lemma get_u16_eq:
  "get_u16 p off = (if off + 2 \<le> length p then Some (be_word (take 2 (drop off p))) else None)"
proof (cases "off + 2 \<le> length p")
  case True
  then have "take 2 (drop off p) = [p ! off, p ! Suc off]"
    by (simp add: numeral_2_eq_2 take_Suc_conv_app_nth)
  with True show ?thesis
    by (simp add: get_u16_def rd_def be_word_def)
next
  case False
  then show ?thesis by (auto simp: get_u16_def rd_def)
qed

lemma get_u32_eq:
  "get_u32 p off = (if off + 4 \<le> length p then Some (be_word (take 4 (drop off p))) else None)"
  by (simp add: get_u32_def get_loop_eq be_word_def)

lemma get_u64_eq:
  "get_u64 p off = (if off + 8 \<le> length p then Some (be_word (take 8 (drop off p))) else None)"
  by (simp add: get_u64_def get_loop_eq be_word_def)

lemma safe_get [simp]:
  "safe (get_u8 p off) \<longleftrightarrow> off < length p"
  "safe (get_u16 p off) \<longleftrightarrow> off + 2 \<le> length p"
  "safe (get_u32 p off) \<longleftrightarrow> off + 4 \<le> length p"
  "safe (get_u64 p off) \<longleftrightarrow> off + 8 \<le> length p"
  by (simp_all add: get_u8_def get_u16_eq get_u32_eq get_u64_eq safe_def rd_def)

text \<open>
  A word of \<open>n\<close> bytes and its big-endian byte list determine each other.
\<close>

definition be_bytes :: "nat \<Rightarrow> 'a::len word \<Rightarrow> byte list" where
  "be_bytes n v = map (\<lambda>i. ucast (drop_bit (8 * (n - 1) - 8 * i) v)) [0..<n]"

lemma length_be_bytes [simp]: "length (be_bytes n v) = n"
  by (simp add: be_bytes_def)

lemma be_word_be_bytes:
  assumes "LENGTH('a::len) = 8 * n"
  shows "be_word (be_bytes n v) = (v :: 'a word)"
proof (rule bit_word_eqI)
  fix k assume "k < LENGTH('a)"
  then have k: "k div 8 < n" using assms by auto
  then have "8 * (n - 1) - 8 * (n - 1 - k div 8) = 8 * (k div 8)"
    by (simp add: diff_mult_distrib2)
  then have "8 * (n - 1) - 8 * (n - Suc (k div 8)) = 8 * (k div 8)"
    by simp
  moreover have "8 * (k div 8) + k mod 8 = k" by simp
  ultimately show "bit (be_word (be_bytes n v) :: 'a word) k \<longleftrightarrow> bit v k"
    using \<open>k < LENGTH('a)\<close> k by (simp add: bit_be_word be_bytes_def bit_simps)
qed

lemma be_bytes_be_word:
  assumes "LENGTH('a::len) = 8 * n" "length bs = n"
  shows "be_bytes n (be_word bs :: 'a word) = bs"
proof (rule nth_equalityI)
  show "length (be_bytes n (be_word bs :: 'a word)) = length bs"
    using assms by simp
next
  fix i assume "i < length (be_bytes n (be_word bs :: 'a word))"
  then have i: "i < n" by simp
  define m where "m = n - 1 - i"
  have m: "i = n - Suc m" "m < n" "8 * (n - 1) - 8 * i = 8 * m"
    using i by (auto simp: m_def diff_mult_distrib2)
  have nth: "be_bytes n (be_word bs :: 'a word) ! i = ucast (drop_bit (8 * m) (be_word bs :: 'a word))"
    using i by (simp only: be_bytes_def nth_map length_upt nth_upt add_0 diff_zero m(3))
  show "be_bytes n (be_word bs :: 'a word) ! i = bs ! i"
  proof (rule bit_word_eqI)
    fix k assume "k < LENGTH(8)"
    then have k: "k < 8" by simp
    have "8 * m + k < 8 * n" using m(2) k by simp
    then show "bit (be_bytes n (be_word bs :: 'a word) ! i) k = bit (bs ! i) k"
      unfolding nth using m(1,2) k assms by (simp add: bit_simps bit_be_word add.commute)
  qed
qed

lemma put_be_bytes:
  "put_u16 a = be_bytes 2 a" "put_u32 b = be_bytes 4 b" "put_u64 c = be_bytes 8 c"
  by (simp_all add: put_u16_def put_u32_def put_u64_def be_bytes_def upt_conv_Cons)

lemma be_word_put [simp]:
  "be_word (put_u16 a) = a" "be_word (put_u32 b) = b" "be_word (put_u64 c) = c"
  by (simp_all add: put_be_bytes be_word_be_bytes)

lemma put_be_word [simp]:
  "length bs = 2 \<Longrightarrow> put_u16 (be_word bs) = bs"
  "length bs = 4 \<Longrightarrow> put_u32 (be_word bs) = bs"
  "length bs = 8 \<Longrightarrow> put_u64 (be_word bs) = bs"
  by (simp_all add: put_be_bytes be_bytes_be_word)

lemma put_inj [simp]:
  "put_u8 a = put_u8 a' \<longleftrightarrow> a = a'" "put_u16 b = put_u16 b' \<longleftrightarrow> b = b'"
  "put_u32 c = put_u32 c' \<longleftrightarrow> c = c'" "put_u64 d = put_u64 d' \<longleftrightarrow> d = d'"
  by (metis be_word_put put_u8_def list.inject)+

lemma get_put_hit [wire_simps]:
  "get_u8 (put_u8 a @ ys) 0 = Some a" "get_u8 (put_u8 a) 0 = Some a"
  "get_u16 (put_u16 b @ ys) 0 = Some b" "get_u16 (put_u16 b) 0 = Some b"
  "get_u32 (put_u32 c @ ys) 0 = Some c" "get_u32 (put_u32 c) 0 = Some c"
  "get_u64 (put_u64 d @ ys) 0 = Some d" "get_u64 (put_u64 d) 0 = Some d"
  by (simp_all add: get_u8_def put_u8_def get_u16_eq get_u32_eq get_u64_eq)

lemma get_append_skip [wire_simps]:
  assumes "length xs \<le> off"
  shows "get_u8 (xs @ ys) off = get_u8 ys (off - length xs)"
    and "get_u16 (xs @ ys) off = get_u16 ys (off - length xs)"
    and "get_u32 (xs @ ys) off = get_u32 ys (off - length xs)"
    and "get_u64 (xs @ ys) off = get_u64 ys (off - length xs)"
  using assms by (auto simp: get_u8_def wire_simps get_u16_eq get_u32_eq get_u64_eq)

text \<open>
  The same reads the other way round: what a successful read at the front of a buffer says
  about the buffer. With these and \<open>wire_simps\<close> the simplifier recovers the layout of a
  datagram from the reads of its decoder.
\<close>

lemma take_eq_put:
  "n \<le> length q \<Longrightarrow> length bs = n \<Longrightarrow> take n q = bs \<longleftrightarrow> (\<exists>r. q = bs @ r)"
  using append_take_drop_id [of n q] by (metis append_eq_conv_conj)

lemma get_front [wire_inv]:
  "get_u8 q 0 = Some a \<longleftrightarrow> (\<exists>r. q = put_u8 a @ r)"
  "get_u16 q 0 = Some b \<longleftrightarrow> (\<exists>r. q = put_u16 b @ r)"
  "get_u32 q 0 = Some c \<longleftrightarrow> (\<exists>r. q = put_u32 c @ r)"
  "get_u64 q 0 = Some d \<longleftrightarrow> (\<exists>r. q = put_u64 d @ r)"
proof -
  show "get_u8 q 0 = Some a \<longleftrightarrow> (\<exists>r. q = put_u8 a @ r)"
    by (cases q) (auto simp: get_u8_def rd_def put_u8_def)
  have "be_word (take 2 q) = b \<longleftrightarrow> take 2 q = put_u16 b" if "2 \<le> length q"
    using that by auto
  then show "get_u16 q 0 = Some b \<longleftrightarrow> (\<exists>r. q = put_u16 b @ r)"
    using take_eq_put [of 2 q "put_u16 b"] by (auto simp: get_u16_eq)
  have "be_word (take 4 q) = c \<longleftrightarrow> take 4 q = put_u32 c" if "4 \<le> length q"
    using that by auto
  then show "get_u32 q 0 = Some c \<longleftrightarrow> (\<exists>r. q = put_u32 c @ r)"
    using take_eq_put [of 4 q "put_u32 c"] by (auto simp: get_u32_eq)
  have "be_word (take 8 q) = d \<longleftrightarrow> take 8 q = put_u64 d" if "8 \<le> length q"
    using that by auto
  then show "get_u64 q 0 = Some d \<longleftrightarrow> (\<exists>r. q = put_u64 d @ r)"
    using take_eq_put [of 8 q "put_u64 d"] by (auto simp: get_u64_eq)
qed

lemma get_bytes_front [wire_inv]:
  "get_bytes n q 0 = Some bs \<longleftrightarrow> length bs = n \<and> (\<exists>r. q = bs @ r)"
  by (auto simp: get_bytes_def intro: exI [of _ "drop n q"] split: if_splits)

text \<open>
  The contract of a fixed-size field, and what it gives for arrays of such fields.
\<close>

locale field =
  fixes put :: "'a \<Rightarrow> byte list"
    and get :: "byte list \<Rightarrow> nat \<Rightarrow> 'a option"
    and w :: nat
  assumes put_len: "length (put v) = w"
    and get_skip: "length xs \<le> off \<Longrightarrow> get (xs @ ys) off = get ys (off - length xs)"
    and get_put: "get q 0 = Some v \<longleftrightarrow> (\<exists>r. q = put v @ r)"
    and get_safe: "off + w \<le> length p \<Longrightarrow> safe (get p off)"
begin

lemma array_len [simp, wire_len]: "length (concat (map put vs)) = w * length vs"
  by (rule length_concat_const) (rule put_len)

lemma array_skip [wire_simps]:
  "length xs \<le> off \<Longrightarrow> get_array w get n (xs @ ys) off = get_array w get n ys (off - length xs)"
proof (induction n arbitrary: off)
  case (Suc n)
  then have "get_array w get n (xs @ ys) (off + w) = get_array w get n ys (off - length xs + w)"
    by (simp add: add.commute)
  with Suc.prems show ?case by (simp add: get_skip)
qed simp

lemma array_hit [wire_simps]:
  "length vs = n \<Longrightarrow> get_array w get n (concat (map put vs) @ ys) 0 = Some vs"
proof (induction vs arbitrary: n)
  case (Cons v vs)
  have "get (put v @ concat (map put vs) @ ys) 0 = Some v"
    by (simp add: get_put)
  moreover have "get_array w get (length vs) (put v @ concat (map put vs) @ ys) w = Some vs"
    using array_skip [of "put v" w "length vs"] Cons.IH by (simp add: put_len)
  ultimately show ?case using Cons.prems by auto
qed simp

lemma array_front [wire_inv]:
  "get_array w get n q 0 = Some vs \<longleftrightarrow> length vs = n \<and> (\<exists>r. q = concat (map put vs) @ r)"
proof (induction n arbitrary: q vs)
  case (Suc n)
  show ?case
  proof
    assume "get_array w get (Suc n) q 0 = Some vs"
    then obtain v r ws where q: "q = put v @ r" "get_array w get n q w = Some ws" "vs = v # ws"
      by (auto simp: Option.bind_eq_Some_conv get_put)
    then have "get_array w get n r 0 = Some ws"
      using array_skip [of "put v" w n r] by (simp add: put_len)
    then show "length vs = Suc n \<and> (\<exists>r. q = concat (map put vs) @ r)"
      using Suc.IH [of r ws] q by auto
  qed (use array_hit [of vs "Suc n"] in auto)
qed auto

lemma array_safe: "off + w * n \<le> length p \<Longrightarrow> safe (get_array w get n p off)"
  by (induction n arbitrary: off) (auto intro!: safe_bind get_safe)

end

interpretation u64_field: field put_u64 get_u64 8
  by unfold_locales (simp_all add: wire_simps wire_inv)

section \<open>The extension area\<close>

record Extension =
  ext_type :: u16
  ext_len :: u16
  ext_value :: "byte list"

text \<open>
  \<^verbatim>\<open>next_extension\<close> returns the entry at \<open>off\<close> and the advanced offset, or refuses at
  the end or on a malformed entry. The C++ entry holds a pointer to its value; here it holds
  the bytes that pointer and length denote.
\<close>

definition next_extension :: "byte list \<Rightarrow> nat \<Rightarrow> (Extension \<times> nat) decoded" where
  "next_extension area off =
     (if off + 4 > length area then refuse
      else do {
        t \<leftarrow> get_u16 area off;
        l \<leftarrow> get_u16 area (off + 2);
        if unat l > length area - off - 4 then refuse
        else do {
          v \<leftarrow> get_bytes (unat l) area (off + 4);
          accept (\<lparr>ext_type = t, ext_len = l, ext_value = v\<rparr>, off + 4 + unat l) } })"

text \<open>
  \<^verbatim>\<open>append_extension\<close> writes one entry behind the \<open>used\<close> bytes of a buffer and returns
  the buffer with its new used length; \<^term>\<open>None\<close> is the C++ result 0 (it does not fit).
\<close>

definition append_extension ::
  "byte list \<Rightarrow> nat \<Rightarrow> u16 \<Rightarrow> byte list \<Rightarrow> u16 \<Rightarrow> (byte list \<times> nat) option" where
  "append_extension area used t value l =
     (let cap = length area in
      if used > cap \<or> cap - used < 4 + unat l then None
      else Some (take used area @ put_u16 t @ put_u16 l @ take (unat l) value
                   @ drop (used + 4 + unat l) area,
                 used + 4 + unat l))"

lemma next_extension_advances:
  "next_extension area off = accept (e, off') \<Longrightarrow> off < off' \<and> off' \<le> length area"
  by (auto simp: next_extension_def Option.bind_eq_Some_conv split: if_splits)

lemma safe_next_extension [simp]: "safe (next_extension area off)"
  by (auto simp: next_extension_def intro!: safe_bind)

function ext_loop :: "byte list \<Rightarrow> nat \<Rightarrow> bool option" where
  "ext_loop area off =
     (if off < length area then
        (case next_extension area off of
           None \<Rightarrow> None
         | Some None \<Rightarrow> Some False
         | Some (Some (e, off')) \<Rightarrow>
             if ext_type e AND kExtensionCritical \<noteq> 0 then Some False
             else ext_loop area off')
      else Some True)"
  by pat_completeness auto
termination
  by (relation "measure (\<lambda>(area, off). length area - off)")
     (auto dest!: next_extension_advances)

definition extensions_acceptable :: "byte list \<Rightarrow> bool option" where
  "extensions_acceptable area = ext_loop area 0"

declare ext_loop.simps [simp del]

lemma safe_ext_loop: "safe (ext_loop area off)"
proof (induction area off rule: ext_loop.induct)
  case (1 area off)
  have "safe (next_extension area off)" by simp
  with 1 show ?case
    by (subst ext_loop.simps) (auto simp: safe_def split: option.splits)
qed

lemma safe_extensions_acceptable [simp]: "safe (extensions_acceptable area)"
  by (simp add: extensions_acceptable_def safe_ext_loop)

text \<open>
  The abstract reading of an area: a list of entries laid out back to back. An entry is a
  type and a value whose length fits the 16-bit length field.
\<close>

definition ext_entry :: "u16 \<times> byte list \<Rightarrow> byte list" where
  "ext_entry e = put_u16 (fst e) @ put_u16 (of_nat (length (snd e))) @ snd e"

definition ext_area :: "(u16 \<times> byte list) list \<Rightarrow> byte list" where
  "ext_area es = concat (map ext_entry es)"

definition ext_entry_ok :: "u16 \<times> byte list \<Rightarrow> bool" where
  "ext_entry_ok e \<longleftrightarrow> length (snd e) < 2 ^ 16 \<and> fst e AND kExtensionCritical = 0"

lemma unat_of_nat_u16: "n < 2 ^ 16 \<Longrightarrow> unat (of_nat n :: u16) = n"
  by (simp add: unat_of_nat)

lemma next_extension_entry:
  assumes "length (snd e) < 2 ^ 16"
  shows "next_extension (pre @ ext_entry e @ post) (length pre) =
           accept (\<lparr>ext_type = fst e, ext_len = of_nat (length (snd e)), ext_value = snd e\<rparr>,
                   length pre + length (ext_entry e))"
  using unat_of_nat_u16 [OF assms]
  by (simp add: next_extension_def ext_entry_def wire_simps get_bytes_def)

lemma ext_loop_area:
  "\<forall>e \<in> set es. ext_entry_ok e \<Longrightarrow> ext_loop (pre @ ext_area es) (length pre) = Some True"
proof (induction es arbitrary: pre)
  case Nil
  then show ?case by (subst ext_loop.simps) (simp add: ext_area_def)
next
  case (Cons e es)
  have nx: "next_extension (pre @ ext_area (e # es)) (length pre) =
      accept (\<lparr>ext_type = fst e, ext_len = of_nat (length (snd e)), ext_value = snd e\<rparr>,
              length pre + length (ext_entry e))"
    using Cons.prems next_extension_entry [of e pre "ext_area es"]
    by (simp add: ext_area_def ext_entry_ok_def)
  have "ext_loop ((pre @ ext_entry e) @ ext_area es) (length (pre @ ext_entry e)) = Some True"
    using Cons.prems by (intro Cons.IH) simp
  then show ?case
    using Cons.prems nx
    by (subst ext_loop.simps) (simp add: ext_area_def ext_entry_ok_def ext_entry_def)
qed

lemma next_extension_splits:
  assumes "next_extension area off = accept (e, off')"
  shows "drop off area = ext_entry (ext_type e, ext_value e) @ drop off' area"
    and "length (ext_value e) < 2 ^ 16"
proof -
  from assms have b: "off + 4 + unat (ext_len e) \<le> length area" "off' = off + 4 + unat (ext_len e)"
    and t: "ext_type e = be_word (take 2 (drop off area))"
    and l: "ext_len e = be_word (take 2 (drop (off + 2) area))"
    and v: "ext_value e = take (unat (ext_len e)) (drop (off + 4) area)"
    by (auto simp: next_extension_def get_u16_eq get_bytes_def split: if_splits)
  have lv: "length (ext_value e) = unat (ext_len e)" using b v by simp
  then have l': "of_nat (length (ext_value e)) = ext_len e" by simp
  have "drop off area = take 2 (drop off area) @ take 2 (drop (off + 2) area)
      @ take (unat (ext_len e)) (drop (off + 4) area) @ drop off' area"
  proof -
    have "drop (off + 2) area = take 2 (drop (off + 2) area) @ drop (off + 4) area"
      using drop_split [of "off + 2" area 2] by (simp add: numeral_eq_Suc)
    moreover have "drop (off + 4) area = take (unat (ext_len e)) (drop (off + 4) area) @ drop off' area"
      using drop_split [of "off + 4" area "unat (ext_len e)"] b(2) by simp
    ultimately show ?thesis using drop_split [of off area 2] by metis
  qed
  then show "drop off area = ext_entry (ext_type e, ext_value e) @ drop off' area"
    using b by (simp add: ext_entry_def l' t l v)
  show "length (ext_value e) < 2 ^ 16"
    using unsigned_less [of "ext_len e", where 'a = nat] lv by simp
qed

lemma ext_loop_True:
  assumes "ext_loop area off = Some True" "off \<le> length area"
  shows "\<exists>es. (\<forall>e \<in> set es. ext_entry_ok e) \<and> drop off area = ext_area es"
  using assms
proof (induction area off rule: ext_loop.induct)
  case (1 area off)
  show ?case
  proof (cases "off < length area")
    case False
    with "1.prems" show ?thesis by (intro exI [of _ "[]"]) (simp add: ext_area_def)
  next
    case True
    with "1.prems" obtain e off' where
      nx: "next_extension area off = accept (e, off')" and
      nc: "ext_type e AND kExtensionCritical = 0" and
      rec: "ext_loop area off' = Some True"
      by (subst (asm) ext_loop.simps) (auto split: option.splits if_splits)
    have "off' \<le> length area" using next_extension_advances [OF nx] by simp
    then obtain es where es: "\<forall>e \<in> set es. ext_entry_ok e" "drop off' area = ext_area es"
      using "1.IH" [OF True nx refl refl] nc rec by auto
    then show ?thesis
      using next_extension_splits [OF nx] nc
      by (intro exI [of _ "(ext_type e, ext_value e) # es"])
         (simp add: ext_area_def ext_entry_ok_def)
  qed
qed

lemma extensions_acceptable_iff:
  "extensions_acceptable area = Some True \<longleftrightarrow>
     (\<exists>es. (\<forall>e \<in> set es. ext_entry_ok e) \<and> area = ext_area es)"
  using ext_loop_True [of area 0] ext_loop_area [of _ "[]"]
  by (auto simp: extensions_acceptable_def)

section \<open>The contract of a message format\<close>

text \<open>
  \<open>enc m cap\<close> is the datagram an encoder writes into a buffer of \<open>cap\<close> bytes
  (\<^term>\<open>None\<close> is the C++ result 0), \<open>dec\<close> the decoder, \<open>wf\<close> the messages the
  format can carry and \<open>len\<close> their encoded length.
\<close>

locale codec =
  fixes enc :: "'m \<Rightarrow> nat \<Rightarrow> byte list option"
    and dec :: "byte list \<Rightarrow> 'm decoded"
    and wf :: "'m \<Rightarrow> bool"
    and len :: "'m \<Rightarrow> nat"
  assumes enc_Some: "wf m \<Longrightarrow> len m \<le> cap \<Longrightarrow> enc m cap \<noteq> None"
    and enc_len: "wf m \<Longrightarrow> enc m cap = Some dg \<Longrightarrow> length dg = len m \<and> len m \<le> cap"
    and dec_enc: "wf m \<Longrightarrow> enc m cap = Some dg \<Longrightarrow> dec dg = accept m"
    and dec_safe: "safe (dec dg)"
begin

lemma enc_fits: "wf m \<Longrightarrow> enc m cap = Some dg \<Longrightarrow> length dg \<le> cap"
  using enc_len by fastforce

lemma enc_small: "wf m \<Longrightarrow> cap < len m \<Longrightarrow> enc m cap = None"
  using enc_len [of m cap] by (cases "enc m cap") auto

lemma enc_inj: "wf m \<Longrightarrow> wf m' \<Longrightarrow> enc m cap = Some dg \<Longrightarrow> enc m' cap' = Some dg \<Longrightarrow> m = m'"
  using dec_enc [of m cap dg] dec_enc [of m' cap' dg] by simp

lemma round_trip: "wf m \<Longrightarrow> len m \<le> cap \<Longrightarrow> \<exists>dg. enc m cap = Some dg \<and> dec dg = accept m"
  using enc_Some dec_enc by blast

lemma dec_total: "dec dg = refuse \<or> (\<exists>m. dec dg = accept m)"
  using dec_safe [of dg] by (cases "dec dg") (auto simp: safe_def)

end

text \<open>
  Formats whose decoder ignores what follows the message (the control-plane trailer
  \<^verbatim>\<open>ctr || tag\<close> is appended behind the encoded datagram and the decoder still reads it), and
  accepts nothing but an encoded message and such a rest.
\<close>

locale trailing_codec = codec +
  assumes dec_enc_rest: "wf m \<Longrightarrow> enc m cap = Some dg \<Longrightarrow> dec (dg @ rest) = accept m"
    and dec_sound: "dec p = accept m \<Longrightarrow>
      wf m \<and> (\<exists>dg rest. enc m (len m) = Some dg \<and> p = dg @ rest)"
begin

lemma trailer_transparent:
  "wf m \<Longrightarrow> enc m cap = Some dg \<Longrightarrow> dec (dg @ trailer) = dec dg"
  by (simp add: dec_enc dec_enc_rest)

text \<open>A complete description of what the decoder accepts.\<close>

lemma dec_iff:
  "dec p = accept m \<longleftrightarrow> wf m \<and> (\<exists>dg rest. enc m (len m) = Some dg \<and> p = dg @ rest)"
  using dec_sound dec_enc_rest by blast

lemma dec_length: "dec p = accept m \<Longrightarrow> len m \<le> length p"
  using dec_sound [of p m] enc_len [of m "len m"] by auto

end

lemma trailing_codecI:
  fixes wf :: "'m \<Rightarrow> bool"
  assumes enc: "\<And>m cap. enc m cap = (if ok m \<and> len m \<le> cap then Some (body m) else None)"
    and ok: "\<And>m. wf m \<Longrightarrow> ok m"
    and len: "\<And>m. wf m \<Longrightarrow> length (body m) = len m"
    and "\<And>p. safe (dec p)"
    and iff: "\<And>p m. dec p = accept m \<longleftrightarrow> wf m \<and> (\<exists>rest. p = body m @ rest)"
  shows "trailing_codec enc dec wf len"
proof unfold_locales
  fix m cap dg assume m: "wf m" "enc m cap = Some dg"
  then show "length dg = len m \<and> len m \<le> cap" "dec (dg @ rest) = accept m" for rest
    using len by (auto simp: enc iff split: if_splits)
  show "dec dg = accept m" using m by (auto simp: enc iff split: if_splits)
qed (use assms in \<open>auto simp: enc iff\<close>)

text \<open>Formats whose length must match the datagram exactly.\<close>

locale exact_codec = codec +
  assumes dec_exact: "dec p = accept m \<Longrightarrow> wf m \<and> enc m (len m) = Some p"
begin

lemma exact_iff: "dec p = accept m \<longleftrightarrow> wf m \<and> enc m (len m) = Some p"
  using dec_exact dec_enc by blast

end

lemma exact_codecI:
  fixes wf :: "'m \<Rightarrow> bool"
  assumes enc: "\<And>m cap. enc m cap = (if ok m \<and> len m \<le> cap then Some (body m) else None)"
    and ok: "\<And>m. wf m \<Longrightarrow> ok m"
    and len: "\<And>m. wf m \<Longrightarrow> length (body m) = len m"
    and "\<And>p. safe (dec p)"
    and iff: "\<And>p m. dec p = accept m \<longleftrightarrow> wf m \<and> p = body m"
  shows "exact_codec enc dec wf len"
  by unfold_locales (use assms in \<open>auto split: if_splits\<close>)

section \<open>Properties\<close>

text \<open>
  C23: an extension area is accepted exactly when it is a sequence of complete entries, none
  of which has the critical bit set in its type, laid out back to back from the first byte
  to the last.
\<close>

theorem extension_area_accepted_iff:
  "extensions_acceptable area = Some True \<longleftrightarrow>
     (\<exists>es. list_all ext_entry_ok es \<and> area = ext_area es)"
  by (simp add: extensions_acceptable_iff list_all_iff)

end
