(* ===== verification/Block.thy ===== *)
theory Block
  imports Wire
begin

text \<open>
  DATA datagrams and version negotiation (\<^verbatim>\<open>include/fuse/proto/block.hpp\<close>,
  \<^verbatim>\<open>src/proto/block.cpp\<close>). The encoder writes into the caller's buffer \<open>out\<close>; the model
  takes that buffer as an argument because a null payload leaves its payload region as it was.
  A payload pointer is \<^term>\<open>None\<close> when it is null and the bytes it points to otherwise.
\<close>

record BlockHeader =
  bh_stream_id :: u16
  bh_seq_no :: u64
  bh_flags :: u8
  bh_payload_len :: u16
  bh_offset :: u64

definition kVersionMismatchMarker :: u8 where [simp]: "kVersionMismatchMarker = 0xFF"
definition kVersionMismatchSize :: nat where [simp]: "kVersionMismatchSize = 3"

section \<open>Operations\<close>

definition peek_msg_type :: "byte list \<Rightarrow> MsgType decoded" where
  "peek_msg_type p =
     (if length p < kOuterHeaderSize then refuse
      else do {
        v \<leftarrow> rd p 0;
        if v \<noteq> kProtocolVersion then refuse
        else do { t \<leftarrow> rd p 1; accept (msg_of_byte t) } })"

definition is_foreign_version :: "byte list \<Rightarrow> bool option" where
  "is_foreign_version p =
     (if length p \<ge> kOuterHeaderSize then do {
        v \<leftarrow> rd p 0;
        if v \<noteq> kProtocolVersion then do { t \<leftarrow> rd p 1; Some (t \<noteq> kVersionMismatchMarker) }
        else Some False }
      else Some False)"

definition encode_version_mismatch :: "nat \<Rightarrow> byte list option" where
  "encode_version_mismatch cap =
     (if cap < kVersionMismatchSize then None
      else Some [kProtocolVersion, kVersionMismatchMarker, kProtocolVersion])"

definition decode_version_mismatch :: "byte list \<Rightarrow> u8 decoded" where
  "decode_version_mismatch p =
     (if length p < kVersionMismatchSize then refuse
      else do {
        m \<leftarrow> rd p 1;
        if m \<noteq> kVersionMismatchMarker then refuse
        else do {
          a \<leftarrow> rd p 0;
          b \<leftarrow> rd p 2;
          if a \<noteq> b then refuse
          else if a = kProtocolVersion then refuse
          else accept a } })"

definition data_prefix :: "BlockHeader \<Rightarrow> u64 \<Rightarrow> byte list" where
  "data_prefix hdr send_time_ns =
     put_u8 kProtocolVersion @ put_u8 (msg_byte MsgData) @ put_u16 (bh_stream_id hdr)
     @ put_u64 (bh_seq_no hdr) @ put_u8 (bh_flags hdr) @ put_u16 (bh_payload_len hdr)
     @ put_u64 (bh_offset hdr) @ put_u64 send_time_ns"

definition encode_data_datagram ::
  "BlockHeader \<Rightarrow> u64 \<Rightarrow> byte list option \<Rightarrow> byte list \<Rightarrow> byte list option" where
  "encode_data_datagram hdr send_time_ns payload out =
     (let n = unat (bh_payload_len hdr) in
      if n > kMaxPayloadSize then None
      else if length out < kDataPrefixSize + n then None
      else Some (data_prefix hdr send_time_ns
             @ (case payload of
                  Some bytes \<Rightarrow> if n > 0 then take n bytes else []
                | None \<Rightarrow> take n (drop kDataPrefixSize out))))"

definition decode_data_datagram ::
  "byte list \<Rightarrow> (BlockHeader \<times> u64 \<times> byte list option) decoded" where
  "decode_data_datagram p =
     (if length p < kDataPrefixSize then refuse
      else do {
        version \<leftarrow> get_u8 p 0;
        msg_type \<leftarrow> get_u8 p 1;
        if version \<noteq> kProtocolVersion \<or> msg_of_byte msg_type \<noteq> MsgData then refuse
        else do {
          sid \<leftarrow> get_u16 p 2;
          seq \<leftarrow> get_u64 p 4;
          fl \<leftarrow> get_u8 p 12;
          n \<leftarrow> get_u16 p 13;
          ofs \<leftarrow> get_u64 p 15;
          send_time_ns \<leftarrow> get_u64 p 23;
          if unat n > kMaxPayloadSize then refuse
          else if length p < kDataPrefixSize + unat n then refuse
          else if unat n > 0 then do {
            bytes \<leftarrow> get_bytes (unat n) p 31;
            accept (\<lparr>bh_stream_id = sid, bh_seq_no = seq, bh_flags = fl, bh_payload_len = n, bh_offset = ofs\<rparr>,
                    send_time_ns, Some bytes) }
          else
            accept (\<lparr>bh_stream_id = sid, bh_seq_no = seq, bh_flags = fl, bh_payload_len = n, bh_offset = ofs\<rparr>,
                    send_time_ns, None) } })"

section \<open>The DATA format keeps the codec contract\<close>

type_synonym data_msg = "BlockHeader \<times> u64 \<times> byte list option"

definition enc_data :: "data_msg \<Rightarrow> nat \<Rightarrow> byte list option" where
  "enc_data m cap =
     (case m of (hdr, t, payload) \<Rightarrow> encode_data_datagram hdr t payload (replicate cap 0))"

definition wf_data :: "data_msg \<Rightarrow> bool" where
  "wf_data m \<longleftrightarrow>
     (case m of (hdr, t, payload) \<Rightarrow>
        unat (bh_payload_len hdr) \<le> kMaxPayloadSize \<and>
        (case payload of
           None \<Rightarrow> bh_payload_len hdr = 0
         | Some bytes \<Rightarrow> bh_payload_len hdr \<noteq> 0 \<and> length bytes = unat (bh_payload_len hdr)))"

definition len_data :: "data_msg \<Rightarrow> nat" where
  "len_data m = kDataPrefixSize + unat (bh_payload_len (fst m))"

lemma length_data_prefix [simp]: "length (data_prefix hdr t) = 31"
  by (simp add: data_prefix_def)

lemma decode_data_prefix:
  assumes "unat (bh_payload_len hdr) \<le> kMaxPayloadSize" "unat (bh_payload_len hdr) \<le> length body"
  shows "decode_data_datagram (data_prefix hdr t @ body) =
           accept (hdr, t, if bh_payload_len hdr = 0 then None
                           else Some (take (unat (bh_payload_len hdr)) body))"
  using assms
  by (cases hdr)
     (simp add: decode_data_datagram_def data_prefix_def wire_simps msg_of_byte_def
        get_bytes_def unat_gt_0)

lemma safe_decode_data_datagram [simp]: "safe (decode_data_datagram p)"
  by (auto simp: decode_data_datagram_def intro!: safe_bind)

lemma decode_data_sound:
  assumes "decode_data_datagram p = accept m"
  shows "wf_data m \<and> (\<exists>dg rest. enc_data m (len_data m) = Some dg \<and> p = dg @ rest)"
proof -
  obtain hdr t payload where m: "m = (hdr, t, payload)" by (cases m)
  let ?n = "unat (bh_payload_len hdr)"
  obtain q where p: "p = data_prefix hdr t @ q" and n: "?n \<le> kMaxPayloadSize" "?n \<le> length q"
    using assms unfolding m
    by (fastforce simp: decode_data_datagram_def data_prefix_def Option.bind_eq_Some_conv
        msg_of_byte_eq_iff wire_simps wire_inv split: if_splits)
  have pl: "payload = (if bh_payload_len hdr = 0 then None else Some (take ?n q))"
    using assms n by (simp add: m p decode_data_prefix)
  have "wf_data m" using n pl by (auto simp: m wf_data_def)
  moreover have "enc_data m (len_data m) = Some (data_prefix hdr t @ take ?n q)"
    using n pl by (auto simp: m enc_data_def len_data_def encode_data_datagram_def Let_def unat_gt_0)
  moreover have "p = (data_prefix hdr t @ take ?n q) @ drop ?n q"
    by (simp add: p)
  ultimately show ?thesis by blast
qed

interpretation data_codec: trailing_codec enc_data decode_data_datagram wf_data len_data
proof unfold_locales
  show "safe (decode_data_datagram dg)" for dg
    by simp
  show "wf_data m \<and> (\<exists>dg rest. enc_data m (len_data m) = Some dg \<and> p = dg @ rest)"
    if "decode_data_datagram p = accept m" for p m
    using that by (rule decode_data_sound)
next
  fix m :: data_msg and cap
  assume "wf_data m" "len_data m \<le> cap"
  then show "enc_data m cap \<noteq> None"
    by (auto simp: wf_data_def len_data_def enc_data_def encode_data_datagram_def Let_def)
next
  fix m :: data_msg and cap dg
  assume m: "wf_data m" "enc_data m cap = Some dg"
  then show "length dg = len_data m \<and> len_data m \<le> cap"
    by (auto simp: wf_data_def len_data_def enc_data_def encode_data_datagram_def Let_def
        split: if_splits option.splits)
  show rest: "decode_data_datagram (dg @ rest) = accept m" for rest
    using m
    by (auto simp: wf_data_def enc_data_def encode_data_datagram_def decode_data_prefix Let_def
        unat_gt_0 split: if_splits option.splits)
  show "decode_data_datagram dg = accept m"
    using rest [of "[]"] by simp
qed

section \<open>Version negotiation\<close>

text \<open>
  A reply is recognised by every peer on another version, by no peer on our own, and is
  never itself answered: whatever a peer replies to, the reply does not trigger another.
\<close>

lemma version_reply_never_answered:
  assumes "encode_version_mismatch cap = Some r"
  shows "is_foreign_version r = Some False \<and> decode_version_mismatch r = refuse"
    and "is_foreign_version ((v # 0xFF # rest)) = Some False"
  using assms
  by (auto simp: encode_version_mismatch_def is_foreign_version_def decode_version_mismatch_def
      rd_def split: if_splits)

lemma decode_version_mismatch_foreign:
  "decode_version_mismatch (v # 0xFF # v # rest) = (if v = kProtocolVersion then refuse else accept v)"
  by (simp add: decode_version_mismatch_def rd_def)

lemma peek_exclusive:
  "peek_msg_type p = accept t \<Longrightarrow> is_foreign_version p = Some False \<and> decode_version_mismatch p = refuse"
  by (auto simp: peek_msg_type_def is_foreign_version_def decode_version_mismatch_def rd_def
      split: if_splits)

lemma safe_version [simp]:
  "safe (peek_msg_type p)" "safe (is_foreign_version p)" "safe (decode_version_mismatch p)"
  by (auto simp: peek_msg_type_def is_foreign_version_def decode_version_mismatch_def
      intro!: safe_bind)

section \<open>Properties\<close>

text \<open>
  C20: a datagram is accepted as a DATA block exactly when it starts with the encoding of the
  reported header, send time and payload; whatever follows (an authentication tag) is
  ignored.
\<close>

theorem data_datagram_accepted_iff:
  "decode_data_datagram p = accept m \<longleftrightarrow>
     wf_data m \<and> (\<exists>dg rest. enc_data m (len_data m) = Some dg \<and> p = dg @ rest)"
  by (rule data_codec.dec_iff)

text \<open>
  A version-mismatch reply is recognised by every peer on a different version as naming
  our version's byte, is never taken for a protocol message, and never triggers a reply.
\<close>

theorem version_reply_protocol:
  assumes "encode_version_mismatch cap = Some r"
  shows "r = [8, 255, 8] \<and> is_foreign_version r = Some False \<and> decode_version_mismatch r = refuse \<and>
    (decode_version_mismatch (v # 255 # v # rest) = accept v \<or> v = kProtocolVersion) \<and>
    is_foreign_version (v # 255 # v # rest) = Some False"
  using version_reply_never_answered [OF assms] assms
  by (auto simp: encode_version_mismatch_def decode_version_mismatch_foreign
      is_foreign_version_def rd_def split: if_splits)

theorem version_reply_protocol_witness:
  "is_foreign_version [8, 255, 8] = Some False \<and> decode_version_mismatch [7, 255, 7] = accept 7"
  using version_reply_protocol [of 3 "[8, 255, 8]" 7 "[]"]
  by (simp add: encode_version_mismatch_def)

end
