(* ===== verification/Control.thy ===== *)
theory Control
  imports Block
begin

text \<open>
  The control channel (\<^verbatim>\<open>include/fuse/proto/control.hpp\<close>, \<^verbatim>\<open>src/proto/control.cpp\<close>):
  heartbeats, stream starts, acknowledgements, negative acknowledgements, stream closes,
  resume ranges, digests, retries and path probes. Every encoder takes the capacity of the
  output buffer and returns the datagram (\<^term>\<open>None\<close> for the C++ result 0); every decoder
  fills a default-initialised structure. Each format is shown to be an instance of
  \<open>trailing_codec\<close>.

  An array field with a count is the whole C array; a well-formed message has the default
  in the slots past the count, which is what a decoder leaves there.
\<close>

definition put_outer :: "MsgType \<Rightarrow> byte list" where
  "put_outer t = put_u8 kProtocolVersion @ put_u8 (msg_byte t)"

definition check_outer :: "byte list \<Rightarrow> MsgType \<Rightarrow> nat option" where
  "check_outer p expected =
     (if length p < kOuterHeaderSize then Some 0
      else do {
        v \<leftarrow> rd p 0;
        if v \<noteq> kProtocolVersion then Some 0
        else do {
          t \<leftarrow> rd p 1;
          if msg_of_byte t \<noteq> expected then Some 0 else Some kOuterHeaderSize } })"

lemma length_put_outer [simp, wire_len]: "length (put_outer t) = 2"
  by (simp add: put_outer_def)

lemma safe_check_outer [simp]: "safe (check_outer p t)"
  by (auto simp: check_outer_def intro!: safe_bind)

lemma check_outer_hit [wire_simps]: "known_msg t \<Longrightarrow> check_outer (put_outer t @ q) t = Some 2"
  by (simp add: check_outer_def put_outer_def put_u8_def rd_def)

lemma check_outer_cases:
  assumes "known_msg t"
  obtains (bad) "check_outer p t = Some 0" "\<nexists>q. p = put_outer t @ q"
    | (good) q where "p = put_outer t @ q" "check_outer p t = Some 2"
proof (cases "\<exists>q. p = put_outer t @ q")
  case True
  with that(2) assms show ?thesis by (auto simp: wire_simps)
next
  case False
  then have "check_outer p t = Some 0"
    using assms
    by (cases p; cases "tl p")
       (auto simp: check_outer_def put_outer_def put_u8_def msg_of_byte_eq_iff rd_def)
  with False that(1) show ?thesis by blast
qed

lemmas control_simps = wire_simps wire_inv Option.bind_eq_Some_conv

section \<open>Heartbeat\<close>

record Heartbeat =
  hb_stream_id :: u16
  hb_highest_seq_no :: u64

definition heartbeat_bytes :: "Heartbeat \<Rightarrow> byte list" where
  "heartbeat_bytes hb =
     put_outer MsgHeartbeat @ put_u16 (hb_stream_id hb) @ put_u64 (hb_highest_seq_no hb)"

definition encode_heartbeat :: "Heartbeat \<Rightarrow> nat \<Rightarrow> byte list option" where
  "encode_heartbeat hb cap =
     (let total = kOuterHeaderSize + 2 + 8 in
      if cap < total then None else Some (heartbeat_bytes hb))"

definition decode_heartbeat :: "byte list \<Rightarrow> Heartbeat decoded" where
  "decode_heartbeat p =
     do {
       off \<leftarrow> check_outer p MsgHeartbeat;
       if off = 0 \<or> length p < kOuterHeaderSize + 2 + 8 then refuse
       else do {
         sid \<leftarrow> get_u16 p off;
         seq \<leftarrow> get_u64 p (off + 2);
         accept \<lparr>hb_stream_id = sid, hb_highest_seq_no = seq\<rparr> } }"

interpretation heartbeat_codec:
  trailing_codec encode_heartbeat decode_heartbeat "\<lambda>_. True" "\<lambda>_. 12"
proof (rule trailing_codecI)
  show "encode_heartbeat m cap = (if True \<and> 12 \<le> cap then Some (heartbeat_bytes m) else None)"
    for m cap by (simp add: encode_heartbeat_def)
  fix p and m :: Heartbeat
  show "safe (decode_heartbeat p)"
    by (rule check_outer_cases [of MsgHeartbeat p])
       (auto simp: decode_heartbeat_def intro!: safe_bind)
  show "decode_heartbeat p = accept m \<longleftrightarrow> True \<and> (\<exists>rest. p = heartbeat_bytes m @ rest)"
    by (cases m; rule check_outer_cases [of MsgHeartbeat p])
       (auto simp: decode_heartbeat_def heartbeat_bytes_def control_simps)
qed (auto simp: heartbeat_bytes_def)

section \<open>StreamStart\<close>

record StreamStart =
  ss_stream_id :: u16
  ss_total_blocks :: u64
  ss_block_size :: u16
  ss_total_bytes :: u64
  ss_session_salt :: "byte list"
  ss_nonce :: u64
  ss_stream_base_offset :: u64
  ss_file_total_bytes :: u64
  ss_file_id :: u64
  ss_token :: u64
  ss_ext_len :: u16
  ss_ext :: "byte list"

definition kStreamStartFixed :: nat where
  [simp]: "kStreamStartFixed = kOuterHeaderSize + 2 + 8 + 2 + 8 + 16 + 8 + 8 + 8 + 8 + 8"

definition stream_start_bytes :: "StreamStart \<Rightarrow> byte list" where
  "stream_start_bytes ss =
     put_outer MsgStreamStart @ put_u16 (ss_stream_id ss) @ put_u64 (ss_total_blocks ss)
     @ put_u16 (ss_block_size ss) @ put_u64 (ss_total_bytes ss) @ ss_session_salt ss
     @ put_u64 (ss_nonce ss) @ put_u64 (ss_stream_base_offset ss)
     @ put_u64 (ss_file_total_bytes ss) @ put_u64 (ss_file_id ss) @ put_u64 (ss_token ss)
     @ put_u16 (ss_ext_len ss) @ take (unat (ss_ext_len ss)) (ss_ext ss)"

definition encode_stream_start :: "StreamStart \<Rightarrow> nat \<Rightarrow> byte list option" where
  "encode_stream_start ss cap =
     (if unat (ss_ext_len ss) > kMaxExtensionBytes then None
      else let total = kStreamStartFixed + 2 + unat (ss_ext_len ss) in
        if cap < total then None else Some (stream_start_bytes ss))"

definition decode_stream_start :: "byte list \<Rightarrow> StreamStart decoded" where
  "decode_stream_start p =
     do {
       off \<leftarrow> check_outer p MsgStreamStart;
       if off = 0 \<or> length p < kStreamStartFixed + 2 then refuse
       else do {
         sid \<leftarrow> get_u16 p off;
         tb \<leftarrow> get_u64 p (off + 2);
         bs \<leftarrow> get_u16 p (off + 10);
         tby \<leftarrow> get_u64 p (off + 12);
         salt \<leftarrow> get_bytes 16 p (off + 20);
         nonce \<leftarrow> get_u64 p (off + 36);
         sbo \<leftarrow> get_u64 p (off + 44);
         ftb \<leftarrow> get_u64 p (off + 52);
         fid \<leftarrow> get_u64 p (off + 60);
         tok \<leftarrow> get_u64 p (off + 68);
         el \<leftarrow> get_u16 p (off + 76);
         if unat el > kMaxExtensionBytes then refuse
         else if unat el > length p - (off + 78) then refuse
         else do {
           area \<leftarrow> get_bytes (unat el) p (off + 78);
           good \<leftarrow> extensions_acceptable area;
           if \<not> good then refuse
           else accept \<lparr>ss_stream_id = sid, ss_total_blocks = tb, ss_block_size = bs,
             ss_total_bytes = tby, ss_session_salt = salt, ss_nonce = nonce,
             ss_stream_base_offset = sbo, ss_file_total_bytes = ftb, ss_file_id = fid,
             ss_token = tok, ss_ext_len = el, ss_ext = pad kMaxExtensionBytes 0 area\<rparr> } } }"

definition wf_stream_start :: "StreamStart \<Rightarrow> bool" where
  "wf_stream_start ss \<longleftrightarrow>
     length (ss_session_salt ss) = 16 \<and> length (ss_ext ss) = kMaxExtensionBytes \<and>
     unat (ss_ext_len ss) \<le> kMaxExtensionBytes \<and>
     extensions_acceptable (take (unat (ss_ext_len ss)) (ss_ext ss)) = Some True \<and>
     drop (unat (ss_ext_len ss)) (ss_ext ss) =
       replicate (kMaxExtensionBytes - unat (ss_ext_len ss)) 0"

lemma decode_stream_start_iff:
  "decode_stream_start p = accept m \<longleftrightarrow>
     wf_stream_start m \<and> (\<exists>rest. p = stream_start_bytes m @ rest)"
proof (cases m)
  case (fields sid tb bs tby salt nonce sbo ftb fid tok el ext)
  show ?thesis
  proof (rule check_outer_cases [of MsgStreamStart p])
    fix q assume p: "p = put_outer MsgStreamStart @ q" "check_outer p MsgStreamStart = Some 2"
    show ?thesis
    proof
      assume "decode_stream_start p = accept m"
      then show "wf_stream_start m \<and> (\<exists>rest. p = stream_start_bytes m @ rest)"
        unfolding p(1) fields
        by (auto simp: decode_stream_start_def wf_stream_start_def stream_start_bytes_def
            control_simps pad_def split: if_splits)
    next
      assume "wf_stream_start m \<and> (\<exists>rest. p = stream_start_bytes m @ rest)"
      then obtain rest where w: "wf_stream_start m" "p = stream_start_bytes m @ rest" by blast
      have "pad 256 0 (take (unat el) ext) = ext"
        using w(1) by (intro pad_take_canonical) (auto simp: wf_stream_start_def fields)
      with w show "decode_stream_start p = accept m"
        by (simp add: fields decode_stream_start_def wf_stream_start_def stream_start_bytes_def
            wire_simps)
    qed
  qed (auto simp: decode_stream_start_def stream_start_bytes_def)
qed

interpretation stream_start_codec:
  trailing_codec encode_stream_start decode_stream_start wf_stream_start
    "\<lambda>ss. 80 + unat (ss_ext_len ss)"
proof (rule trailing_codecI)
  show "encode_stream_start m cap =
     (if unat (ss_ext_len m) \<le> 256 \<and> 80 + unat (ss_ext_len m) \<le> cap
      then Some (stream_start_bytes m) else None)" for m cap
    by (auto simp: encode_stream_start_def)
  show "safe (decode_stream_start p)" for p
    by (rule check_outer_cases [of MsgStreamStart p])
       (auto simp: decode_stream_start_def intro!: safe_bind)
qed (auto simp: decode_stream_start_iff wf_stream_start_def stream_start_bytes_def)

section \<open>Ack\<close>

definition kRwndUnlimited :: u32 where [simp]: "kRwndUnlimited = 0xFFFFFFFF"

record Ack =
  ack_stream_id :: u16
  ack_base_seq_no :: u64
  ack_received_bitmask :: "u64 list"
  ack_echoed_send_time :: u64
  ack_nonce :: u64
  ack_rwnd :: u32

definition ack_bytes :: "Ack \<Rightarrow> byte list" where
  "ack_bytes a =
     put_outer MsgAck @ put_u16 (ack_stream_id a) @ put_u64 (ack_base_seq_no a)
     @ concat (map put_u64 (ack_received_bitmask a))
     @ put_u64 (ack_echoed_send_time a) @ put_u64 (ack_nonce a) @ put_u32 (ack_rwnd a)"

definition encode_ack :: "Ack \<Rightarrow> nat \<Rightarrow> byte list option" where
  "encode_ack a cap =
     (let total = kOuterHeaderSize + 2 + 8 + kMaskWords * 8 + 8 + 8 + 4 in
      if cap < total then None else Some (ack_bytes a))"

definition decode_ack :: "byte list \<Rightarrow> Ack decoded" where
  "decode_ack p =
     do {
       off \<leftarrow> check_outer p MsgAck;
       if off = 0 \<or> length p < kOuterHeaderSize + 2 + 8 + kMaskWords * 8 + 8 + 8 + 4 then refuse
       else do {
         sid \<leftarrow> get_u16 p off;
         base \<leftarrow> get_u64 p (off + 2);
         mask \<leftarrow> get_array 8 get_u64 kMaskWords p (off + 10);
         echo \<leftarrow> get_u64 p (off + 10 + kMaskWords * 8);
         nonce \<leftarrow> get_u64 p (off + 18 + kMaskWords * 8);
         rwnd \<leftarrow> get_u32 p (off + 26 + kMaskWords * 8);
         accept \<lparr>ack_stream_id = sid, ack_base_seq_no = base, ack_received_bitmask = mask,
           ack_echoed_send_time = echo, ack_nonce = nonce, ack_rwnd = rwnd\<rparr> } }"

definition wf_ack :: "Ack \<Rightarrow> bool" where
  "wf_ack a \<longleftrightarrow> length (ack_received_bitmask a) = kMaskWords"

interpretation ack_codec: trailing_codec encode_ack decode_ack wf_ack "\<lambda>_. 160"
proof (rule trailing_codecI)
  show "encode_ack m cap = (if True \<and> 160 \<le> cap then Some (ack_bytes m) else None)" for m cap
    by (simp add: encode_ack_def)
  fix p and m :: Ack
  show "safe (decode_ack p)"
    by (rule check_outer_cases [of MsgAck p])
       (auto simp: decode_ack_def intro!: safe_bind u64_field.array_safe)
  show "decode_ack p = accept m \<longleftrightarrow> wf_ack m \<and> (\<exists>rest. p = ack_bytes m @ rest)"
    by (cases m; rule check_outer_cases [of MsgAck p])
       (auto simp: decode_ack_def ack_bytes_def wf_ack_def control_simps)
qed (auto simp: ack_bytes_def wf_ack_def)

section \<open>Nack\<close>

record Nack =
  nk_stream_id :: u16
  nk_count :: u16
  nk_missing :: "u64 list"

definition nack_bytes :: "Nack \<Rightarrow> byte list" where
  "nack_bytes nk =
     put_outer MsgNack @ put_u16 (nk_stream_id nk) @ put_u16 (nk_count nk)
     @ concat (map put_u64 (take (unat (nk_count nk)) (nk_missing nk)))"

definition encode_nack :: "Nack \<Rightarrow> nat \<Rightarrow> byte list option" where
  "encode_nack nk cap =
     (if unat (nk_count nk) > kMaxWindow then None
      else let total = kOuterHeaderSize + 2 + 2 + unat (nk_count nk) * 8 in
        if cap < total then None else Some (nack_bytes nk))"

definition decode_nack :: "byte list \<Rightarrow> Nack decoded" where
  "decode_nack p =
     do {
       off \<leftarrow> check_outer p MsgNack;
       if off = 0 \<or> length p < kOuterHeaderSize + 2 + 2 then refuse
       else do {
         sid \<leftarrow> get_u16 p off;
         n \<leftarrow> get_u16 p (off + 2);
         if unat n > kMaxWindow then refuse
         else if length p < kOuterHeaderSize + 2 + 2 + unat n * 8 then refuse
         else do {
           ms \<leftarrow> get_array 8 get_u64 (unat n) p (off + 4);
           accept \<lparr>nk_stream_id = sid, nk_count = n, nk_missing = pad kMaxWindow 0 ms\<rparr> } } }"

definition wf_nack :: "Nack \<Rightarrow> bool" where
  "wf_nack nk \<longleftrightarrow>
     length (nk_missing nk) = kMaxWindow \<and> unat (nk_count nk) \<le> kMaxWindow \<and>
     drop (unat (nk_count nk)) (nk_missing nk) = replicate (kMaxWindow - unat (nk_count nk)) 0"

lemma decode_nack_hit:
  assumes "wf_nack m"
  shows "decode_nack (nack_bytes m @ rest) = accept m"
proof (cases m)
  case (fields sid n ms)
  have "pad 1024 0 (take (unat n) ms) = ms"
    using assms by (intro pad_take_canonical) (auto simp: wf_nack_def fields)
  with assms show ?thesis
    by (simp add: decode_nack_def nack_bytes_def wf_nack_def wire_simps fields)
qed

lemma decode_nack_sound:
  "decode_nack p = accept m \<Longrightarrow> wf_nack m \<and> (\<exists>rest. p = nack_bytes m @ rest)"
  by (rule check_outer_cases [of MsgNack p])
     (auto simp: decode_nack_def nack_bytes_def wf_nack_def control_simps pad_def
      split: if_splits)

lemma decode_nack_iff:
  "decode_nack p = accept m \<longleftrightarrow> wf_nack m \<and> (\<exists>rest. p = nack_bytes m @ rest)"
  using decode_nack_hit decode_nack_sound by blast

interpretation nack_codec:
  trailing_codec encode_nack decode_nack wf_nack "\<lambda>nk. 6 + 8 * unat (nk_count nk)"
proof (rule trailing_codecI)
  show "encode_nack m cap = (if unat (nk_count m) \<le> 1024 \<and> 6 + 8 * unat (nk_count m) \<le> cap
      then Some (nack_bytes m) else None)" for m cap
    by (auto simp: encode_nack_def)
  show "safe (decode_nack p)" for p
    by (rule check_outer_cases [of MsgNack p])
       (auto simp: decode_nack_def intro!: safe_bind u64_field.array_safe)
qed (auto simp: decode_nack_iff wf_nack_def nack_bytes_def)

section \<open>StreamClose\<close>

definition kStreamCloseFinished :: u8 where [simp]: "kStreamCloseFinished = 0"
definition kStreamCloseAborted :: u8 where [simp]: "kStreamCloseAborted = 1"
definition kStreamCloseAuthFailed :: u8 where [simp]: "kStreamCloseAuthFailed = 2"

record StreamClose =
  sc_stream_id :: u16
  sc_nonce :: u64
  sc_reason :: u8

definition stream_close_bytes :: "StreamClose \<Rightarrow> byte list" where
  "stream_close_bytes sc =
     put_outer MsgStreamClose @ put_u16 (sc_stream_id sc) @ put_u64 (sc_nonce sc)
     @ put_u8 (sc_reason sc)"

definition encode_stream_close :: "StreamClose \<Rightarrow> nat \<Rightarrow> byte list option" where
  "encode_stream_close sc cap =
     (let total = kOuterHeaderSize + 2 + 8 + 1 in
      if cap < total then None else Some (stream_close_bytes sc))"

definition decode_stream_close :: "byte list \<Rightarrow> StreamClose decoded" where
  "decode_stream_close p =
     do {
       off \<leftarrow> check_outer p MsgStreamClose;
       if off = 0 \<or> length p < kOuterHeaderSize + 2 + 8 + 1 then refuse
       else do {
         sid \<leftarrow> get_u16 p off;
         nonce \<leftarrow> get_u64 p (off + 2);
         reason \<leftarrow> get_u8 p (off + 10);
         accept \<lparr>sc_stream_id = sid, sc_nonce = nonce, sc_reason = reason\<rparr> } }"

interpretation stream_close_codec:
  trailing_codec encode_stream_close decode_stream_close "\<lambda>_. True" "\<lambda>_. 13"
proof (rule trailing_codecI)
  show "encode_stream_close m cap =
      (if True \<and> 13 \<le> cap then Some (stream_close_bytes m) else None)" for m cap
    by (simp add: encode_stream_close_def)
  fix p and m :: StreamClose
  show "safe (decode_stream_close p)"
    by (rule check_outer_cases [of MsgStreamClose p])
       (auto simp: decode_stream_close_def intro!: safe_bind)
  show "decode_stream_close p = accept m \<longleftrightarrow> True \<and> (\<exists>rest. p = stream_close_bytes m @ rest)"
    by (cases m; rule check_outer_cases [of MsgStreamClose p])
       (auto simp: decode_stream_close_def stream_close_bytes_def control_simps)
qed (auto simp: stream_close_bytes_def)

section \<open>ResumeRanges\<close>

definition kResumeFlagResumed :: u8 where [simp]: "kResumeFlagResumed = 1"
definition kMaxResumeRangesPerMsg :: nat where [simp]: "kMaxResumeRangesPerMsg = 64"

type_synonym ResumeRange = "u64 \<times> u64"

record ResumeRanges =
  rr_stream_id :: u16
  rr_nonce :: u64
  rr_flags :: u8
  rr_part :: u16
  rr_parts :: u16
  rr_count :: u16
  rr_ranges :: "ResumeRange list"

definition kResumeRangesFixed :: nat where
  [simp]: "kResumeRangesFixed = kOuterHeaderSize + 2 + 8 + 1 + 2 + 2 + 2"

definition put_range :: "ResumeRange \<Rightarrow> byte list" where
  "put_range r = put_u64 (fst r) @ put_u64 (snd r)"

definition get_range :: "byte list \<Rightarrow> nat \<Rightarrow> ResumeRange option" where
  "get_range p off = do { a \<leftarrow> get_u64 p off; b \<leftarrow> get_u64 p (off + 8); Some (a, b) }"

interpretation range_field: field put_range get_range 16
proof unfold_locales
  show "get_range q 0 = Some v \<longleftrightarrow> (\<exists>r. q = put_range v @ r)" for q v
    by (cases v) (auto simp: get_range_def put_range_def control_simps)
qed (auto simp: get_range_def put_range_def wire_simps intro!: safe_bind)

definition resume_ranges_bytes :: "ResumeRanges \<Rightarrow> byte list" where
  "resume_ranges_bytes rr =
     put_outer MsgResumeRanges @ put_u16 (rr_stream_id rr) @ put_u64 (rr_nonce rr)
     @ put_u8 (rr_flags rr) @ put_u16 (rr_part rr) @ put_u16 (rr_parts rr) @ put_u16 (rr_count rr)
     @ concat (map put_range (take (unat (rr_count rr)) (rr_ranges rr)))"

definition encode_resume_ranges :: "ResumeRanges \<Rightarrow> nat \<Rightarrow> byte list option" where
  "encode_resume_ranges rr cap =
     (if unat (rr_count rr) > kMaxResumeRangesPerMsg \<or> rr_parts rr = 0 \<or> rr_part rr \<ge> rr_parts rr
      then None
      else let total = kResumeRangesFixed + unat (rr_count rr) * 16 in
        if cap < total then None else Some (resume_ranges_bytes rr))"

definition decode_resume_ranges :: "byte list \<Rightarrow> ResumeRanges decoded" where
  "decode_resume_ranges p =
     do {
       off \<leftarrow> check_outer p MsgResumeRanges;
       if off = 0 \<or> length p < kResumeRangesFixed then refuse
       else do {
         sid \<leftarrow> get_u16 p off;
         nonce \<leftarrow> get_u64 p (off + 2);
         fl \<leftarrow> get_u8 p (off + 10);
         part \<leftarrow> get_u16 p (off + 11);
         parts \<leftarrow> get_u16 p (off + 13);
         n \<leftarrow> get_u16 p (off + 15);
         if unat n > kMaxResumeRangesPerMsg \<or> parts = 0 \<or> part \<ge> parts
            \<or> length p < kResumeRangesFixed + unat n * 16 then refuse
         else do {
           rs \<leftarrow> get_array 16 get_range (unat n) p (off + 17);
           accept \<lparr>rr_stream_id = sid, rr_nonce = nonce, rr_flags = fl, rr_part = part,
             rr_parts = parts, rr_count = n,
             rr_ranges = pad kMaxResumeRangesPerMsg (0, 0) rs\<rparr> } } }"

definition wf_resume_ranges :: "ResumeRanges \<Rightarrow> bool" where
  "wf_resume_ranges rr \<longleftrightarrow>
     length (rr_ranges rr) = kMaxResumeRangesPerMsg \<and>
     unat (rr_count rr) \<le> kMaxResumeRangesPerMsg \<and> rr_part rr < rr_parts rr \<and>
     drop (unat (rr_count rr)) (rr_ranges rr) =
       replicate (kMaxResumeRangesPerMsg - unat (rr_count rr)) (0, 0)"

lemma decode_resume_ranges_hit:
  assumes "wf_resume_ranges m"
  shows "decode_resume_ranges (resume_ranges_bytes m @ rest) = accept m"
proof (cases m)
  case (fields sid nonce fl part parts n rs)
  have "pad 64 (0, 0) (take (unat n) rs) = rs" "parts \<noteq> 0"
    using assms by (auto intro!: pad_take_canonical simp: wf_resume_ranges_def fields)
  with assms show ?thesis
    by (simp add: decode_resume_ranges_def resume_ranges_bytes_def wf_resume_ranges_def
        wire_simps fields not_le)
qed

lemma decode_resume_ranges_sound:
  "decode_resume_ranges p = accept m \<Longrightarrow>
     wf_resume_ranges m \<and> (\<exists>rest. p = resume_ranges_bytes m @ rest)"
  by (rule check_outer_cases [of MsgResumeRanges p])
     (auto simp: decode_resume_ranges_def resume_ranges_bytes_def wf_resume_ranges_def
      control_simps wire_simps wire_inv pad_def not_le split: if_splits)

lemma decode_resume_ranges_iff:
  "decode_resume_ranges p = accept m \<longleftrightarrow>
     wf_resume_ranges m \<and> (\<exists>rest. p = resume_ranges_bytes m @ rest)"
  using decode_resume_ranges_hit decode_resume_ranges_sound by blast

interpretation resume_ranges_codec:
  trailing_codec encode_resume_ranges decode_resume_ranges wf_resume_ranges
    "\<lambda>rr. 19 + 16 * unat (rr_count rr)"
proof (rule trailing_codecI)
  show "encode_resume_ranges m cap =
     (if (unat (rr_count m) \<le> 64 \<and> rr_parts m \<noteq> 0 \<and> rr_part m < rr_parts m) \<and>
         19 + 16 * unat (rr_count m) \<le> cap
      then Some (resume_ranges_bytes m) else None)" for m cap
    by (auto simp: encode_resume_ranges_def not_le)
  show "safe (decode_resume_ranges p)" for p
    by (rule check_outer_cases [of MsgResumeRanges p])
       (auto simp: decode_resume_ranges_def intro!: safe_bind range_field.array_safe)
qed (auto simp: decode_resume_ranges_iff wf_resume_ranges_def resume_ranges_bytes_def)

section \<open>FileDigest\<close>

definition kDigestLen :: nat where [simp]: "kDigestLen = 32"

record DigestMessage =
  dm_stream_id :: u16
  dm_nonce :: u64
  dm_digest :: "byte list"

definition digest_bytes :: "DigestMessage \<Rightarrow> byte list" where
  "digest_bytes dm =
     put_outer MsgFileDigest @ put_u16 (dm_stream_id dm) @ put_u64 (dm_nonce dm) @ dm_digest dm"

definition encode_digest :: "DigestMessage \<Rightarrow> nat \<Rightarrow> byte list option" where
  "encode_digest dm cap =
     (let total = kOuterHeaderSize + 2 + 8 + kDigestLen in
      if cap < total then None else Some (digest_bytes dm))"

definition decode_digest :: "byte list \<Rightarrow> DigestMessage decoded" where
  "decode_digest p =
     do {
       off \<leftarrow> check_outer p MsgFileDigest;
       if off = 0 \<or> length p < kOuterHeaderSize + 2 + 8 + kDigestLen then refuse
       else do {
         sid \<leftarrow> get_u16 p off;
         nonce \<leftarrow> get_u64 p (off + 2);
         d \<leftarrow> get_bytes kDigestLen p (off + 10);
         accept \<lparr>dm_stream_id = sid, dm_nonce = nonce, dm_digest = d\<rparr> } }"

definition wf_digest :: "DigestMessage \<Rightarrow> bool" where
  "wf_digest dm \<longleftrightarrow> length (dm_digest dm) = kDigestLen"

interpretation digest_codec: trailing_codec encode_digest decode_digest wf_digest "\<lambda>_. 44"
proof (rule trailing_codecI)
  show "encode_digest m cap = (if True \<and> 44 \<le> cap then Some (digest_bytes m) else None)" for m cap
    by (simp add: encode_digest_def)
  fix p and m :: DigestMessage
  show "safe (decode_digest p)"
    by (rule check_outer_cases [of MsgFileDigest p])
       (auto simp: decode_digest_def intro!: safe_bind)
  show "decode_digest p = accept m \<longleftrightarrow> wf_digest m \<and> (\<exists>rest. p = digest_bytes m @ rest)"
    by (cases m; rule check_outer_cases [of MsgFileDigest p])
       (auto simp: decode_digest_def digest_bytes_def wf_digest_def control_simps)
qed (auto simp: digest_bytes_def wf_digest_def)

section \<open>Retry\<close>

record Retry =
  rt_stream_id :: u16
  rt_nonce :: u64
  rt_token :: u64

definition retry_bytes :: "Retry \<Rightarrow> byte list" where
  "retry_bytes r =
     put_outer MsgRetry @ put_u16 (rt_stream_id r) @ put_u64 (rt_nonce r) @ put_u64 (rt_token r)"

definition encode_retry :: "Retry \<Rightarrow> nat \<Rightarrow> byte list option" where
  "encode_retry r cap =
     (let total = kOuterHeaderSize + 2 + 8 + 8 in
      if cap < total then None else Some (retry_bytes r))"

definition decode_retry :: "byte list \<Rightarrow> Retry decoded" where
  "decode_retry p =
     do {
       off \<leftarrow> check_outer p MsgRetry;
       if off = 0 \<or> length p < kOuterHeaderSize + 2 + 8 + 8 then refuse
       else do {
         sid \<leftarrow> get_u16 p off;
         nonce \<leftarrow> get_u64 p (off + 2);
         token \<leftarrow> get_u64 p (off + 10);
         accept \<lparr>rt_stream_id = sid, rt_nonce = nonce, rt_token = token\<rparr> } }"

interpretation retry_codec: trailing_codec encode_retry decode_retry "\<lambda>_. True" "\<lambda>_. 20"
proof (rule trailing_codecI)
  show "encode_retry m cap = (if True \<and> 20 \<le> cap then Some (retry_bytes m) else None)" for m cap
    by (simp add: encode_retry_def)
  fix p and m :: Retry
  show "safe (decode_retry p)"
    by (rule check_outer_cases [of MsgRetry p]) (auto simp: decode_retry_def intro!: safe_bind)
  show "decode_retry p = accept m \<longleftrightarrow> True \<and> (\<exists>rest. p = retry_bytes m @ rest)"
    by (cases m; rule check_outer_cases [of MsgRetry p])
       (auto simp: decode_retry_def retry_bytes_def control_simps)
qed (auto simp: retry_bytes_def)

section \<open>PathChallenge and PathResponse\<close>

record PathProbe =
  pp_stream_id :: u16
  pp_nonce :: u64
  pp_challenge :: u64

definition path_probe_bytes :: "MsgType \<Rightarrow> PathProbe \<Rightarrow> byte list" where
  "path_probe_bytes type pp =
     put_outer type @ put_u16 (pp_stream_id pp) @ put_u64 (pp_nonce pp) @ put_u64 (pp_challenge pp)"

definition encode_path_probe :: "MsgType \<Rightarrow> PathProbe \<Rightarrow> nat \<Rightarrow> byte list option" where
  "encode_path_probe type pp cap =
     (let total = kOuterHeaderSize + 2 + 8 + 8 in
      if (type \<noteq> MsgPathChallenge \<and> type \<noteq> MsgPathResponse) \<or> cap < total then None
      else Some (path_probe_bytes type pp))"

definition decode_path_probe :: "MsgType \<Rightarrow> byte list \<Rightarrow> PathProbe decoded" where
  "decode_path_probe type p =
     do {
       off \<leftarrow> check_outer p type;
       if off = 0 \<or> length p < kOuterHeaderSize + 2 + 8 + 8 then refuse
       else do {
         sid \<leftarrow> get_u16 p off;
         nonce \<leftarrow> get_u64 p (off + 2);
         challenge \<leftarrow> get_u64 p (off + 10);
         accept \<lparr>pp_stream_id = sid, pp_nonce = nonce, pp_challenge = challenge\<rparr> } }"

lemma path_probe_trailing_codec:
  assumes t: "t = MsgPathChallenge \<or> t = MsgPathResponse"
  shows "trailing_codec (encode_path_probe t) (decode_path_probe t) (\<lambda>_. True) (\<lambda>_. 20)"
proof (rule trailing_codecI)
  have k: "known_msg t" using t by auto
  show "encode_path_probe t m cap =
      (if True \<and> 20 \<le> cap then Some (path_probe_bytes t m) else None)" for m cap
    using t by (auto simp: encode_path_probe_def)
  fix p and m :: PathProbe
  show "safe (decode_path_probe t p)"
    by (rule check_outer_cases [OF k, of p]) (auto simp: decode_path_probe_def intro!: safe_bind)
  show "decode_path_probe t p = accept m \<longleftrightarrow> True \<and> (\<exists>rest. p = path_probe_bytes t m @ rest)"
    by (cases m; rule check_outer_cases [OF k, of p])
       (auto simp: decode_path_probe_def path_probe_bytes_def control_simps k)
qed (auto simp: path_probe_bytes_def)

interpretation path_challenge_codec: trailing_codec
    "encode_path_probe MsgPathChallenge" "decode_path_probe MsgPathChallenge" "\<lambda>_. True" "\<lambda>_. 20"
  by (rule path_probe_trailing_codec) simp

interpretation path_response_codec: trailing_codec
    "encode_path_probe MsgPathResponse" "decode_path_probe MsgPathResponse" "\<lambda>_. True" "\<lambda>_. 20"
  by (rule path_probe_trailing_codec) simp

definition kMaxAuxDatagramSize :: nat where
  [simp]: "kMaxAuxDatagramSize = kOuterHeaderSize + 2 + 2 + kMaxWindow * 8"

section \<open>No datagram is two messages\<close>

text \<open>
  What a decoder accepts is what \<^verbatim>\<open>peek_msg_type\<close> announces, so a receive loop that
  dispatches on the announced type never misses a message, and no datagram is two messages.
\<close>

lemma peek_put_outer [simp]: "known_msg t \<Longrightarrow> peek_msg_type (put_outer t @ q) = accept t"
  by (simp add: peek_msg_type_def put_outer_def put_u8_def rd_def)

lemma check_outer_peek:
  "known_msg t \<Longrightarrow> check_outer p t = Some off \<Longrightarrow> off \<noteq> 0 \<Longrightarrow> peek_msg_type p = accept t"
  by (rule check_outer_cases [of t p]) auto

lemma decode_announced:
  "decode_heartbeat p = accept hb \<Longrightarrow> peek_msg_type p = accept MsgHeartbeat"
  "decode_stream_start p = accept ss \<Longrightarrow> peek_msg_type p = accept MsgStreamStart"
  "decode_ack p = accept a \<Longrightarrow> peek_msg_type p = accept MsgAck"
  "decode_nack p = accept nk \<Longrightarrow> peek_msg_type p = accept MsgNack"
  "decode_stream_close p = accept sc \<Longrightarrow> peek_msg_type p = accept MsgStreamClose"
  "decode_resume_ranges p = accept rr \<Longrightarrow> peek_msg_type p = accept MsgResumeRanges"
  "decode_digest p = accept dm \<Longrightarrow> peek_msg_type p = accept MsgFileDigest"
  "decode_retry p = accept rt \<Longrightarrow> peek_msg_type p = accept MsgRetry"
  by (auto simp: decode_heartbeat_def decode_stream_start_def decode_ack_def decode_nack_def
      decode_stream_close_def decode_resume_ranges_def decode_digest_def decode_retry_def
      Option.bind_eq_Some_conv check_outer_peek split: if_splits)

section \<open>Properties\<close>

text \<open>
  C18: no decoder of the control channel, nor the DATA and version decoders, reads outside the
  datagram it is given, whatever bytes arrive.
\<close>

theorem decoders_memory_safe:
  "safe (decode_data_datagram p) \<and> safe (peek_msg_type p) \<and> safe (is_foreign_version p) \<and>
   safe (decode_version_mismatch p) \<and> safe (decode_heartbeat p) \<and> safe (decode_stream_start p) \<and>
   safe (decode_ack p) \<and> safe (decode_nack p) \<and> safe (decode_stream_close p) \<and>
   safe (decode_resume_ranges p) \<and> safe (decode_digest p) \<and> safe (decode_retry p) \<and>
   safe (decode_path_probe MsgPathChallenge p) \<and> safe (decode_path_probe MsgPathResponse p)"
  by (simp add: heartbeat_codec.dec_safe stream_start_codec.dec_safe ack_codec.dec_safe
      nack_codec.dec_safe stream_close_codec.dec_safe resume_ranges_codec.dec_safe
      digest_codec.dec_safe retry_codec.dec_safe path_challenge_codec.dec_safe
      path_response_codec.dec_safe)

text \<open>
  C21: a StreamStart is accepted exactly when the datagram begins with the encoding of a
  well-formed StreamStart (16-byte salt, extension area of at most 256 bytes without unknown
  critical entries); so decoding inverts encoding and every accepted datagram has one reading.
\<close>

theorem stream_start_accepted_iff:
  "decode_stream_start p = accept ss \<longleftrightarrow>
     wf_stream_start ss \<and>
     (\<exists>dg rest. encode_stream_start ss (80 + unat (ss_ext_len ss)) = Some dg \<and> p = dg @ rest)"
  by (rule stream_start_codec.dec_iff)

text \<open>
  Acknowledgements, negative acknowledgements and resume ranges are each accepted exactly
  when the datagram begins with the encoding of the reported message, with the count of a
  list message bounding the entries that are read.
\<close>

theorem list_messages_accepted_iff:
  "(decode_ack p = accept a \<longleftrightarrow>
      wf_ack a \<and> (\<exists>dg rest. encode_ack a 160 = Some dg \<and> p = dg @ rest)) \<and>
   (decode_nack p = accept nk \<longleftrightarrow>
      wf_nack nk \<and>
      (\<exists>dg rest. encode_nack nk (6 + 8 * unat (nk_count nk)) = Some dg \<and> p = dg @ rest)) \<and>
   (decode_resume_ranges p = accept rr \<longleftrightarrow>
      wf_resume_ranges rr \<and>
      (\<exists>dg rest. encode_resume_ranges rr (19 + 16 * unat (rr_count rr)) = Some dg \<and> p = dg @ rest))"
  using ack_codec.dec_iff nack_codec.dec_iff resume_ranges_codec.dec_iff by blast



end
