(* ===== verification/Hash.thy ===== *)
theory Hash
  imports Wire
begin

text \<open>
  The two hashes of \<^verbatim>\<open>include/fuse/proto/hash.hpp\<close>: \<open>hash64\<close>, the FNV-1a loop the SETUP
  handshake and the resume trailer use as an integrity check, and \<open>siphash24\<close>, the keyed
  function behind address-validation tokens.
\<close>

section \<open>FNV-1a\<close>

definition fnv_step :: "u64 \<Rightarrow> byte \<Rightarrow> u64" where
  "fnv_step h b = (h XOR ucast b) * 1099511628211"

definition hash64 :: "byte list \<Rightarrow> u64" where
  "hash64 data = foldl fnv_step 1469598103934665603 data"

text \<open>
  One step is injective in the state for a fixed byte and in the byte for a fixed state,
  because multiplication by the odd FNV prime is invertible modulo \<open>2 ^ 64\<close>. So two
  inputs that differ in exactly one byte never collide.
\<close>

definition fnv_prime_inv :: u64 where
  "fnv_prime_inv = 14886173955864302971"

lemma fnv_prime_cancel: "(a :: u64) * 1099511628211 = b * 1099511628211 \<longleftrightarrow> a = b"
proof
  assume "a * 1099511628211 = b * 1099511628211"
  then have "a * 1099511628211 * fnv_prime_inv = b * 1099511628211 * fnv_prime_inv"
    by (rule arg_cong)
  moreover have "(1099511628211 :: u64) * fnv_prime_inv = 1"
    by (simp add: fnv_prime_inv_def)
  then have "x * 1099511628211 * fnv_prime_inv = x" for x
    by (simp only: mult.assoc mult_1_right)
  ultimately show "a = b" by (simp only:)
qed (rule arg_cong)

lemma xor_left_cancel: "(h :: u64) XOR a = h XOR b \<longleftrightarrow> a = b"
proof
  assume "h XOR a = h XOR b"
  then have "h XOR (h XOR a) = h XOR (h XOR b)" by (rule arg_cong)
  then show "a = b" by (simp only: xor.assoc [symmetric] xor_self_eq xor.left_neutral)
qed (rule arg_cong)

lemma fnv_step_inj_state: "fnv_step h b = fnv_step h' b \<longleftrightarrow> h = h'"
  unfolding fnv_step_def fnv_prime_cancel
  using xor_left_cancel [of "ucast b" h h'] by (simp only: xor.commute)

lemma fnv_step_inj_byte: "fnv_step h b = fnv_step h b' \<longleftrightarrow> b = b'"
proof -
  have "ucast b = (ucast b' :: u64) \<Longrightarrow> b = b'"
  proof (rule bit_word_eqI)
    fix k assume e: "ucast b = (ucast b' :: u64)" and k: "k < LENGTH(8)"
    have "bit (ucast b :: u64) k = bit (ucast b' :: u64) k" by (simp only: e)
    with k show "bit b k = bit b' k" by (simp add: bit_ucast_iff)
  qed
  then show ?thesis unfolding fnv_step_def fnv_prime_cancel xor_left_cancel by blast
qed

lemma foldl_fnv_inj: "foldl fnv_step h xs = foldl fnv_step h' xs \<longleftrightarrow> h = h'"
  by (induction xs arbitrary: h h') (simp_all add: fnv_step_inj_state)

lemma hash64_one_byte: "hash64 (pre @ a # post) = hash64 (pre @ b # post) \<longleftrightarrow> a = b"
  by (simp add: hash64_def foldl_fnv_inj fnv_step_inj_byte)

section \<open>SipHash-2-4\<close>

record sip_state =
  sip_v0 :: u64
  sip_v1 :: u64
  sip_v2 :: u64
  sip_v3 :: u64

text \<open>\<^verbatim>\<open>rd\<close> of the source: eight bytes, little endian; \<open>p\<close> has at least eight elements.\<close>

definition sip_rd :: "byte list \<Rightarrow> u64" where
  "sip_rd p = foldl (\<lambda>v i. push_bit 8 v OR ucast (p ! i)) 0 (rev [0..<8])"

definition sip_rotl :: "u64 \<Rightarrow> nat \<Rightarrow> u64" where
  "sip_rotl x b = push_bit b x OR drop_bit (64 - b) x"

definition sip_round :: "sip_state \<Rightarrow> sip_state" where
  "sip_round s =
     (let v0 = sip_v0 s; v1 = sip_v1 s; v2 = sip_v2 s; v3 = sip_v3 s;
          v0 = v0 + v1; v1 = sip_rotl v1 13; v1 = v1 XOR v0; v0 = sip_rotl v0 32;
          v2 = v2 + v3; v3 = sip_rotl v3 16; v3 = v3 XOR v2;
          v0 = v0 + v3; v3 = sip_rotl v3 21; v3 = v3 XOR v0;
          v2 = v2 + v1; v1 = sip_rotl v1 17; v1 = v1 XOR v2; v2 = sip_rotl v2 32
      in \<lparr>sip_v0 = v0, sip_v1 = v1, sip_v2 = v2, sip_v3 = v3\<rparr>)"

definition sip_absorb :: "sip_state \<Rightarrow> u64 \<Rightarrow> sip_state" where
  "sip_absorb s m =
     (let s = s\<lparr>sip_v3 := sip_v3 s XOR m\<rparr>;
          s = sip_round s;
          s = sip_round s
      in s\<lparr>sip_v0 := sip_v0 s XOR m\<rparr>)"

definition sip_last :: "byte list \<Rightarrow> u64" where
  "sip_last data =
     (let len = length data; whole = len - len mod 8
      in foldl (\<lambda>last i. last OR push_bit (8 * i) (ucast (data ! (whole + i))))
           (push_bit 56 (of_nat len)) [0..<len mod 8])"

definition siphash24 :: "byte list \<Rightarrow> byte list \<Rightarrow> u64" where
  "siphash24 key data =
     (let k0 = sip_rd key; k1 = sip_rd (drop 8 key);
          s = \<lparr>sip_v0 = 0x736f6d6570736575 XOR k0, sip_v1 = 0x646f72616e646f6d XOR k1,
               sip_v2 = 0x6c7967656e657261 XOR k0, sip_v3 = 0x7465646279746573 XOR k1\<rparr>;
          s = foldl (\<lambda>s i. sip_absorb s (sip_rd (drop (8 * i) data))) s [0..<length data div 8];
          s = sip_absorb s (sip_last data);
          s = s\<lparr>sip_v2 := sip_v2 s XOR 0xff\<rparr>;
          s = sip_round (sip_round (sip_round (sip_round s)))
      in sip_v0 s XOR sip_v1 s XOR sip_v2 s XOR sip_v3 s)"

section \<open>Properties\<close>

text \<open>
  C25: the integrity hash of the handshake and of the resume trailer detects every
  corruption of a single byte: changing one byte of the input to a different value always
  changes the hash.
\<close>

theorem hash64_detects_one_byte:
  "hash64 (pre @ a # post) = hash64 (pre @ b # post) \<longleftrightarrow> a = b"
  by (rule hash64_one_byte)

end
