(* ===== verification/Setup.thy ===== *)
theory Setup
  imports Control Hash
begin

text \<open>
  The SETUP handshake (\<^verbatim>\<open>include/fuse/proto/setup.hpp\<close>, \<^verbatim>\<open>src/proto/setup.cpp\<close>): the
  configuration payload and its serialisation, the initiator and responder state machines,
  and the two of them over a network that loses, repeats, reorders and injects datagrams.

  A handler returns the new state and the datagram it emits (\<^term>\<open>None\<close> for the C++ result 0).
  \<^verbatim>\<open>secure_random_u64()\<close> is the argument \<open>rnd\<close> of the responder.
\<close>

section \<open>The configuration payload\<close>

definition kStreamFlagLossless :: u8 where [simp]: "kStreamFlagLossless = 1"
definition kStreamFlagOrdered :: u8 where [simp]: "kStreamFlagOrdered = 2"
definition kStreamFlagCoalesce :: u8 where [simp]: "kStreamFlagCoalesce = 4"
definition kMaxStreams :: nat where [simp]: "kMaxStreams = 64"

record StreamConfig =
  cfg_stream_id :: u16
  cfg_worker_id :: u16
  cfg_stream_flags :: u8
  cfg_block_size :: u16
  cfg_window_size :: u16

definition no_stream :: StreamConfig where
  "no_stream = \<lparr>cfg_stream_id = 0, cfg_worker_id = 0, cfg_stream_flags = 0,
                cfg_block_size = 0, cfg_window_size = 0\<rparr>"

record SetupPayload =
  sp_protocol_version :: u8
  sp_num_workers :: u16
  sp_num_streams :: u16
  sp_streams :: "StreamConfig list"
  sp_ext_len :: u16
  sp_ext :: "byte list"

definition empty_setup :: SetupPayload where
  "empty_setup = \<lparr>sp_protocol_version = kProtocolVersion, sp_num_workers = 0, sp_num_streams = 0,
     sp_streams = replicate kMaxStreams no_stream, sp_ext_len = 0,
     sp_ext = replicate kMaxExtensionBytes 0\<rparr>"

text \<open>\<^verbatim>\<open>SetupPayload::operator==\<close>, which compares the counted entries only.\<close>

definition setup_eq :: "SetupPayload \<Rightarrow> SetupPayload \<Rightarrow> bool" where
  "setup_eq a b \<longleftrightarrow>
     \<not> (sp_protocol_version a \<noteq> sp_protocol_version b \<or> sp_num_workers a \<noteq> sp_num_workers b
         \<or> sp_num_streams a \<noteq> sp_num_streams b)
     \<and> list_all (\<lambda>i. sp_streams a ! i = sp_streams b ! i) [0..<unat (sp_num_streams a)]
     \<and> sp_ext_len a = sp_ext_len b
     \<and> list_all (\<lambda>i. sp_ext a ! i = sp_ext b ! i) [0..<unat (sp_ext_len a)]"

definition setup_payload_valid :: "SetupPayload \<Rightarrow> bool" where
  "setup_payload_valid p \<longleftrightarrow>
     \<not> (sp_protocol_version p \<noteq> kProtocolVersion \<or> unat (sp_num_streams p) > kMaxStreams)
     \<and> list_all (\<lambda>i.
         let s = sp_streams p ! i in
         \<not> (cfg_block_size s = 0 \<or> unat (cfg_block_size s) > kMaxPayloadSize
             \<or> cfg_window_size s = 0 \<or> unat (cfg_window_size s) > kMaxWindow)
         \<and> list_all (\<lambda>j. cfg_stream_id (sp_streams p ! j) \<noteq> cfg_stream_id s) [0..<i])
       [0..<unat (sp_num_streams p)]"

definition put_config :: "StreamConfig \<Rightarrow> byte list" where
  "put_config s =
     put_u16 (cfg_stream_id s) @ put_u16 (cfg_worker_id s) @ put_u8 (cfg_stream_flags s)
     @ put_u16 (cfg_block_size s) @ put_u16 (cfg_window_size s)"

definition get_config :: "byte list \<Rightarrow> nat \<Rightarrow> StreamConfig option" where
  "get_config p off =
     do { a \<leftarrow> get_u16 p off; b \<leftarrow> get_u16 p (off + 2); c \<leftarrow> get_u8 p (off + 4);
          d \<leftarrow> get_u16 p (off + 5); e \<leftarrow> get_u16 p (off + 7);
          Some \<lparr>cfg_stream_id = a, cfg_worker_id = b, cfg_stream_flags = c,
                cfg_block_size = d, cfg_window_size = e\<rparr> }"

definition setup_body :: "SetupPayload \<Rightarrow> byte list" where
  "setup_body p =
     put_u8 (sp_protocol_version p) @ put_u16 (sp_num_workers p) @ put_u16 (sp_num_streams p)
     @ concat (map put_config (take (unat (sp_num_streams p)) (sp_streams p)))
     @ put_u16 (sp_ext_len p) @ take (unat (sp_ext_len p)) (sp_ext p)"

definition serialize_setup_payload :: "SetupPayload \<Rightarrow> nat \<Rightarrow> byte list option" where
  "serialize_setup_payload p cap =
     (if unat (sp_num_streams p) > kMaxStreams \<or> unat (sp_ext_len p) > kMaxExtensionBytes then None
      else let total = 1 + 2 + 2 + unat (sp_num_streams p) * 9 + 2 + unat (sp_ext_len p) in
        if cap < total then None else Some (setup_body p))"

definition encode_setup_data :: "SetupPayload \<Rightarrow> nat \<Rightarrow> byte list option" where
  "encode_setup_data p cap =
     (if cap < kOuterHeaderSize then None
      else case serialize_setup_payload p (cap - kOuterHeaderSize) of
          None \<Rightarrow> None
        | Some body \<Rightarrow> Some (put_outer MsgSetupData @ body))"

definition decode_setup_data :: "byte list \<Rightarrow> (SetupPayload \<times> byte list) decoded" where
  "decode_setup_data p =
     (if length p < kOuterHeaderSize + 1 + 2 + 2 then refuse
      else do {
        a \<leftarrow> rd p 0;
        b \<leftarrow> rd p 1;
        if a \<noteq> kProtocolVersion \<or> msg_of_byte b \<noteq> MsgSetupData then refuse
        else let body = drop kOuterHeaderSize p; body_len = length p - kOuterHeaderSize in do {
          ver \<leftarrow> get_u8 body 0;
          workers \<leftarrow> get_u16 body 1;
          n \<leftarrow> get_u16 body 3;
          if unat n > kMaxStreams then refuse
          else let fixed = 1 + 2 + 2 + unat n * 9 in
            if body_len < fixed + 2 then refuse
            else do {
              ss \<leftarrow> get_array 9 get_config (unat n) body 5;
              el \<leftarrow> get_u16 body fixed;
              if unat el > kMaxExtensionBytes \<or> body_len \<noteq> fixed + 2 + unat el then refuse
              else do {
                area \<leftarrow> get_bytes (unat el) body (fixed + 2);
                good \<leftarrow> extensions_acceptable area;
                if \<not> good then refuse
                else accept
                  (\<lparr>sp_protocol_version = ver, sp_num_workers = workers, sp_num_streams = n,
                    sp_streams = pad kMaxStreams no_stream ss, sp_ext_len = el,
                    sp_ext = pad kMaxExtensionBytes 0 area\<rparr>, body) } } } })"

definition wf_setup :: "SetupPayload \<Rightarrow> bool" where
  "wf_setup p \<longleftrightarrow>
     length (sp_streams p) = kMaxStreams \<and> unat (sp_num_streams p) \<le> kMaxStreams \<and>
     drop (unat (sp_num_streams p)) (sp_streams p) =
       replicate (kMaxStreams - unat (sp_num_streams p)) no_stream \<and>
     length (sp_ext p) = kMaxExtensionBytes \<and> unat (sp_ext_len p) \<le> kMaxExtensionBytes \<and>
     drop (unat (sp_ext_len p)) (sp_ext p) =
       replicate (kMaxExtensionBytes - unat (sp_ext_len p)) 0 \<and>
     extensions_acceptable (take (unat (sp_ext_len p)) (sp_ext p)) = Some True"

definition setup_len :: "SetupPayload \<Rightarrow> nat" where
  "setup_len p = 9 + 9 * unat (sp_num_streams p) + unat (sp_ext_len p)"

subsection \<open>Round trip\<close>

interpretation config_field: field put_config get_config 9
proof unfold_locales
  show "get_config q 0 = Some v \<longleftrightarrow> (\<exists>r. q = put_config v @ r)" for q v
    by (cases v) (auto simp: get_config_def put_config_def control_simps)
qed (auto simp: get_config_def put_config_def wire_simps Suc_diff_le intro!: safe_bind)

lemma safe_decode_setup_data [simp]: "safe (decode_setup_data p)"
  by (cases p; cases "tl p")
     (auto simp: decode_setup_data_def Let_def intro!: safe_bind config_field.array_safe)

lemma decode_setup_hit:
  assumes "wf_setup m"
  shows "decode_setup_data (put_outer MsgSetupData @ setup_body m) = accept (m, setup_body m)"
proof (cases m)
  case (fields ver workers n ss el ext)
  have "pad 64 no_stream (take (unat n) ss) = ss" "pad 256 0 (take (unat el) ext) = ext"
    using assms by (auto intro!: pad_take_canonical simp: wf_setup_def fields)
  moreover have "rd (put_outer MsgSetupData @ q) 0 = Some 8"
    "rd (put_outer MsgSetupData @ q) (Suc 0) = Some 4" for q
    by (simp_all add: put_outer_def put_u8_def rd_def)
  moreover have "msg_of_byte 4 = MsgSetupData" by (simp add: msg_of_byte_eq_iff)
  ultimately show ?thesis
    using assms
    by (simp add: decode_setup_data_def setup_body_def wf_setup_def wire_simps fields Let_def
        add.commute)
qed

lemma rd_outer:
  assumes "2 \<le> length p" "rd p 0 = Some kProtocolVersion" "rd p 1 = Some (msg_byte t)"
  shows "p = put_outer t @ drop 2 p"
  using assms by (cases p; cases "tl p") (auto simp: put_outer_def put_u8_def rd_def)

lemma decode_setup_sound:
  assumes "decode_setup_data p = accept (m, body)"
  shows "wf_setup m" "p = put_outer MsgSetupData @ setup_body m" "body = setup_body m"
proof -
  define q where "q = drop 2 p"
  have p: "p = put_outer MsgSetupData @ q"
    using assms unfolding q_def
    by (intro rd_outer)
       (auto simp: decode_setup_data_def Option.bind_eq_Some_conv msg_of_byte_eq_iff Let_def
        split: if_splits)
  have "wf_setup m \<and> q = setup_body m \<and> body = q"
    using assms
    by (auto simp: p decode_setup_data_def Let_def wf_setup_def setup_body_def wire_simps wire_inv
        Option.bind_eq_Some_conv pad_def add.commute split: if_splits)
  then show "wf_setup m" "p = put_outer MsgSetupData @ setup_body m" "body = setup_body m"
    using p by auto
qed

interpretation setup_codec: exact_codec encode_setup_data
    "\<lambda>p. map_option (map_option fst) (decode_setup_data p)" wf_setup setup_len
proof (rule exact_codecI)
  show "encode_setup_data m cap =
     (if (unat (sp_num_streams m) \<le> 64 \<and> unat (sp_ext_len m) \<le> 256) \<and> setup_len m \<le> cap
      then Some (put_outer MsgSetupData @ setup_body m) else None)" for m cap
    by (auto simp: encode_setup_data_def serialize_setup_payload_def setup_len_def Let_def)
  show "safe (map_option (map_option fst) (decode_setup_data p))" for p
    using safe_decode_setup_data [of p] by (auto simp: safe_def)
  show "map_option (map_option fst) (decode_setup_data p) = accept m \<longleftrightarrow>
      wf_setup m \<and> p = put_outer MsgSetupData @ setup_body m" for p m
    using decode_setup_hit [of m] decode_setup_sound [of p m] by auto
qed (auto simp: wf_setup_def setup_body_def setup_len_def)

text \<open>For well-formed payloads the comparison of the counted entries is equality.\<close>

lemma setup_eq_iff:
  assumes "wf_setup a" "wf_setup b"
  shows "setup_eq a b \<longleftrightarrow> a = b"
proof
  assume e: "setup_eq a b"
  let ?n = "unat (sp_num_streams a)" and ?k = "unat (sp_ext_len a)"
  have "take ?n (sp_streams a) = take ?n (sp_streams b)"
    "take ?k (sp_ext a) = take ?k (sp_ext b)"
    using assms e by (auto simp: setup_eq_def wf_setup_def list_all_iff intro!: nth_equalityI)
  moreover have "drop ?n (sp_streams a) = drop ?n (sp_streams b)"
    "drop ?k (sp_ext a) = drop ?k (sp_ext b)"
    using assms e by (auto simp: setup_eq_def wf_setup_def)
  ultimately have "sp_streams a = sp_streams b" "sp_ext a = sp_ext b"
    by (metis append_take_drop_id)+
  with e show "a = b" by (simp add: setup_eq_def SetupPayload.equality)
qed (simp add: setup_eq_def list_all_iff)

section \<open>Hash replies and final acknowledgements\<close>

definition setup_hash_bytes :: "MsgType \<Rightarrow> u64 \<Rightarrow> u64 \<Rightarrow> byte list" where
  "setup_hash_bytes type h nonce = put_outer type @ put_u64 h @ put_u64 nonce"

definition encode_setup_hash :: "MsgType \<Rightarrow> u64 \<Rightarrow> u64 \<Rightarrow> nat \<Rightarrow> byte list option" where
  "encode_setup_hash type h nonce cap =
     (if type \<noteq> MsgSetupHashReply \<and> type \<noteq> MsgSetupFinAck then None
      else let total = kOuterHeaderSize + 8 + 8 in
        if cap < total then None else Some (setup_hash_bytes type h nonce))"

definition decode_setup_hash :: "MsgType \<Rightarrow> byte list \<Rightarrow> (u64 \<times> u64) decoded" where
  "decode_setup_hash expected p =
     (if length p \<noteq> kOuterHeaderSize + 8 + 8 then refuse
      else do {
        a \<leftarrow> rd p 0;
        b \<leftarrow> rd p 1;
        if a \<noteq> kProtocolVersion \<or> msg_of_byte b \<noteq> expected then refuse
        else do {
          h \<leftarrow> get_u64 p kOuterHeaderSize;
          nonce \<leftarrow> get_u64 p (kOuterHeaderSize + 8);
          accept (h, nonce) } })"

lemma length_setup_hash_bytes [simp]: "length (setup_hash_bytes t h n) = 18"
  by (simp add: setup_hash_bytes_def)

lemma rd_put_outer [simp]:
  "rd (put_outer t @ q) 0 = Some kProtocolVersion" "rd (put_outer t @ q) (Suc 0) = Some (msg_byte t)"
  by (simp_all add: put_outer_def put_u8_def rd_def)

lemma decode_setup_hash_iff:
  assumes "known_msg t"
  shows "decode_setup_hash t p = accept (h, n) \<longleftrightarrow> p = setup_hash_bytes t h n"
proof
  assume d: "decode_setup_hash t p = accept (h, n)"
  define q where "q = drop 2 p"
  have p: "p = put_outer t @ q"
    using d assms unfolding q_def
    by (intro rd_outer)
       (auto simp: decode_setup_hash_def Option.bind_eq_Some_conv msg_of_byte_eq_iff split: if_splits)
  show "p = setup_hash_bytes t h n"
    using d
    by (auto simp: p decode_setup_hash_def setup_hash_bytes_def control_simps split: if_splits)
next
  assume "p = setup_hash_bytes t h n"
  then show "decode_setup_hash t p = accept (h, n)"
    using assms by (simp add: decode_setup_hash_def setup_hash_bytes_def wire_simps)
qed

lemma safe_decode_setup_hash [simp]: "safe (decode_setup_hash t p)"
  by (auto simp: decode_setup_hash_def intro!: safe_bind)

lemma setup_hash_inj [simp]:
  "setup_hash_bytes t h n = setup_hash_bytes t h' n' \<longleftrightarrow> h = h' \<and> n = n'"
  by (simp add: setup_hash_bytes_def)

section \<open>The initiator\<close>

definition kMaxSetupDatagramSize :: nat where
  [simp]: "kMaxSetupDatagramSize =
     kOuterHeaderSize + 1 + 2 + 2 + kMaxStreams * 9 + 2 + kMaxExtensionBytes"

record SetupInitiator =
  si_payload :: SetupPayload
  si_my_hash :: u64
  si_responder_nonce :: u64
  si_timeout_ns :: u64
  si_max_retries :: u8
  si_last_send_ns :: u64
  si_retries :: u8
  si_data_sent :: bool
  si_matched :: bool
  si_failed :: bool

definition new_initiator :: "SetupPayload \<Rightarrow> u64 \<Rightarrow> u8 \<Rightarrow> SetupInitiator" where
  "new_initiator p timeout max_retries =
     \<lparr>si_payload = p,
      si_my_hash = hash64 (case serialize_setup_payload p kMaxSetupDatagramSize of
                             None \<Rightarrow> [] | Some body \<Rightarrow> body),
      si_responder_nonce = 0, si_timeout_ns = timeout, si_max_retries = max_retries,
      si_last_send_ns = 0, si_retries = 0, si_data_sent = False, si_matched = False,
      si_failed = False\<rparr>"

definition initiator_start ::
  "SetupInitiator \<Rightarrow> nat \<Rightarrow> u64 \<Rightarrow> SetupInitiator \<times> byte list option" where
  "initiator_start s cap now =
     (case encode_setup_data (si_payload s) cap of
        None \<Rightarrow> (s\<lparr>si_failed := True\<rparr>, None)
      | Some dg \<Rightarrow> (s\<lparr>si_data_sent := True, si_last_send_ns := now\<rparr>, Some dg))"

text \<open>
  A handler that calls decoders has their memory-safety option around its result.
\<close>

definition initiator_on_datagram ::
  "SetupInitiator \<Rightarrow> byte list \<Rightarrow> nat \<Rightarrow> u64 \<Rightarrow> (SetupInitiator \<times> byte list option) option" where
  "initiator_on_datagram s p cap now =
     do {
       type \<leftarrow> peek_msg_type p;
       if type \<noteq> Some MsgSetupHashReply then Some (s, None)
       else do {
         r \<leftarrow> decode_setup_hash MsgSetupHashReply p;
         case r of
           None \<Rightarrow> Some (s, None)
         | Some (their_hash, their_nonce) \<Rightarrow>
             if their_hash \<noteq> si_my_hash s then Some (s, None)
             else Some (s\<lparr>si_matched := True, si_responder_nonce := their_nonce,
                          si_last_send_ns := now\<rparr>,
                        encode_setup_hash MsgSetupFinAck (si_my_hash s) their_nonce cap) } }"

definition initiator_on_timeout ::
  "SetupInitiator \<Rightarrow> nat \<Rightarrow> u64 \<Rightarrow> SetupInitiator \<times> byte list option" where
  "initiator_on_timeout s cap now =
     (if si_matched s \<or> si_failed s \<or> \<not> si_data_sent s then (s, None)
      else if now - si_last_send_ns s < si_timeout_ns s then (s, None)
      else if si_retries s \<ge> si_max_retries s then (s\<lparr>si_failed := True\<rparr>, None)
      else (s\<lparr>si_retries := si_retries s + 1, si_last_send_ns := now\<rparr>,
            encode_setup_data (si_payload s) cap))"

section \<open>The responder\<close>

record SetupResponder =
  sr_config :: SetupPayload
  sr_my_hash :: u64
  sr_nonce :: u64
  sr_timeout_ns :: u64
  sr_max_retries :: u8
  sr_last_send_ns :: u64
  sr_retries :: u8
  sr_has_config :: bool
  sr_reply_sent :: bool
  sr_complete :: bool
  sr_failed :: bool

definition new_responder :: "u64 \<Rightarrow> u8 \<Rightarrow> SetupResponder" where
  "new_responder timeout max_retries =
     \<lparr>sr_config = empty_setup, sr_my_hash = 0, sr_nonce = 0, sr_timeout_ns = timeout,
      sr_max_retries = max_retries, sr_last_send_ns = 0, sr_retries = 0, sr_has_config = False,
      sr_reply_sent = False, sr_complete = False, sr_failed = False\<rparr>"

definition responder_on_data ::
  "u64 \<Rightarrow> SetupResponder \<Rightarrow> byte list \<Rightarrow> nat \<Rightarrow> u64
     \<Rightarrow> (SetupResponder \<times> byte list option) option" where
  "responder_on_data rnd s p cap now =
     (if sr_complete s then Some (s, None)
      else do {
        r \<leftarrow> decode_setup_data p;
        case r of
          None \<Rightarrow> Some (s, None)
        | Some (decoded, body) \<Rightarrow>
            if \<not> setup_payload_valid decoded then Some (s, None)
            else
              let h = hash64 body;
                  nonce = (if \<not> sr_reply_sent s \<or> h \<noteq> sr_my_hash s then rnd else sr_nonce s)
              in Some (s\<lparr>sr_nonce := nonce, sr_config := decoded, sr_has_config := True,
                          sr_my_hash := h, sr_reply_sent := True, sr_last_send_ns := now\<rparr>,
                       encode_setup_hash MsgSetupHashReply h nonce cap) })"

definition responder_on_finack ::
  "SetupResponder \<Rightarrow> byte list \<Rightarrow> (SetupResponder \<times> byte list option) option" where
  "responder_on_finack s p =
     do {
       r \<leftarrow> decode_setup_hash MsgSetupFinAck p;
       case r of
         None \<Rightarrow> Some (s, None)
       | Some (their_hash, their_nonce) \<Rightarrow>
           Some (if sr_reply_sent s \<and> their_hash = sr_my_hash s \<and> their_nonce = sr_nonce s
                 then s\<lparr>sr_complete := True\<rparr> else s, None) }"

definition responder_on_datagram ::
  "u64 \<Rightarrow> SetupResponder \<Rightarrow> byte list \<Rightarrow> nat \<Rightarrow> u64
     \<Rightarrow> (SetupResponder \<times> byte list option) option" where
  "responder_on_datagram rnd s p cap now =
     do {
       type \<leftarrow> peek_msg_type p;
       case type of
         Some MsgSetupData \<Rightarrow> responder_on_data rnd s p cap now
       | Some MsgSetupFinAck \<Rightarrow> responder_on_finack s p
       | _ \<Rightarrow> Some (s, None) }"

definition responder_on_timeout ::
  "SetupResponder \<Rightarrow> nat \<Rightarrow> u64 \<Rightarrow> SetupResponder \<times> byte list option" where
  "responder_on_timeout s cap now =
     (if sr_complete s \<or> sr_failed s \<or> \<not> sr_reply_sent s then (s, None)
      else if now - sr_last_send_ns s < sr_timeout_ns s then (s, None)
      else if sr_retries s \<ge> sr_max_retries s then (s\<lparr>sr_failed := True\<rparr>, None)
      else (s\<lparr>sr_retries := sr_retries s + 1, sr_last_send_ns := now\<rparr>,
            encode_setup_hash MsgSetupHashReply (sr_my_hash s) (sr_nonce s) cap))"

end
