(* ===== verification/Handshake.thy ===== *)
theory Handshake
  imports Setup
begin

text \<open>
  The two SETUP state machines of \<^verbatim>\<open>src/proto/setup.cpp\<close> joined by a network. A world holds the
  initiator, the responder and the set of datagrams the network may deliver. Delivery leaves
  the datagram in the set (it may be delivered again, later, to either side) and nothing
  forces a delivery, so the network loses, repeats and reorders. The set starts as \<open>old\<close>, an
  arbitrary set of datagrams recorded from earlier sessions or made up by anyone.

  The responder's nonce comes from \<^verbatim>\<open>secure_random_u64\<close>. What the handshake relies on is
  that a fresh draw is not the nonce of a FINACK recorded before, which is the guard
  \<open>fresh_nonce\<close> of the delivery step to the responder.
\<close>

record setup_world =
  w_init :: SetupInitiator
  w_resp :: SetupResponder
  w_net :: "byte list set"

definition fresh_nonce :: "byte list set \<Rightarrow> u64 \<Rightarrow> bool" where
  "fresh_nonce old n \<longleftrightarrow> (\<forall>h. setup_hash_bytes MsgSetupFinAck h n \<notin> old)"

inductive setup_step :: "byte list set \<Rightarrow> setup_world \<Rightarrow> setup_world \<Rightarrow> bool"
  for old :: "byte list set" where
  start: "initiator_start (w_init w) cap now = (i, out) \<Longrightarrow>
      setup_step old w (w\<lparr>w_init := i, w_net := w_net w \<union> set_option out\<rparr>)"
| to_initiator: "p \<in> w_net w \<Longrightarrow> initiator_on_datagram (w_init w) p cap now = Some (i, out) \<Longrightarrow>
      setup_step old w (w\<lparr>w_init := i, w_net := w_net w \<union> set_option out\<rparr>)"
| to_responder: "p \<in> w_net w \<Longrightarrow> fresh_nonce old rnd \<Longrightarrow>
      responder_on_datagram rnd (w_resp w) p cap now = Some (r, out) \<Longrightarrow>
      setup_step old w (w\<lparr>w_resp := r, w_net := w_net w \<union> set_option out\<rparr>)"
| initiator_timer: "initiator_on_timeout (w_init w) cap now = (i, out) \<Longrightarrow>
      setup_step old w (w\<lparr>w_init := i, w_net := w_net w \<union> set_option out\<rparr>)"
| responder_timer: "responder_on_timeout (w_resp w) cap now = (r, out) \<Longrightarrow>
      setup_step old w (w\<lparr>w_resp := r, w_net := w_net w \<union> set_option out\<rparr>)"

definition setup_initial :: "byte list set \<Rightarrow> SetupPayload \<Rightarrow> u64 \<Rightarrow> u8 \<Rightarrow> setup_world" where
  "setup_initial old p timeout retries =
     \<lparr>w_init = new_initiator p timeout retries, w_resp = new_responder timeout retries,
      w_net = old\<rparr>"

abbreviation setup_reachable ::
  "byte list set \<Rightarrow> SetupPayload \<Rightarrow> u64 \<Rightarrow> u8 \<Rightarrow> setup_world \<Rightarrow> bool" where
  "setup_reachable old p timeout retries w \<equiv>
     (setup_step old)\<^sup>*\<^sup>* (setup_initial old p timeout retries) w"

inductive_cases setup_stepE: "setup_step old w w'"

section \<open>What each handler can do\<close>

lemma initiator_start_cases:
  assumes "initiator_start s cap now = (i, out)"
  shows "si_payload i = si_payload s" "si_my_hash i = si_my_hash s" "si_matched i = si_matched s"
    and "set_option out \<subseteq> {put_outer MsgSetupData @ setup_body (si_payload s)}"
  using assms
  by (auto simp: initiator_start_def encode_setup_data_def serialize_setup_payload_def Let_def
      split: option.splits if_splits)

lemma initiator_timeout_cases:
  assumes "initiator_on_timeout s cap now = (i, out)"
  shows "si_payload i = si_payload s" "si_my_hash i = si_my_hash s" "si_matched i = si_matched s"
    and "set_option out \<subseteq> {put_outer MsgSetupData @ setup_body (si_payload s)}"
  using assms
  by (auto simp: initiator_on_timeout_def encode_setup_data_def serialize_setup_payload_def Let_def
      split: option.splits if_splits)

lemma initiator_datagram_cases:
  assumes "initiator_on_datagram s p cap now = Some (i, out)"
  shows "si_payload i = si_payload s" "si_my_hash i = si_my_hash s" "si_matched s \<longrightarrow> si_matched i"
    and "set_option out \<subseteq> {setup_hash_bytes MsgSetupFinAck (si_my_hash s) n | n. si_matched i}"
proof -
  obtain d where "decode_setup_hash MsgSetupHashReply p = Some d"
    using safe_decode_setup_hash by (auto simp: safe_def)
  then show "si_payload i = si_payload s" "si_my_hash i = si_my_hash s"
    "si_matched s \<longrightarrow> si_matched i"
    "set_option out \<subseteq> {setup_hash_bytes MsgSetupFinAck (si_my_hash s) n | n. si_matched i}"
    using assms
    by (cases d; auto simp: initiator_on_datagram_def encode_setup_hash_def
        Option.bind_eq_Some_conv Let_def split: if_splits)+
qed

lemma responder_timeout_cases:
  assumes "responder_on_timeout s cap now = (r, out)"
  shows "sr_config r = sr_config s" "sr_my_hash r = sr_my_hash s" "sr_nonce r = sr_nonce s"
    "sr_reply_sent r = sr_reply_sent s" "sr_complete r = sr_complete s"
    and "set_option out \<subseteq> range (\<lambda>n. setup_hash_bytes MsgSetupHashReply (sr_my_hash s) n)"
  using assms
  by (auto simp: responder_on_timeout_def encode_setup_hash_def Let_def split: if_splits)

text \<open>
  The responder takes one of three steps: it ignores the datagram, it takes over the
  configuration of a SETUP datagram, or it completes on a FINACK that carries its own hash
  and nonce.
\<close>

lemma responder_data_cases:
  assumes d: "responder_on_data rnd s p cap now = Some (r, out)"
  obtains (ignore) "r = s" "out = None"
  | (config) q where "p = put_outer MsgSetupData @ setup_body q" "wf_setup q"
      "setup_payload_valid q" "\<not> sr_complete s" "\<not> sr_complete r"
      "sr_config r = q" "sr_my_hash r = hash64 (setup_body q)" "sr_reply_sent r"
      "sr_nonce r = rnd \<or> sr_reply_sent s \<and> sr_nonce r = sr_nonce s"
      "set_option out \<subseteq> {setup_hash_bytes MsgSetupHashReply (sr_my_hash r) (sr_nonce r)}"
proof -
  obtain v where v: "decode_setup_data p = Some v"
    using safe_decode_setup_data by (auto simp: safe_def)
  show thesis
  proof (cases "\<not> sr_complete s \<and> (\<exists>q body. v = Some (q, body) \<and> setup_payload_valid q)")
    case True
    then obtain q body where q: "decode_setup_data p = accept (q, body)" "setup_payload_valid q"
      using v by blast
    from d True q decode_setup_sound [OF q(1)] show thesis
      by (intro config [of q])
         (auto simp: responder_on_data_def Let_def encode_setup_hash_def split: if_splits)
  next
    case False
    then have "r = s \<and> out = None"
      using d v by (auto simp: responder_on_data_def split: option.splits if_splits)
    then show thesis using ignore by blast
  qed
qed

lemma responder_finack_cases:
  assumes d: "responder_on_finack s p = Some (r, out)"
  obtains (ignore) "r = s" "out = None"
  | (finack) "p = setup_hash_bytes MsgSetupFinAck (sr_my_hash s) (sr_nonce s)" "sr_reply_sent s"
      "r = s\<lparr>sr_complete := True\<rparr>" "out = None"
proof -
  obtain v where v: "decode_setup_hash MsgSetupFinAck p = Some v"
    using safe_decode_setup_hash by (auto simp: safe_def)
  show thesis
  proof (cases "v = Some (sr_my_hash s, sr_nonce s) \<and> sr_reply_sent s")
    case True
    with v have "decode_setup_hash MsgSetupFinAck p = accept (sr_my_hash s, sr_nonce s)" by simp
    with True v d show thesis
      by (intro finack) (auto simp: responder_on_finack_def decode_setup_hash_iff)
  next
    case False
    with v d have "r = s \<and> out = None"
      by (cases v) (auto simp: responder_on_finack_def split: if_splits)
    then show thesis using ignore by blast
  qed
qed

lemma responder_datagram_cases:
  assumes "responder_on_datagram rnd s p cap now = Some (r, out)"
  obtains (ignore) "r = s" "out = None"
  | (config) q where "p = put_outer MsgSetupData @ setup_body q" "wf_setup q"
      "setup_payload_valid q" "\<not> sr_complete s" "\<not> sr_complete r"
      "sr_config r = q" "sr_my_hash r = hash64 (setup_body q)" "sr_reply_sent r"
      "sr_nonce r = rnd \<or> sr_reply_sent s \<and> sr_nonce r = sr_nonce s"
      "set_option out \<subseteq> {setup_hash_bytes MsgSetupHashReply (sr_my_hash r) (sr_nonce r)}"
  | (finack) "p = setup_hash_bytes MsgSetupFinAck (sr_my_hash s) (sr_nonce s)" "sr_reply_sent s"
      "r = s\<lparr>sr_complete := True\<rparr>" "out = None"
proof -
  obtain t where t: "peek_msg_type p = Some t"
    using safe_version(1) by (auto simp: safe_def)
  then consider (d) "responder_on_data rnd s p cap now = Some (r, out)"
    | (f) "responder_on_finack s p = Some (r, out)" | (i) "r = s" "out = None"
    using assms by (cases t; cases "the t") (simp_all add: responder_on_datagram_def)
  then show thesis
  proof cases
    case d
    then show thesis by (rule responder_data_cases) (erule ignore config; assumption)+
  next
    case f
    then show thesis by (rule responder_finack_cases) (erule ignore finack; assumption)+
  qed (rule ignore)
qed

section \<open>Agreement\<close>

definition setup_inv :: "byte list set \<Rightarrow> SetupPayload \<Rightarrow> setup_world \<Rightarrow> bool" where
  "setup_inv old p w \<longleftrightarrow>
     si_payload (w_init w) = p \<and> si_my_hash (w_init w) = hash64 (setup_body p) \<and>
     (\<forall>q. put_outer MsgSetupData @ setup_body q \<in> w_net w \<longrightarrow>
        put_outer MsgSetupData @ setup_body q \<in> old \<or> setup_body q = setup_body p) \<and>
     (\<forall>h n. setup_hash_bytes MsgSetupFinAck h n \<in> w_net w \<longrightarrow>
        setup_hash_bytes MsgSetupFinAck h n \<in> old \<or>
        h = hash64 (setup_body p) \<and> si_matched (w_init w)) \<and>
     (sr_reply_sent (w_resp w) \<longrightarrow>
        fresh_nonce old (sr_nonce (w_resp w)) \<and> wf_setup (sr_config (w_resp w)) \<and>
        setup_payload_valid (sr_config (w_resp w)) \<and>
        sr_my_hash (w_resp w) = hash64 (setup_body (sr_config (w_resp w))) \<and>
        (put_outer MsgSetupData @ setup_body (sr_config (w_resp w)) \<in> old \<or>
         setup_body (sr_config (w_resp w)) = setup_body p)) \<and>
     (sr_complete (w_resp w) \<longrightarrow>
        sr_reply_sent (w_resp w) \<and> si_matched (w_init w) \<and>
        sr_my_hash (w_resp w) = hash64 (setup_body p))"

lemma put_outer_inj [simp]: "known_msg t \<Longrightarrow> known_msg t' \<Longrightarrow> put_outer t = put_outer t' \<longleftrightarrow> t = t'"
  by (auto simp: put_outer_def put_u8_def) (metis msg_of_byte_byte)

lemma setup_messages_differ [simp]:
  "put_outer MsgSetupData @ b \<noteq> setup_hash_bytes MsgSetupFinAck h n"
  "put_outer MsgSetupData @ b \<noteq> setup_hash_bytes MsgSetupHashReply h n"
  "setup_hash_bytes MsgSetupFinAck h n \<noteq> setup_hash_bytes MsgSetupHashReply h' n'"
  by (simp_all add: setup_hash_bytes_def)

lemmas setup_messages_differ' [simp] = setup_messages_differ [symmetric]

lemma setup_inv_initial:
  "wf_setup p \<Longrightarrow> setup_inv old p (setup_initial old p timeout retries)"
  by (simp add: setup_inv_def setup_initial_def new_initiator_def new_responder_def
      serialize_setup_payload_def wf_setup_def)

lemma setup_inv_emit_data:
  assumes "setup_inv old p w" "si_payload i = si_payload (w_init w)"
    "si_my_hash i = si_my_hash (w_init w)" "si_matched i = si_matched (w_init w)"
    "set_option out \<subseteq> {put_outer MsgSetupData @ setup_body (si_payload (w_init w))}"
  shows "setup_inv old p (w\<lparr>w_init := i, w_net := w_net w \<union> set_option out\<rparr>)"
  using assms unfolding setup_inv_def by (auto simp: subset_singleton_iff)

lemma setup_inv_emit_reply:
  assumes "setup_inv old p w" "sr_config r = sr_config (w_resp w)"
    "sr_my_hash r = sr_my_hash (w_resp w)" "sr_nonce r = sr_nonce (w_resp w)"
    "sr_reply_sent r = sr_reply_sent (w_resp w)" "sr_complete r = sr_complete (w_resp w)"
    "set_option out \<subseteq> range (\<lambda>n. setup_hash_bytes MsgSetupHashReply (sr_my_hash (w_resp w)) n)"
  shows "setup_inv old p (w\<lparr>w_resp := r, w_net := w_net w \<union> set_option out\<rparr>)"
  using assms unfolding setup_inv_def by auto

lemma setup_inv_emit_finack:
  assumes "setup_inv old p w" "initiator_on_datagram (w_init w) dg cap now = Some (i, out)"
  shows "setup_inv old p (w\<lparr>w_init := i, w_net := w_net w \<union> set_option out\<rparr>)"
  using assms(1) initiator_datagram_cases [OF assms(2)]
  unfolding setup_inv_def by auto

lemma setup_inv_responder:
  assumes inv: "setup_inv old p w" and dg: "dg \<in> w_net w" and fresh: "fresh_nonce old rnd"
    and step: "responder_on_datagram rnd (w_resp w) dg cap now = Some (r, out)"
  shows "setup_inv old p (w\<lparr>w_resp := r, w_net := w_net w \<union> set_option out\<rparr>)"
  using step
proof (cases rule: responder_datagram_cases)
  case ignore
  with inv show ?thesis by (auto simp: setup_inv_def)
next
  case (config q)
  with inv dg fresh show ?thesis
    unfolding setup_inv_def by (auto simp: subset_singleton_iff)
next
  case finack
  with inv dg show ?thesis
    unfolding setup_inv_def by (auto simp: fresh_nonce_def)
qed

lemma setup_inv_step: "setup_inv old p w \<Longrightarrow> setup_step old w w' \<Longrightarrow> setup_inv old p w'"
  by (erule setup_stepE)
     (auto intro: setup_inv_emit_data setup_inv_emit_reply setup_inv_emit_finack
       setup_inv_responder dest: initiator_start_cases initiator_timeout_cases
       responder_timeout_cases)

lemma setup_inv_reachable:
  assumes "wf_setup p" "setup_reachable old p timeout retries w"
  shows "setup_inv old p w"
  using assms(2) by induction (auto intro: setup_inv_initial setup_inv_step assms(1))

lemma setup_body_inj:
  assumes "wf_setup p" "wf_setup q" "setup_body p = setup_body q"
  shows "p = q"
proof -
  have "accept (p, setup_body q) = accept (q, setup_body q)"
    using decode_setup_hit [OF assms(1)] decode_setup_hit [OF assms(2)] by (simp only: assms(3))
  then show ?thesis by simp
qed

text \<open>
  Whatever is injected, a responder that completes has been confirmed by the initiator, and
  runs a valid configuration with the hash of the one offered; it is the one offered unless
  a different configuration with the same hash was injected.
\<close>

lemma setup_agrees:
  assumes "wf_setup p" "setup_reachable old p timeout retries w" "sr_complete (w_resp w)"
  shows "si_matched (w_init w)" "wf_setup (sr_config (w_resp w))"
    "setup_payload_valid (sr_config (w_resp w))"
    "hash64 (setup_body (sr_config (w_resp w))) = hash64 (setup_body p)"
    "sr_config (w_resp w) = p \<or>
     put_outer MsgSetupData @ setup_body (sr_config (w_resp w)) \<in> old"
  using setup_inv_reachable [OF assms(1,2)] assms(1,3) setup_body_inj
  by (auto simp: setup_inv_def)

section \<open>Progress\<close>

text \<open>
  One loss-free exchange completes the handshake from any state of the two machines in which
  the responder is not complete: lost, repeated or corrupted datagrams before it do no harm.
\<close>

lemma responder_accepts_data:
  assumes "wf_setup p" "setup_payload_valid p" "\<not> sr_complete r" "18 \<le> cap"
  shows "\<exists>r' n. responder_on_datagram rnd r (put_outer MsgSetupData @ setup_body p) cap now =
           Some (r', Some (setup_hash_bytes MsgSetupHashReply (hash64 (setup_body p)) n)) \<and>
         sr_my_hash r' = hash64 (setup_body p) \<and> sr_nonce r' = n \<and> sr_reply_sent r' \<and>
         sr_config r' = p \<and> \<not> sr_complete r'"
  using assms
  by (simp add: responder_on_datagram_def responder_on_data_def decode_setup_hit
      encode_setup_hash_def Let_def)

lemma peek_setup_hash [simp]:
  "known_msg t \<Longrightarrow> peek_msg_type (setup_hash_bytes t h n) = accept t"
  by (simp add: setup_hash_bytes_def)

lemma decode_setup_hash_hit [simp]:
  "known_msg t \<Longrightarrow> decode_setup_hash t (setup_hash_bytes t h n) = accept (h, n)"
  by (simp add: decode_setup_hash_iff)

lemma exchange_completes:
  assumes "wf_setup p" "setup_payload_valid p" "\<not> sr_complete r" "18 \<le> cap"
    "si_my_hash i = hash64 (setup_body p)"
  shows "\<exists>r1 reply i1 fin r2.
     responder_on_datagram rnd r (put_outer MsgSetupData @ setup_body p) cap t1 = Some (r1, Some reply) \<and>
     initiator_on_datagram i reply cap t2 = Some (i1, Some fin) \<and>
     responder_on_datagram rnd' r1 fin cap t3 = Some (r2, None) \<and>
     si_matched i1 \<and> sr_complete r2 \<and> sr_config r2 = p"
proof -
  obtain r1 n where r1: "responder_on_datagram rnd r (put_outer MsgSetupData @ setup_body p) cap t1 =
           Some (r1, Some (setup_hash_bytes MsgSetupHashReply (hash64 (setup_body p)) n))"
    "sr_my_hash r1 = hash64 (setup_body p)" "sr_nonce r1 = n" "sr_reply_sent r1" "sr_config r1 = p"
    using responder_accepts_data [OF assms(1-4)] by blast
  have "initiator_on_datagram i (setup_hash_bytes MsgSetupHashReply (hash64 (setup_body p)) n) cap t2 =
      Some (i\<lparr>si_matched := True, si_responder_nonce := n, si_last_send_ns := t2\<rparr>,
            Some (setup_hash_bytes MsgSetupFinAck (hash64 (setup_body p)) n))"
    using assms by (simp add: initiator_on_datagram_def encode_setup_hash_def)
  moreover have "responder_on_datagram rnd' r1
      (setup_hash_bytes MsgSetupFinAck (hash64 (setup_body p)) n) cap t3 =
      Some (r1\<lparr>sr_complete := True\<rparr>, None)"
    using r1 by (simp add: responder_on_datagram_def responder_on_finack_def)
  ultimately show ?thesis using r1 by fastforce
qed

section \<open>The retry budget\<close>

text \<open>The timer calls of an initiator that hears nothing, with the datagrams they emit.\<close>

fun initiator_ticks :: "SetupInitiator \<Rightarrow> nat \<Rightarrow> u64 list \<Rightarrow> SetupInitiator \<times> byte list list" where
  "initiator_ticks s cap [] = (s, [])"
| "initiator_ticks s cap (t # ts) =
     (let (s', out) = initiator_on_timeout s cap t; (s'', outs) = initiator_ticks s' cap ts
      in (s'', (case out of None \<Rightarrow> outs | Some dg \<Rightarrow> dg # outs)))"

lemma unat_suc_retries: "(r :: u8) < m \<Longrightarrow> unat (r + 1) = unat r + 1"
  using unsigned_less [of m, where 'a = nat]
  by (simp add: word_less_nat_alt unat_word_ariths)

lemma initiator_timeout_retries:
  assumes "initiator_on_timeout s cap now = (s', out)" "si_retries s \<le> si_max_retries s"
  shows "si_max_retries s' = si_max_retries s" "si_retries s' \<le> si_max_retries s'"
    "(if out = None then 0 else 1) + unat (si_retries s) \<le> unat (si_retries s')"
proof -
  have "si_retries s < si_max_retries s \<Longrightarrow> si_retries s + 1 \<le> si_max_retries s"
    by (simp add: word_le_nat_alt word_less_nat_alt unat_suc_retries)
  then show "si_max_retries s' = si_max_retries s" "si_retries s' \<le> si_max_retries s'"
    "(if out = None then 0 else 1) + unat (si_retries s) \<le> unat (si_retries s')"
    using assms unat_suc_retries [of "si_retries s" "si_max_retries s"]
    by (auto simp: initiator_on_timeout_def not_le split: if_splits)
qed

lemma ticks_budget:
  "si_retries s \<le> si_max_retries s \<Longrightarrow>
     length (snd (initiator_ticks s cap ts)) + unat (si_retries s) \<le> unat (si_max_retries s)"
proof (induction ts arbitrary: s)
  case Nil
  then show ?case by (simp add: word_le_nat_alt)
next
  case (Cons t ts)
  obtain s' out where s': "initiator_on_timeout s cap t = (s', out)" by (cases "initiator_on_timeout s cap t")
  note r = initiator_timeout_retries [OF s' Cons.prems]
  with Cons.IH [OF r(2)] show ?case
    by (auto simp: s' case_prod_beta split: option.splits)
qed

lemma ticks_failed: "si_failed s \<Longrightarrow> si_failed (fst (initiator_ticks s cap ts))"
  by (induction ts arbitrary: s) (simp_all add: initiator_on_timeout_def case_prod_beta)

lemma ticks_give_up:
  assumes "si_data_sent s" "\<not> si_matched s" "si_timeout_ns s \<le> d" "si_retries s \<le> si_max_retries s"
    "unat (si_max_retries s) - unat (si_retries s) < n"
  shows "si_failed (fst (initiator_ticks s cap
           (map (\<lambda>k. si_last_send_ns s + of_nat (Suc k) * d) [0..<n])))"
  using assms
proof (induction n arbitrary: s)
  case 0
  then show ?case by simp
next
  case (Suc n)
  let ?t = "si_last_send_ns s + d"
  let ?s = "s\<lparr>si_retries := si_retries s + 1, si_last_send_ns := ?t\<rparr>"
  have ts: "map (\<lambda>k. si_last_send_ns s + of_nat (Suc k) * d) [0..<Suc n] =
      ?t # map (\<lambda>k. si_last_send_ns ?s + of_nat (Suc k) * d) [0..<n]"
    by (simp add: upt_conv_Cons map_Suc_upt [symmetric] algebra_simps del: upt_Suc)
  show ?case
  proof (cases "si_failed s")
    case True
    then show ?thesis by (rule ticks_failed)
  next
    case nf: False
    show ?thesis
    proof (cases "si_retries s < si_max_retries s")
      case True
      have "si_failed (fst (initiator_ticks ?s cap
          (map (\<lambda>k. si_last_send_ns ?s + of_nat (Suc k) * d) [0..<n])))"
        using Suc.prems True unat_suc_retries [OF True]
        by (intro Suc.IH) (auto simp: word_le_nat_alt word_less_nat_alt)
      with Suc.prems nf True show ?thesis
        unfolding ts by (simp add: initiator_on_timeout_def not_le not_less case_prod_beta)
    next
      case False
      with Suc.prems nf show ?thesis
        unfolding ts
        by (simp add: initiator_on_timeout_def ticks_failed not_less case_prod_beta)
    qed
  qed
qed

section \<open>Properties\<close>

lemma wf_empty_setup: "wf_setup empty_setup" "setup_payload_valid empty_setup"
  by (simp_all add: wf_setup_def empty_setup_def extensions_acceptable_def ext_loop.simps
      setup_payload_valid_def)

lemma start_sends:
  assumes "wf_setup p" "setup_len p \<le> cap"
  shows "\<exists>i. initiator_start (new_initiator p timeout retries) cap now =
      (i, Some (put_outer MsgSetupData @ setup_body p)) \<and> si_my_hash i = hash64 (setup_body p)"
  using assms
  by (auto simp: initiator_start_def new_initiator_def encode_setup_data_def setup_len_def
      serialize_setup_payload_def wf_setup_def Let_def)

lemma complete_reachable:
  assumes "wf_setup p" "setup_payload_valid p" "fresh_nonce old n"
  shows "\<exists>w. setup_reachable old p timeout retries w \<and> sr_complete (w_resp w)"
proof -
  let ?d = "put_outer MsgSetupData @ setup_body p"
  let ?cap = "max 18 (setup_len p)"
  let ?w0 = "setup_initial old p timeout retries"
  obtain i where i: "initiator_start (new_initiator p timeout retries) ?cap 0 = (i, Some ?d)"
    "si_my_hash i = hash64 (setup_body p)"
    using start_sends [OF assms(1), of ?cap timeout retries 0] by auto
  have "\<not> sr_complete (new_responder timeout retries)" by (simp add: new_responder_def)
  then obtain r1 reply i1 fin r2 where ex:
    "responder_on_datagram n (new_responder timeout retries) ?d ?cap 0 = Some (r1, Some reply)"
    "initiator_on_datagram i reply ?cap 0 = Some (i1, Some fin)"
    "responder_on_datagram n r1 fin ?cap 0 = Some (r2, None)" "sr_complete r2"
    using exchange_completes [OF assms(1,2) _ _ i(2), of "new_responder timeout retries" ?cap n 0 0 n 0]
    by auto
  let ?w1 = "?w0\<lparr>w_init := i, w_net := old \<union> {?d}\<rparr>"
  let ?w2 = "?w1\<lparr>w_resp := r1, w_net := old \<union> {?d} \<union> {reply}\<rparr>"
  let ?w3 = "?w2\<lparr>w_init := i1, w_net := old \<union> {?d} \<union> {reply} \<union> {fin}\<rparr>"
  let ?w4 = "?w3\<lparr>w_resp := r2, w_net := old \<union> {?d} \<union> {reply} \<union> {fin}\<rparr>"
  have "setup_step old ?w0 ?w1"
    using setup_step.start [of ?w0 ?cap 0 i "Some ?d"] i(1) by (simp add: setup_initial_def)
  moreover have "setup_step old ?w1 ?w2"
    using setup_step.to_responder [of ?d ?w1 old n ?cap 0 r1 "Some reply"] ex(1) assms(3)
    by (simp add: setup_initial_def)
  moreover have "setup_step old ?w2 ?w3"
    using setup_step.to_initiator [of reply ?w2 ?cap 0 i1 "Some fin" old] ex(2)
    by (simp add: setup_initial_def)
  moreover have "setup_step old ?w3 ?w4"
    using setup_step.to_responder [of fin ?w3 old n ?cap 0 r2 None] ex(3) assms(3)
    by (simp add: setup_initial_def)
  ultimately have "setup_reachable old p timeout retries ?w4"
    by (meson converse_rtranclp_into_rtranclp rtranclp.rtrancl_refl)
  then show ?thesis using ex(4) by (intro exI [of _ ?w4]) simp
qed



text \<open>
  C13: SETUP progress. Whatever happened before, once one DATA, HASH-REPLY and FINACK in a row
  get through, the handshake is complete with the offered configuration, as long as the
  responder has not completed already.
\<close>

theorem handshake_recovers:
  assumes "wf_setup p" "setup_payload_valid p" "\<not> sr_complete r" "18 \<le> cap"
    "si_my_hash i = hash64 (setup_body p)"
  shows "\<exists>r1 reply i1 fin r2.
     responder_on_datagram rnd r (put_outer MsgSetupData @ setup_body p) cap t1 = Some (r1, Some reply) \<and>
     initiator_on_datagram i reply cap t2 = Some (i1, Some fin) \<and>
     responder_on_datagram rnd' r1 fin cap t3 = Some (r2, None) \<and>
     si_matched i1 \<and> sr_complete r2 \<and> sr_config r2 = p"
  using assms by (rule exchange_completes)

theorem handshake_recovers_witness:
  "\<exists>r1 reply i1 fin r2.
     responder_on_datagram 77 (new_responder 50 5) (put_outer MsgSetupData @ setup_body empty_setup) 900 1
       = Some (r1, Some reply) \<and>
     initiator_on_datagram (new_initiator empty_setup 50 5) reply 900 2 = Some (i1, Some fin) \<and>
     responder_on_datagram 78 r1 fin 900 3 = Some (r2, None) \<and>
     si_matched i1 \<and> sr_complete r2 \<and> sr_config r2 = empty_setup"
  by (rule handshake_recovers [OF wf_empty_setup])
     (simp_all add: new_responder_def new_initiator_def serialize_setup_payload_def empty_setup_def)

text \<open>
  C24: an initiator that hears nothing retransmits its configuration at most as often as its
  retry limit allows, and when its timer fires every timeout interval it has given up after
  one more firing than it had retries left.
\<close>

theorem initiator_retry_budget:
  assumes "si_data_sent s" "\<not> si_matched s" "si_timeout_ns s \<le> d"
    "si_retries s \<le> si_max_retries s" "unat (si_max_retries s) - unat (si_retries s) < n"
  shows "length (snd (initiator_ticks s cap ts)) \<le> unat (si_max_retries s) - unat (si_retries s) \<and>
    si_failed (fst (initiator_ticks s cap
      (map (\<lambda>k. si_last_send_ns s + of_nat (Suc k) * d) [0..<n])))"
  using ticks_budget [OF assms(4), of cap ts] ticks_give_up [OF assms, of cap] by simp

theorem initiator_retry_budget_witness:
  "length (snd (initiator_ticks (fst (initiator_start (new_initiator empty_setup 50 5) 900 7)) 900
     [100, 200, 300])) \<le> 5 \<and>
   si_failed (fst (initiator_ticks (fst (initiator_start (new_initiator empty_setup 50 5) 900 7)) 900
     (map (\<lambda>k. 7 + of_nat (Suc k) * 60) [0..<6])))"
proof -
  let ?s = "fst (initiator_start (new_initiator empty_setup 50 5) 900 7)"
  have "si_data_sent ?s" "\<not> si_matched ?s" "si_timeout_ns ?s = 50" "si_retries ?s = 0"
    "si_max_retries ?s = 5" "si_last_send_ns ?s = 7"
    by (simp_all add: initiator_start_def new_initiator_def empty_setup_def encode_setup_data_def
        serialize_setup_payload_def)
  then show ?thesis
    using initiator_retry_budget [of ?s 60 6 900 "[100, 200, 300]"] by simp
qed

end
