(* ===== verification/Bits.thy ===== *)
theory Bits
  imports Fuse_Prelude
begin

text \<open>
  Walking the set bits of a 64-bit word the way the sources do it:
  \<^verbatim>\<open>while (bits != 0) { b = __builtin_ctzll(bits); bits &= bits - 1; ... }\<close>, with an optional
  \<^verbatim>\<open>break\<close>. The loop visits exactly the set bits in increasing order.
\<close>

definition set_bits_of :: "u64 \<Rightarrow> nat list" where
  "set_bits_of w = filter (bit w) [0..<64]"

text \<open>\<^verbatim>\<open>__builtin_ctzll\<close>, the index of the lowest set bit (undefined for 0 in C).\<close>

definition ctz :: "u64 \<Rightarrow> nat" where
  "ctz w = (case set_bits_of w of [] \<Rightarrow> 64 | k # _ \<Rightarrow> k)"

lemma set_set_bits_of [simp]: "set (set_bits_of w) = {k. bit w k}"
  using bit_imp_le_length [of w] by (auto simp: set_bits_of_def)

lemma sorted_set_bits_of: "sorted_wrt (<) (set_bits_of w)"
  unfolding set_bits_of_def by (intro sorted_wrt_filter) simp

lemma set_bits_of_Nil [simp]: "set_bits_of w = [] \<longleftrightarrow> w = 0"
proof
  assume "set_bits_of w = []"
  then have "{k. bit w k} = {}" using set_set_bits_of [of w] by simp
  then show "w = 0" by (intro bit_word_eqI) auto
qed (simp add: set_bits_of_def)

lemma set_bits_of_0 [simp]: "set_bits_of 0 = []"
  by simp

lemma ctz_hd: "w \<noteq> 0 \<Longrightarrow> set_bits_of w = ctz w # tl (set_bits_of w)"
  by (cases "set_bits_of w") (auto simp: ctz_def split: list.splits)

lemma bit_ctz: "w \<noteq> 0 \<Longrightarrow> bit w (ctz w)"
  using ctz_hd [of w] set_set_bits_of [of w] by (metis list.set_intros(1) mem_Collect_eq)

lemma below_ctz: "k < ctz w \<Longrightarrow> \<not> bit w k"
proof (cases "w = 0")
  case False
  assume k: "k < ctz w"
  have "sorted_wrt (<) (ctz w # tl (set_bits_of w))"
    using ctz_hd [OF False] sorted_set_bits_of [of w] by simp
  then have "k \<notin> set (ctz w # tl (set_bits_of w))" using k by auto
  then show ?thesis using ctz_hd [OF False] set_set_bits_of [of w] by auto
qed simp

text \<open>Subtracting one clears the lowest set bit and only sets bits below it.\<close>

lemma bit_nat_minus_one:
  fixes n :: nat
  assumes "bit n b" "\<And>j. j < b \<Longrightarrow> \<not> bit n j" "b \<le> k"
  shows "bit (n - 1) k \<longleftrightarrow> bit n k \<and> k \<noteq> b"
proof -
  have "take_bit b n = 0"
    by (rule bit_eqI) (use assms in \<open>auto simp: bit_take_bit_iff\<close>)
  then have "n = 2 ^ b * (n div 2 ^ b)"
    by (metis add.right_neutral mult_div_mod_eq take_bit_eq_mod)
  moreover have "odd (n div 2 ^ b)" using assms(1) by (simp add: bit_iff_odd)
  ultimately obtain m where n: "n = 2 ^ b * (2 * m + 1)" by (metis oddE)
  have up: "(2 ^ b * (2 * m) + r) div 2 ^ Suc b = m" if "r < 2 ^ Suc b" for r :: nat
    using that by (simp add: mult.assoc [symmetric] mult.commute [of _ 2])
  have low: "(2 ^ b * x + r) div 2 ^ b = x" if "r < 2 ^ b" for x r :: nat
    using that by simp
  have n1: "n - 1 = 2 ^ b * (2 * m) + (2 ^ b - 1)" by (simp add: n algebra_simps)
  show ?thesis
  proof (cases "k = b")
    case True
    have "(n - 1) div 2 ^ b = 2 * m" unfolding n1 by (rule low) simp
    then show ?thesis using True by (simp add: bit_iff_odd)
  next
    case False
    then obtain j where k: "k = Suc b + j" using assms(3) by (metis Suc_leI le_Suc_ex le_neq_implies_less)
    have "(n - 1) div 2 ^ Suc b = m" unfolding n1 by (rule up) (simp add: less_imp_diff_less)
    moreover have "n div 2 ^ Suc b = m"
      using up [of "2 ^ b"] by (simp add: n algebra_simps)
    ultimately show ?thesis
      using False by (simp add: bit_iff_odd k power_add div_mult2_eq)
  qed
qed

lemma bit_clear_lowest:
  assumes "w \<noteq> 0"
  shows "bit (w AND (w - 1)) k \<longleftrightarrow> bit (w :: u64) k \<and> k \<noteq> ctz w"
proof (cases "ctz w \<le> k")
  case True
  have u: "unat (w - 1) = unat w - 1" using assms by (simp add: unat_minus_one)
  have "bit (unat w - 1) k \<longleftrightarrow> bit (unat w) k \<and> k \<noteq> ctz w"
    using True bit_ctz [OF assms] below_ctz [of _ w]
    by (intro bit_nat_minus_one) (auto simp: bit_unsigned_iff)
  moreover have "bit (w - 1) k \<longleftrightarrow> bit (unat w - 1) k" "bit w k \<longleftrightarrow> bit (unat w) k"
    unfolding u [symmetric] by (simp_all add: bit_unsigned_iff)
  ultimately show ?thesis by (auto simp: bit_and_iff)
qed (use below_ctz [of k w] in \<open>auto simp: bit_and_iff\<close>)

lemma clear_lowest_tl: "w \<noteq> 0 \<Longrightarrow> set_bits_of (w AND (w - 1)) = tl (set_bits_of w)"
proof -
  assume w: "w \<noteq> 0"
  have d: "distinct (set_bits_of w)" by (simp add: set_bits_of_def)
  have "set_bits_of (w AND (w - 1)) = filter (\<lambda>k. k \<noteq> ctz w) (set_bits_of w)"
    using ext [of "bit (w AND (w - 1))" "\<lambda>k. bit w k \<and> k \<noteq> ctz w", OF bit_clear_lowest [OF w]]
    by (simp add: set_bits_of_def conj_commute)
  also have "\<dots> = tl (set_bits_of w)"
  proof -
    obtain xs where "set_bits_of w = ctz w # xs" using ctz_hd [OF w] by blast
    with d show ?thesis by (auto simp: filter_id_conv)
  qed
  finally show ?thesis .
qed

lemma clear_lowest_less: "(w :: u64) \<noteq> 0 \<Longrightarrow> unat (w AND (w - 1)) < unat w"
proof -
  assume w: "w \<noteq> 0"
  have "w AND (w - 1) \<le> w - 1" by (simp add: word_and_le1)
  then have "unat (w AND (w - 1)) \<le> unat (w - 1)" by (simp add: word_le_nat_alt)
  moreover have "unat (w - 1) = unat w - 1" "0 < unat w"
    using w by (simp_all add: unat_minus_one unat_gt_0)
  ultimately show ?thesis by linarith
qed

section \<open>The loop\<close>

text \<open>
  \<open>f b s\<close> is the body for bit \<open>b\<close>: the new state, and whether it executed \<^verbatim>\<open>break\<close>.
\<close>

function bits_loop :: "(nat \<Rightarrow> 's \<Rightarrow> 's \<times> bool) \<Rightarrow> u64 \<Rightarrow> 's \<Rightarrow> 's" where
  "bits_loop f bits s =
     (if bits = 0 then s
      else let b = ctz bits; bits' = bits AND (bits - 1); (s', stop) = f b s
        in if stop then s' else bits_loop f bits' s')"
  by pat_completeness auto
termination
  by (relation "measure (\<lambda>(f, bits, s). unat bits)") (auto simp: clear_lowest_less)

declare bits_loop.simps [simp del]

fun run_until :: "('a \<Rightarrow> 's \<Rightarrow> 's \<times> bool) \<Rightarrow> 'a list \<Rightarrow> 's \<Rightarrow> 's" where
  "run_until f [] s = s"
| "run_until f (x # xs) s = (let (s', stop) = f x s in if stop then s' else run_until f xs s')"

lemma bits_loop_eq: "bits_loop f w s = run_until f (set_bits_of w) s"
proof (induction f w s rule: bits_loop.induct)
  case (1 f w s)
  show ?case
  proof (cases "w = 0")
    case False
    obtain s' stop where f: "f (ctz w) s = (s', stop)" by (cases "f (ctz w) s")
    have "stop \<or> bits_loop f (w AND (w - 1)) s' = run_until f (tl (set_bits_of w)) s'"
      using "1.IH" [OF False refl refl f [symmetric] refl] clear_lowest_tl [OF False] by auto
    then show ?thesis
      using False f by (subst bits_loop.simps, subst ctz_hd [OF False]) auto
  next
    case True
    then have "set_bits_of w = []" by simp
    with True show ?thesis by (simp add: bits_loop.simps)
  qed
qed

lemma run_until_no_break: "run_until (\<lambda>x s. (g x s, False)) xs s = fold g xs s"
  by (induction xs arbitrary: s) simp_all

lemma run_until_break:
  "sorted_wrt (\<lambda>x y. P x \<longrightarrow> P y) xs \<Longrightarrow>
     run_until (\<lambda>x s. if P x then (s, True) else (g x s, False)) xs s = fold g (filter (\<lambda>x. \<not> P x) xs) s"
  by (induction xs arbitrary: s) (auto simp: filter_empty_conv)

section \<open>Single bits\<close>

text \<open>The C expression \<^verbatim>\<open>1ull << k\<close> for \<open>k < 64\<close>.\<close>

definition bit64 :: "nat \<Rightarrow> u64" where
  "bit64 k = push_bit k 1"

lemma bit_bit64: "bit (bit64 k) j \<longleftrightarrow> j = k \<and> k < 64"
  by (auto simp: bit64_def bit_simps)

lemma word_neq_0_bit: "(w :: u64) \<noteq> 0 \<longleftrightarrow> (\<exists>k. bit w k)"
  using bit_ctz [of w] by auto

lemma test_bit64: "w AND bit64 k \<noteq> 0 \<longleftrightarrow> k < 64 \<and> bit w k"
  by (auto simp: word_neq_0_bit bit_and_iff bit_bit64)

lemma bit_set64: "bit (w OR bit64 k) j \<longleftrightarrow> bit w j \<or> j = k \<and> k < 64"
  by (auto simp: bit_or_iff bit_bit64)

lemma bit_clear64: "bit (w AND NOT (bit64 k)) j \<longleftrightarrow> bit w j \<and> \<not> (j = k \<and> k < 64)"
  using bit_imp_le_length [of w j] by (auto simp: bit_and_iff bit_not_iff bit_bit64)

lemma bit_low_mask64: "k < 64 \<Longrightarrow> bit (bit64 k - 1) j \<longleftrightarrow> j < k"
proof -
  assume k: "k < 64"
  have "bit64 k - 1 = mask k" by (simp add: bit64_def mask_eq_exp_minus_1)
  then show ?thesis using k by (auto simp: bit_mask_iff)
qed

section \<open>Masks of several words\<close>

definition mask_bit :: "u64 list \<Rightarrow> nat \<Rightarrow> bool" where
  "mask_bit ws d \<longleftrightarrow> d div 64 < length ws \<and> bit (ws ! (d div 64)) (d mod 64)"

lemma upt_words: "[0..<64 * n] = concat (map (\<lambda>w. map (\<lambda>b. 64 * w + b) [0..<64]) [0..<n])"
proof (induction n)
  case (Suc n)
  have "[0..<64 * Suc n] = [0..<64 * n] @ map (\<lambda>b. 64 * n + b) [0..<64]"
    using upt_add_eq_append [of 0 "64 * n" 64] map_add_upt [of "64 * n" 64]
    by (simp add: add.commute)
  with Suc show ?case by simp
qed simp

lemma mask_enum:
  assumes "length ws = n"
  shows "concat (map (\<lambda>w. map (\<lambda>b. 64 * w + b) (set_bits_of (ws ! w))) [0..<n]) =
    filter (mask_bit ws) [0..<64 * n]"
proof -
  have "filter (mask_bit ws) (map (\<lambda>b. 64 * w + b) [0..<64]) =
      map (\<lambda>b. 64 * w + b) (set_bits_of (ws ! w))" if "w < n" for w
    using that assms
    by (auto simp: filter_map set_bits_of_def comp_def mask_bit_def intro!: arg_cong2 [where f = map]
        filter_cong)
  then show ?thesis
    unfolding upt_words filter_concat map_map comp_def
    by (intro arg_cong [where f = concat] map_cong) auto
qed

lemma fold_concat_map: "fold f (concat (map g xs)) s = fold (\<lambda>x. fold f (g x)) xs s"
  by (induction xs arbitrary: s) simp_all

end
