(* ===== verification/Registry.thy ===== *)
theory Registry
  imports Bits Control
begin

text \<open>
  The sender's retransmission registry (\<^verbatim>\<open>include/fuse/proto/registry.hpp\<close>,
  \<^verbatim>\<open>src/proto/registry.cpp\<close>): a ring of slots indexed by the sequence number modulo the window,
  and \<^verbatim>\<open>apply_ack\<close>, which releases the slots an acknowledgement confirms.

  The locale \<open>slot_store\<close> is the contract a ring of keyed slots gives its clients; the registry
  is its instance.
\<close>

section \<open>State and operations\<close>

record RegistrySlot =
  sl_seq_no :: u64
  sl_send_time_ns :: u64
  sl_offset :: u64
  sl_payload_len :: u16
  sl_flags :: u8
  sl_valid :: bool
  sl_payload :: "byte list"

record SenderRegistry =
  rg_stream_id :: u16
  rg_window_size :: u16
  rg_slots :: "RegistrySlot list"

definition empty_slot :: RegistrySlot where
  "empty_slot = \<lparr>sl_seq_no = 0, sl_send_time_ns = 0, sl_offset = 0, sl_payload_len = 0,
     sl_flags = 0, sl_valid = False, sl_payload = replicate kMaxPayloadSize 0\<rparr>"

definition clamp_window :: "u16 \<Rightarrow> u16" where
  "clamp_window w =
     (if w < 1 then 1 else if unat w > kMaxWindow then of_nat kMaxWindow else w)"

definition new_registry :: "u16 \<Rightarrow> u16 \<Rightarrow> SenderRegistry" where
  "new_registry sid window =
     (let w = clamp_window window in
      \<lparr>rg_stream_id = sid, rg_window_size = w, rg_slots = replicate (unat w) empty_slot\<rparr>)"

definition index_of :: "SenderRegistry \<Rightarrow> u64 \<Rightarrow> nat" where
  "index_of reg seq = unat seq mod unat (rg_window_size reg)"

definition store ::
  "SenderRegistry \<Rightarrow> u64 \<Rightarrow> byte list option \<Rightarrow> u16 \<Rightarrow> u64 \<Rightarrow> u64 \<Rightarrow> u8 \<Rightarrow> SenderRegistry \<times> bool" where
  "store reg seq payload len time ofs fl =
     (if unat len > kMaxPayloadSize then (reg, False)
      else
        let i = index_of reg seq;
            slot = rg_slots reg ! i;
            bytes = (case payload of
                       Some p \<Rightarrow> if unat len > 0
                                 then take (unat len) p @ drop (unat len) (sl_payload slot)
                                 else sl_payload slot
                     | None \<Rightarrow> sl_payload slot)
        in (reg\<lparr>rg_slots := (rg_slots reg)[i :=
              \<lparr>sl_seq_no = seq, sl_send_time_ns = time, sl_offset = ofs, sl_payload_len = len,
               sl_flags = fl, sl_valid = True, sl_payload = bytes\<rparr>]\<rparr>, True))"

definition lookup :: "SenderRegistry \<Rightarrow> u64 \<Rightarrow> RegistrySlot option" where
  "lookup reg seq =
     (let slot = rg_slots reg ! index_of reg seq in
      if sl_valid slot \<and> sl_seq_no slot = seq then Some slot else None)"

definition confirm :: "SenderRegistry \<Rightarrow> u64 \<Rightarrow> SenderRegistry" where
  "confirm reg seq =
     (let i = index_of reg seq; slot = rg_slots reg ! i in
      if sl_valid slot \<and> sl_seq_no slot = seq
      then reg\<lparr>rg_slots := (rg_slots reg)[i := slot\<lparr>sl_valid := False\<rparr>]\<rparr>
      else reg)"

definition valid_count :: "SenderRegistry \<Rightarrow> u16" where
  "valid_count reg =
     foldl (\<lambda>n i. if sl_valid (rg_slots reg ! i) then n + 1 else n) 0
       [0..<unat (rg_window_size reg)]"

definition reg_inv :: "SenderRegistry \<Rightarrow> bool" where
  "reg_inv reg \<longleftrightarrow>
     1 \<le> unat (rg_window_size reg) \<and> unat (rg_window_size reg) \<le> kMaxWindow \<and>
     length (rg_slots reg) = unat (rg_window_size reg) \<and>
     list_all (\<lambda>sl. length (sl_payload sl) = kMaxPayloadSize \<and>
                    unat (sl_payload_len sl) \<le> kMaxPayloadSize) (rg_slots reg)"

section \<open>The contract of a ring of keyed slots\<close>

text \<open>
  \<open>look s k\<close> is what the store holds under key \<open>k\<close>; writing a key replaces what its slot
  held; confirming a key frees its slot and touches no other.
\<close>

locale slot_store =
  fixes inv :: "'s \<Rightarrow> bool"
    and okv :: "'v \<Rightarrow> bool"
    and look :: "'s \<Rightarrow> u64 \<Rightarrow> 'v option"
    and put :: "'s \<Rightarrow> u64 \<Rightarrow> 'v \<Rightarrow> 's"
    and free :: "'s \<Rightarrow> u64 \<Rightarrow> 's"
    and idx :: "'s \<Rightarrow> u64 \<Rightarrow> nat"
  assumes inv_put: "inv s \<Longrightarrow> okv v \<Longrightarrow> inv (put s k v)"
    and inv_free: "inv s \<Longrightarrow> inv (free s k)"
    and idx_put: "idx (put s k v) j = idx s j"
    and look_put: "inv s \<Longrightarrow> okv v \<Longrightarrow> look (put s k v) j =
        (if j = k then Some v else if idx s j = idx s k then None else look s j)"
    and look_free: "inv s \<Longrightarrow> look (free s k) j = (if j = k then None else look s j)"
    and free_absent: "look s k = None \<Longrightarrow> free s k = s"
begin

lemma inv_frees: "inv s \<Longrightarrow> inv (fold (\<lambda>k s. free s k) ks s)"
  by (induction ks arbitrary: s) (auto intro: inv_free)

lemma look_frees:
  "inv s \<Longrightarrow> look (fold (\<lambda>k s. free s k) ks s) j = (if j \<in> set ks then None else look s j)"
  by (induction ks arbitrary: s) (auto simp: look_free inv_free)

lemma inv_puts:
  "inv s \<Longrightarrow> \<forall>(k, v) \<in> set kvs. okv v \<Longrightarrow> inv (fold (\<lambda>(k, v) s. put s k v) kvs s)"
  by (induction kvs arbitrary: s) (auto intro: inv_put)

lemma idx_puts: "idx (fold (\<lambda>(k, v) s. put s k v) kvs s) j = idx s j"
  by (induction kvs arbitrary: s) (auto simp: idx_put)

lemma look_puts_other:
  "inv s \<Longrightarrow> \<forall>(k, v) \<in> set kvs. okv v \<Longrightarrow> idx s j \<notin> idx s ` fst ` set kvs \<Longrightarrow>
     look (fold (\<lambda>(k, v) s. put s k v) kvs s) j = look s j"
proof (induction kvs arbitrary: s)
  case (Cons kv kvs)
  obtain k v where kv: "kv = (k, v)" by (cases kv)
  have "idx s j \<noteq> idx s k" "j \<noteq> k" "okv v" using Cons.prems by (auto simp: kv)
  with Cons show ?case by (auto simp: kv inv_put look_put idx_put)
qed simp

text \<open>Keys in different slots do not evict each other.\<close>

lemma look_puts:
  "inv s \<Longrightarrow> \<forall>(k, v) \<in> set kvs. okv v \<Longrightarrow> distinct (map (idx s \<circ> fst) kvs) \<Longrightarrow>
     (k, v) \<in> set kvs \<Longrightarrow> look (fold (\<lambda>(k, v) s. put s k v) kvs s) k = Some v"
proof (induction kvs arbitrary: s)
  case (Cons kv kvs)
  obtain k' v' where kv: "kv = (k', v')" by (cases kv)
  have ok: "okv v'" "inv (put s k' v')" using Cons.prems by (auto simp: kv inv_put)
  show ?case
  proof (cases "(k, v) = kv")
    case True
    have "idx (put s k' v') k' \<notin> idx (put s k' v') ` fst ` set kvs"
      using Cons.prems(3) by (auto simp: kv idx_put image_iff)
    with True Cons.prems ok show ?thesis
      by (auto simp: kv look_puts_other look_put)
  next
    case False
    with Cons.prems ok show ?thesis
      using Cons.IH [OF ok(2)] by (auto simp: kv idx_put comp_def)
  qed
qed simp

end

section \<open>The registry keeps the contract\<close>

type_synonym block_view = "byte list \<times> u16 \<times> u64 \<times> u64 \<times> u8"

definition slot_view :: "RegistrySlot \<Rightarrow> block_view" where
  "slot_view sl = (take (unat (sl_payload_len sl)) (sl_payload sl), sl_payload_len sl,
     sl_send_time_ns sl, sl_offset sl, sl_flags sl)"

definition ok_view :: "block_view \<Rightarrow> bool" where
  "ok_view v = (case v of (bytes, len, _) \<Rightarrow> unat len \<le> kMaxPayloadSize \<and> length bytes = unat len)"

definition store_view :: "SenderRegistry \<Rightarrow> u64 \<Rightarrow> block_view \<Rightarrow> SenderRegistry" where
  "store_view reg seq v =
     (case v of (bytes, len, time, ofs, fl) \<Rightarrow> fst (store reg seq (Some bytes) len time ofs fl))"

definition look_view :: "SenderRegistry \<Rightarrow> u64 \<Rightarrow> block_view option" where
  "look_view reg seq = map_option slot_view (lookup reg seq)"

lemma unat_clamp_window [simp]: "unat (clamp_window w) = max 1 (min (unat w) kMaxWindow)"
proof (cases "w = 0")
  case False
  then have "1 \<le> unat w" by (simp add: unat_gt_0 Suc_le_eq)
  then show ?thesis by (auto simp: clamp_window_def word_less_nat_alt)
qed (simp add: clamp_window_def)

lemma reg_inv_new: "reg_inv (new_registry sid w)"
  by (auto simp: reg_inv_def new_registry_def Let_def empty_slot_def list_all_iff)

lemma index_in_range: "reg_inv reg \<Longrightarrow> index_of reg seq < length (rg_slots reg)"
  by (simp add: reg_inv_def index_of_def)

lemma list_all_update: "list_all P xs \<Longrightarrow> P x \<Longrightarrow> list_all P (xs[i := x])"
  by (auto simp: list_all_iff dest!: set_update_subset_insert [THEN subsetD])

lemma reg_inv_store:
  assumes "reg_inv reg" "\<forall>p. payload = Some p \<longrightarrow> unat len \<le> length p"
  shows "reg_inv (fst (store reg seq payload len time ofs fl))"
proof -
  have "length (sl_payload (rg_slots reg ! index_of reg seq)) = kMaxPayloadSize"
    using assms(1) index_in_range [OF assms(1), of seq]
    by (simp add: reg_inv_def list_all_length)
  then show ?thesis
    using assms
    by (auto simp: store_def reg_inv_def Let_def intro!: list_all_update split: option.splits)
qed

lemma reg_inv_confirm: "reg_inv reg \<Longrightarrow> reg_inv (confirm reg seq)"
  using index_in_range [of reg seq]
  by (auto simp: confirm_def reg_inv_def Let_def list_all_length nth_list_update)

lemma lookup_confirm:
  "reg_inv reg \<Longrightarrow> lookup (confirm reg k) j = (if j = k then None else lookup reg j)"
  using index_in_range [of reg k] index_in_range [of reg j]
  by (auto simp: lookup_def confirm_def index_of_def Let_def nth_list_update)

lemma look_view_store:
  assumes "reg_inv reg" "ok_view v"
  shows "look_view (store_view reg k v) j =
    (if j = k then Some v else if index_of reg j = index_of reg k then None else look_view reg j)"
proof -
  obtain bytes len time ofs fl where v: "v = (bytes, len, time, ofs, fl)" by (cases v)
  have "index_of reg k < length (rg_slots reg)" using assms(1) by (rule index_in_range)
  with assms(2) show ?thesis
    by (auto simp: v look_view_def store_view_def store_def lookup_def slot_view_def ok_view_def
        index_of_def Let_def nth_list_update unat_gt_0 split: if_splits)
qed

interpretation reg_store: slot_store reg_inv ok_view look_view store_view confirm index_of
proof unfold_locales
  fix s :: SenderRegistry and k j :: u64 and v :: block_view
  assume inv: "reg_inv s"
  show "reg_inv (confirm s k)" using inv by (rule reg_inv_confirm)
  show "look_view (confirm s k) j = (if j = k then None else look_view s j)"
    using inv by (simp add: look_view_def lookup_confirm)
  assume v: "ok_view v"
  show "reg_inv (store_view s k v)"
    using inv v by (auto simp: store_view_def ok_view_def intro!: reg_inv_store split: prod.splits)
  show "look_view (store_view s k v) j =
      (if j = k then Some v else if index_of s j = index_of s k then None else look_view s j)"
    using inv v by (rule look_view_store)
next
  fix s :: SenderRegistry and k j :: u64 and v :: block_view
  show "index_of (store_view s k v) j = index_of s j"
    by (cases v) (auto simp: store_view_def store_def index_of_def Let_def)
  show "confirm s k = s" if "look_view s k = None"
    using that by (auto simp: look_view_def lookup_def confirm_def Let_def split: if_splits)
qed

text \<open>
  A sender that keeps its blocks in flight within the window never loses a stored block to a
  later one: consecutive sequence numbers, as many as the window, fall into different slots.
\<close>

lemma mod_window_inj:
  fixes a i j w :: nat
  assumes "(a + i) mod w = (a + j) mod w" "i < w" "j < w"
  shows "i = j"
proof -
  have "i = j" if "i \<le> j" "(a + j) mod w = (a + i) mod w" "j < w" for i j
  proof -
    have "w dvd (a + j) - (a + i)" using that by (subst (asm) mod_eq_dvd_iff_nat) auto
    then show ?thesis using that by (auto dest: dvd_imp_le)
  qed
  then show ?thesis using assms by (metis nat_le_linear)
qed

lemma index_distinct:
  assumes "n \<le> unat (rg_window_size reg)" "unat base + n \<le> 2 ^ 64"
  shows "distinct (map (\<lambda>i. index_of reg (base + of_nat i)) [0..<n])"
proof -
  have "inj_on (\<lambda>i. index_of reg (base + of_nat i)) {0..<n}"
  proof (rule inj_onI)
    fix i j assume i: "i \<in> {0..<n}" and j: "j \<in> {0..<n}"
      and eq: "index_of reg (base + of_nat i) = index_of reg (base + of_nat j)"
    have "unat (base + of_nat i) = unat base + i" "unat (base + of_nat j) = unat base + j"
      using i j assms(2) by (auto intro!: unat_add_lt)
    then have "(unat base + i) mod unat (rg_window_size reg) =
        (unat base + j) mod unat (rg_window_size reg)"
      using eq by (simp only: index_of_def)
    then show "i = j" by (rule mod_window_inj) (use i j assms(1) in auto)
  qed
  then show ?thesis by (simp add: distinct_map)
qed

section \<open>Applying an acknowledgement\<close>

definition ack_take :: "u64 \<Rightarrow> SenderRegistry \<times> u64 \<Rightarrow> SenderRegistry \<times> u64" where
  "ack_take seq st =
     (case lookup (fst st) seq of
        None \<Rightarrow> st
      | Some sl \<Rightarrow> (confirm (fst st) seq, snd st + ucast (sl_payload_len sl)))"

text \<open>The cumulative loop \<^verbatim>\<open>for (s = *base; s < new_base; ++s) take(s)\<close>.\<close>

function ack_range :: "u64 \<Rightarrow> u64 \<Rightarrow> SenderRegistry \<times> u64 \<Rightarrow> SenderRegistry \<times> u64" where
  "ack_range s new_base st =
     (if s < new_base then ack_range (s + 1) new_base (ack_take s st) else st)"
  by pat_completeness auto
termination
  by (relation "measure (\<lambda>(s, new_base, st). unat new_base - unat s)")
     (auto simp: word_less_nat_alt unat_suc_less)

declare ack_range.simps [simp del]

text \<open>
  The body of the selective loop for bit \<open>b\<close> of mask word \<open>w\<close>, on the registry, the byte
  count and \<^verbatim>\<open>*received_end\<close> (\<^term>\<open>None\<close> for a null pointer).
\<close>

definition ack_bit ::
  "u64 \<Rightarrow> u64 \<Rightarrow> u64 \<Rightarrow> nat \<Rightarrow> nat \<Rightarrow> (SenderRegistry \<times> u64) \<times> u64 option
     \<Rightarrow> ((SenderRegistry \<times> u64) \<times> u64 option) \<times> bool" where
  "ack_bit ack_base base next w b s =
     (let seq = ack_base + 64 * of_nat w + of_nat b in
      if seq \<ge> next then (s, True)
      else ((if seq \<ge> base then ack_take seq (fst s) else fst s,
             map_option (\<lambda>r. if seq + 1 > r then seq + 1 else r) (snd s)), False))"

definition apply_ack ::
  "SenderRegistry \<Rightarrow> Ack \<Rightarrow> u64 \<Rightarrow> u64 \<Rightarrow> u64 option \<Rightarrow> SenderRegistry \<times> u64 \<times> u64 option \<times> u64" where
  "apply_ack reg a base next received_end =
     (let ab = ack_base_seq_no a;
          (st, base') = (if ab > base
                         then let new_base = min ab next in (ack_range base new_base (reg, 0), new_base)
                         else ((reg, 0), base));
          (st', re) = (if ab < next
                       then fold (\<lambda>w. bits_loop (ack_bit ab base' next w) (ack_received_bitmask a ! w))
                              [0..<kMaskWords] (st, received_end)
                       else (st, received_end));
          re' = map_option (\<lambda>r. if base' > r then base' else r) re
      in (fst st', base', re', snd st'))"

text \<open>The sequence numbers an acknowledgement confirms to a sender at \<open>base\<close> .. \<open>next\<close>.\<close>

definition acked :: "Ack \<Rightarrow> u64 \<Rightarrow> u64 \<Rightarrow> u64 \<Rightarrow> bool" where
  "acked a base next seq \<longleftrightarrow>
     base \<le> seq \<and> seq < next \<and>
     (seq < ack_base_seq_no a \<or>
      (ack_base_seq_no a \<le> seq \<and>
       mask_bit (ack_received_bitmask a) (unat (seq - ack_base_seq_no a))))"

subsection \<open>Taking a list of sequence numbers\<close>

lemma fst_ack_take: "fst (ack_take k st) = confirm (fst st) k"
  by (auto simp: ack_take_def lookup_def confirm_def Let_def split: option.splits)

lemma fst_fold_ack_take: "fst (fold ack_take ks st) = fold (\<lambda>k s. confirm s k) ks (fst st)"
  by (induction ks arbitrary: st) (simp_all add: fst_ack_take)

lemma lookup_frees:
  "reg_inv reg \<Longrightarrow> lookup (fold (\<lambda>k s. confirm s k) ks reg) j = (if j \<in> set ks then None else lookup reg j)"
  by (induction ks arbitrary: reg) (auto simp: lookup_confirm reg_inv_confirm)

definition stored_len :: "SenderRegistry \<Rightarrow> u64 \<Rightarrow> u64" where
  "stored_len reg k = (case lookup reg k of None \<Rightarrow> 0 | Some sl \<Rightarrow> ucast (sl_payload_len sl))"

lemma snd_fold_ack_take:
  "reg_inv (fst st) \<Longrightarrow> distinct ks \<Longrightarrow>
     snd (fold ack_take ks st) = snd st + (\<Sum>k \<in> set ks. stored_len (fst st) k)"
proof (induction ks arbitrary: st)
  case (Cons k ks)
  have "stored_len (fst (ack_take k st)) j = stored_len (fst st) j" if "j \<in> set ks" for j
    using that Cons.prems by (auto simp: stored_len_def fst_ack_take lookup_confirm)
  moreover have "snd (ack_take k st) = snd st + stored_len (fst st) k"
    by (simp add: ack_take_def stored_len_def split: option.splits)
  moreover have "reg_inv (fst (ack_take k st))"
    using Cons.prems by (simp add: fst_ack_take reg_inv_confirm)
  ultimately show ?case using Cons by (simp add: add.assoc)
qed simp

lemma ack_range_eq:
  "ack_range s nb st = fold ack_take (map (\<lambda>i. s + of_nat i) [0..<unat nb - unat s]) st"
proof (induction s nb st rule: ack_range.induct)
  case (1 s nb st)
  show ?case
  proof (cases "s < nb")
    case True
    then have u: "unat (s + 1) = unat s + 1" "unat s < unat nb"
      by (simp_all add: unat_suc [of s nb] word_less_nat_alt)
    then have n: "unat nb - unat s = Suc (unat nb - unat (s + 1))" by simp
    have "map (\<lambda>i. s + of_nat i) [0..<unat nb - unat s] =
        s # map (\<lambda>i. s + 1 + of_nat i) [0..<unat nb - unat (s + 1)]"
      unfolding n by (simp add: upt_conv_Cons map_Suc_upt [symmetric] add.assoc del: upt_Suc)
    with 1 [OF True] True show ?thesis by (subst ack_range.simps) simp
  next
    case False
    then have "unat nb - unat s = 0" by (simp add: word_less_nat_alt)
    with False show ?thesis by (subst ack_range.simps) simp
  qed
qed

subsection \<open>The selective part\<close>

definition ack_hit ::
  "u64 \<Rightarrow> u64 \<Rightarrow> (SenderRegistry \<times> u64) \<times> u64 option \<Rightarrow> (SenderRegistry \<times> u64) \<times> u64 option" where
  "ack_hit base seq s =
     (if seq \<ge> base then ack_take seq (fst s) else fst s,
      map_option (\<lambda>r. if seq + 1 > r then seq + 1 else r) (snd s))"

definition sel_seqs :: "Ack \<Rightarrow> u64 \<Rightarrow> u64 list" where
  "sel_seqs a next =
     map (\<lambda>d. ack_base_seq_no a + of_nat d)
       (filter (\<lambda>d. ack_base_seq_no a + of_nat d < next)
         (filter (mask_bit (ack_received_bitmask a)) [0..<1024]))"

lemma ack_word_eq:
  assumes "unat ab + 1024 \<le> 2 ^ 64" "w < 16"
  shows "bits_loop (ack_bit ab base next w) m =
    fold (\<lambda>b. ack_hit base (ab + of_nat (64 * w + b)))
      (filter (\<lambda>b. ab + of_nat (64 * w + b) < next) (set_bits_of m))"
proof (rule ext)
  fix s
  have f: "ack_bit ab base next w = (\<lambda>b s. if next \<le> ab + of_nat (64 * w + b) then (s, True)
      else (ack_hit base (ab + of_nat (64 * w + b)) s, False))"
    by (intro ext) (simp add: ack_bit_def ack_hit_def add.assoc Let_def)
  have u: "unat (ab + of_nat (64 * w + b)) = unat ab + (64 * w + b)" if "b < 64" for b
    using assms that by (intro unat_add_lt) simp
  have "sorted_wrt (\<lambda>x y. next \<le> ab + of_nat (64 * w + x) \<longrightarrow> next \<le> ab + of_nat (64 * w + y))
      (set_bits_of m)"
    by (rule sorted_wrt_mono_rel [OF _ sorted_set_bits_of])
       (use u in \<open>auto simp: set_bits_of_def word_le_nat_alt\<close>)
  then show "bits_loop (ack_bit ab base next w) m s =
      fold (\<lambda>b. ack_hit base (ab + of_nat (64 * w + b)))
        (filter (\<lambda>b. ab + of_nat (64 * w + b) < next) (set_bits_of m)) s"
    unfolding bits_loop_eq f by (subst run_until_break) (simp_all add: comp_def not_le)
qed

lemma sel_fold:
  assumes "unat (ack_base_seq_no a) + 1024 \<le> 2 ^ 64" "wf_ack a"
  shows "fold (\<lambda>w. bits_loop (ack_bit (ack_base_seq_no a) base next w) (ack_received_bitmask a ! w))
      [0..<kMaskWords] s = fold (ack_hit base) (sel_seqs a next) s"
proof -
  let ?ab = "ack_base_seq_no a" and ?m = "ack_received_bitmask a"
  have "fold (\<lambda>w. bits_loop (ack_bit ?ab base next w) (?m ! w)) [0..<16] s =
      fold (\<lambda>w. fold (\<lambda>d. ack_hit base (ab + of_nat d))
        (filter (\<lambda>d. ab + of_nat d < next) (map (\<lambda>b. 64 * w + b) (set_bits_of (?m ! w))))) [0..<16] s"
    if "ab = ?ab" for ab
    using assms(1) that
    by (intro fold_cong) (simp_all add: ack_word_eq filter_map comp_def fold_map)
  also have "\<dots> ?ab = fold (\<lambda>d. ack_hit base (?ab + of_nat d)) (filter (\<lambda>d. ?ab + of_nat d < next)
      (concat (map (\<lambda>w. map (\<lambda>b. 64 * w + b) (set_bits_of (?m ! w))) [0..<16]))) s"
    by (simp add: fold_concat_map filter_concat comp_def)
  finally show ?thesis
    using assms(2) mask_enum [of ?m 16]
    by (simp add: sel_seqs_def wf_ack_def fold_map comp_def)
qed

lemma fst_fold_ack_hit:
  "fst (fold (ack_hit base) ks s) = fold ack_take (filter (\<lambda>k. base \<le> k) ks) (fst s)"
  by (induction ks arbitrary: s) (simp_all add: ack_hit_def)

lemma set_sel_seqs:
  assumes "unat (ack_base_seq_no a) + 1024 \<le> 2 ^ 64" "wf_ack a"
  shows "set (sel_seqs a next) = {k. k < next \<and> ack_base_seq_no a \<le> k \<and>
           mask_bit (ack_received_bitmask a) (unat (k - ack_base_seq_no a))}"
    and "distinct (sel_seqs a next)"
proof -
  let ?ab = "ack_base_seq_no a" and ?m = "ack_received_bitmask a"
  have u: "unat (?ab + of_nat d) = unat ?ab + d" if "d < 1024" for d
    using assms(1) that by (intro unat_add_lt) simp
  have sub: "unat (?ab + of_nat d - ?ab) = d" if "d < 1024" for d
    using that by (simp add: unat_of_nat)
  have le: "?ab \<le> ?ab + of_nat d" if "d < 1024" for d
    using u [OF that] by (simp add: word_le_nat_alt)
  have m: "d < 1024" if "mask_bit ?m d" for d
    using that assms(2) by (auto simp: mask_bit_def wf_ack_def)
  have inv: "k = ?ab + of_nat (unat (k - ?ab))" for k by simp
  show "set (sel_seqs a next) = {k. k < next \<and> ?ab \<le> k \<and> mask_bit ?m (unat (k - ?ab))}"
    (is "?L = ?R")
  proof
    show "?L \<subseteq> ?R" using le sub by (auto simp: sel_seqs_def)
    show "?R \<subseteq> ?L"
    proof
      fix k assume k: "k \<in> ?R"
      then have "k \<in> (\<lambda>d. ?ab + of_nat d) ` {d. mask_bit ?m d \<and> ?ab + of_nat d < next}"
        using inv [of k] by (intro image_eqI [of _ _ "unat (k - ?ab)"]) auto
      then show "k \<in> ?L" using m by (auto simp: sel_seqs_def)
    qed
  qed
  have "inj_on (\<lambda>d. ?ab + of_nat d) {0..<1024}"
    by (rule inj_on_inverseI [of _ "\<lambda>k. unat (k - ?ab)"]) (use sub in auto)
  then show "distinct (sel_seqs a next)"
    by (auto simp: sel_seqs_def distinct_map intro: inj_on_subset)
qed

subsection \<open>What an acknowledgement does\<close>

text \<open>
  The list of sequence numbers \<^verbatim>\<open>apply_ack\<close> takes, and the base it leaves.
\<close>

definition ack_new_base :: "Ack \<Rightarrow> u64 \<Rightarrow> u64 \<Rightarrow> u64" where
  "ack_new_base a base next =
     (if ack_base_seq_no a > base then min (ack_base_seq_no a) next else base)"

definition ack_list :: "Ack \<Rightarrow> u64 \<Rightarrow> u64 \<Rightarrow> u64 list" where
  "ack_list a base next =
     map (\<lambda>i. base + of_nat i) [0..<unat (ack_new_base a base next) - unat base]
     @ (if ack_base_seq_no a < next
        then filter (\<lambda>k. ack_new_base a base next \<le> k) (sel_seqs a next) else [])"

lemma apply_ack_eq:
  assumes "wf_ack a" "unat next + 1024 \<le> 2 ^ 64"
  shows "\<exists>re'. apply_ack reg a base next re =
     (fst (fold ack_take (ack_list a base next) (reg, 0)), ack_new_base a base next, re',
      snd (fold ack_take (ack_list a base next) (reg, 0)))"
proof -
  have ab: "unat (ack_base_seq_no a) + 1024 \<le> 2 ^ 64" if "ack_base_seq_no a < next"
    using that assms(2) by (simp add: word_less_nat_alt)
  show ?thesis
    using sel_fold [OF ab assms(1)]
    by (simp add: apply_ack_def ack_list_def ack_new_base_def Let_def ack_range_eq
        fst_fold_ack_hit case_prod_beta)
qed

lemma seq_range:
  fixes a b :: u64
  shows "set (map (\<lambda>i. a + of_nat i) [0..<unat b - unat a]) = {k. a \<le> k \<and> k < b}"
    and "distinct (map (\<lambda>i. a + of_nat i) [0..<unat b - unat a])"
proof -
  have u: "unat (a + of_nat i) = unat a + i" if "i < unat b - unat a" for i
    using that unat_u64_less [of b] by (intro unat_add_lt) simp
  show "set (map (\<lambda>i. a + of_nat i) [0..<unat b - unat a]) = {k. a \<le> k \<and> k < b}"
  proof
    show "set (map (\<lambda>i. a + of_nat i) [0..<unat b - unat a]) \<subseteq> {k. a \<le> k \<and> k < b}"
      using u by (auto simp: word_le_nat_alt word_less_nat_alt)
    show "{k. a \<le> k \<and> k < b} \<subseteq> set (map (\<lambda>i. a + of_nat i) [0..<unat b - unat a])"
    proof
      fix k assume "k \<in> {k. a \<le> k \<and> k < b}"
      then have "unat k - unat a < unat b - unat a" "k = a + of_nat (unat k - unat a)"
        by (auto simp: word_le_nat_alt word_less_nat_alt of_nat_diff)
      then have "k \<in> (\<lambda>i. a + of_nat i) ` {0..<unat b - unat a}"
        by (intro image_eqI [of _ _ "unat k - unat a"]) simp_all
      then show "k \<in> set (map (\<lambda>i. a + of_nat i) [0..<unat b - unat a])" by simp
    qed
  qed
  have "inj_on (\<lambda>i. a + of_nat i) {0..<unat b - unat a}"
    by (rule inj_on_inverseI [of _ "\<lambda>k. unat k - unat a"]) (use u in auto)
  then show "distinct (map (\<lambda>i. a + of_nat i) [0..<unat b - unat a])"
    by (simp add: distinct_map)
qed

lemma ack_list_props:
  assumes "wf_ack a" "unat next + 1024 \<le> 2 ^ 64"
  shows "distinct (ack_list a base next)"
    and "base \<le> next \<Longrightarrow> set (ack_list a base next) = {k. acked a base next k}"
proof -
  have ab: "unat (ack_base_seq_no a) + 1024 \<le> 2 ^ 64" if "ack_base_seq_no a < next"
    using that assms(2) by (simp add: word_less_nat_alt)
  note sel = set_sel_seqs [OF ab assms(1)]
  show "distinct (ack_list a base next)"
    using seq_range [of base "ack_new_base a base next"] sel(2)
    by (auto simp: ack_list_def simp del: set_map)
  let ?ab = "ack_base_seq_no a" and ?nb = "ack_new_base a base next"
  have mem: "k \<in> set (ack_list a base next) \<longleftrightarrow> base \<le> k \<and> k < ?nb \<or>
      ?ab < next \<and> ?nb \<le> k \<and> k < next \<and> ?ab \<le> k \<and>
      mask_bit (ack_received_bitmask a) (unat (k - ?ab))" for k
    using seq_range(1) [of base ?nb] sel(1) by (auto simp: ack_list_def simp del: set_map)
  show "set (ack_list a base next) = {k. acked a base next k}" if "base \<le> next"
    using that unfolding set_eq_iff mem mem_Collect_eq acked_def ack_new_base_def
    by (auto simp: word_le_nat_alt word_less_nat_alt min_def)
qed

text \<open>
  The specification of \<^verbatim>\<open>apply_ack\<close>: exactly the acknowledged sequence numbers leave the
  registry, the byte count is theirs, and the base moves to the cumulative acknowledgement
  but never past what was sent.
\<close>

lemma apply_ack_spec:
  assumes "reg_inv reg" "wf_ack a" "base \<le> next" "unat next + 1024 \<le> 2 ^ 64"
    and "apply_ack reg a base next re = (reg', base', re', bytes)"
  shows "reg_inv reg'"
    and "base' = ack_new_base a base next" "base \<le> base'" "base' \<le> next"
    and "lookup reg' k = (if acked a base next k then None else lookup reg k)"
    and "bytes = (\<Sum>k | acked a base next k. stored_len reg k)"
proof -
  let ?l = "ack_list a base next"
  have eq: "reg' = fst (fold ack_take ?l (reg, 0))" "base' = ack_new_base a base next"
    "bytes = snd (fold ack_take ?l (reg, 0))"
    using apply_ack_eq [OF assms(2,4), of reg base re] assms(5) by auto
  note l = ack_list_props [OF assms(2,4)]
  show "reg_inv reg'" unfolding eq fst_fold_ack_take using assms(1) by (simp add: reg_store.inv_frees)
  show "base' = ack_new_base a base next" by (rule eq)
  then show "base \<le> base'" "base' \<le> next"
    using assms(3) by (auto simp: ack_new_base_def min_def)
  show "lookup reg' k = (if acked a base next k then None else lookup reg k)"
    using assms(1,3) l(2) by (simp add: eq fst_fold_ack_take lookup_frees)
  show "bytes = (\<Sum>k | acked a base next k. stored_len reg k)"
    using assms(1,3) l by (simp add: eq snd_fold_ack_take)
qed

section \<open>Properties\<close>

text \<open>
  C19: a block stays retrievable for retransmission, with the payload, length, send time,
  offset and flags it was stored with, while no more blocks than the window have been stored
  since: storing any run of consecutive sequence numbers no longer than the window keeps
  every one of them.
\<close>

theorem registry_keeps_window:
  assumes "reg_inv reg" "length vs \<le> unat (rg_window_size reg)" "unat base + length vs \<le> 2 ^ 64"
    "list_all ok_view vs" "i < length vs"
  shows "look_view (fold (\<lambda>(k, v) r. store_view r k v)
           (zip (map (\<lambda>i. base + of_nat i) [0..<length vs]) vs) reg) (base + of_nat i) = Some (vs ! i)"
proof -
  let ?ks = "map (\<lambda>i. base + of_nat i) [0..<length vs]"
  have "distinct (map (index_of reg \<circ> fst) (zip ?ks vs))"
    using index_distinct [OF assms(2,3)] by (simp add: map_map [symmetric] del: map_map) (simp add: comp_def)
  moreover have "\<forall>(k, v) \<in> set (zip ?ks vs). ok_view v"
    using assms(4) by (auto simp: list_all_iff dest: set_zip_rightD)
  moreover have "(base + of_nat i, vs ! i) \<in> set (zip ?ks vs)"
    using assms(5) by (auto simp: in_set_zip intro!: exI [of _ i])
  ultimately show ?thesis using reg_store.look_puts [OF assms(1)] by blast
qed

theorem registry_keeps_window_witness:
  "look_view (store_view (store_view (new_registry 1 2) 41 ([7, 8], 2, 100, 0, 0))
     42 ([9], 1, 101, 2, 2)) 41 = Some ([7, 8], 2, 100, 0, 0)"
  using registry_keeps_window [of "new_registry 1 2" "[([7, 8], 2, 100, 0, 0), ([9], 1, 101, 2, 2)]" 41 0]
  by (simp add: reg_inv_new ok_view_def) (simp add: new_registry_def clamp_window_def)

text \<open>
  C4: applying an acknowledgement releases exactly the blocks it acknowledges among those in
  flight (cumulatively below its base, or selectively by its bitmask), returns the number of
  payload bytes so released, leaves every other block retransmittable, and moves the base
  forward but never past the next unsent sequence number, whatever the acknowledgement says.
\<close>

theorem apply_ack_releases_acked:
  assumes "reg_inv reg" "wf_ack a" "base \<le> next" "unat next + 1024 \<le> 2 ^ 64"
    and "apply_ack reg a base next re = (reg', base', re', bytes)"
  shows "reg_inv reg' \<and> base \<le> base' \<and> base' \<le> next \<and>
    base' = (if base < ack_base_seq_no a then min (ack_base_seq_no a) next else base) \<and>
    lookup reg' k = (if acked a base next k then None else lookup reg k) \<and>
    bytes = (\<Sum>k | acked a base next k. stored_len reg k)"
  using apply_ack_spec [OF assms] by (simp add: ack_new_base_def)

theorem apply_ack_releases_acked_witness:
  "\<exists>reg' re' bytes. apply_ack (new_registry 1 4)
       \<lparr>ack_stream_id = 1, ack_base_seq_no = 1000, ack_received_bitmask = replicate 16 0,
        ack_echoed_send_time = 0, ack_nonce = 0, ack_rwnd = 0\<rparr> 3 8 (Some 0) = (reg', 8, re', bytes)
     \<and> reg_inv reg' \<and> lookup reg' 9 = lookup (new_registry 1 4) 9"
proof -
  let ?a = "\<lparr>ack_stream_id = 1, ack_base_seq_no = 1000, ack_received_bitmask = replicate 16 0,
    ack_echoed_send_time = 0, ack_nonce = 0, ack_rwnd = 0\<rparr>"
  obtain reg' base' re' bytes where
    r: "apply_ack (new_registry 1 4) ?a 3 8 (Some 0) = (reg', base', re', bytes)"
    using prod_cases4 by blast
  have "reg_inv reg' \<and> base' = 8 \<and> lookup reg' 9 = lookup (new_registry 1 4) 9"
    using apply_ack_releases_acked [OF reg_inv_new _ _ _ r, of 9] by (simp add: wf_ack_def acked_def)
  with r show ?thesis by blast
qed

end
