(* ===== verification/Receiver.thy ===== *)
theory Receiver
  imports Registry
begin

text \<open>
  Receiver-side tracking of one stream (\<^verbatim>\<open>include/fuse/proto/receiver.hpp\<close>,
  \<^verbatim>\<open>src/proto/receiver.cpp\<close>): the ring of received bits, the gap timers, the acknowledgement
  and the negative acknowledgement.

  The abstract state is \<open>got s\<close>, the set of sequence numbers accepted so far. \<^verbatim>\<open>on_receive\<close>
  refines "insert unless present or beyond the window", the base is the least number not in
  the set, and an acknowledgement describes the set exactly.
\<close>

section \<open>State and operations\<close>

datatype ReceiveResult = Accepted | Duplicate | OutOfWindow

record ReceiverStream =
  rs_stream_id :: u16
  rs_window_size :: u16
  rs_lossless :: bool
  rs_base_seq_no :: u64
  rs_ring :: "u64 list"
  rs_highest_received :: u64
  rs_have_any :: bool
  rs_last_send_time :: u64
  rs_window_overflow_count :: u64
  rs_first_missing_ns :: "u64 list"
  rs_last_nack_ns :: "u64 list"

definition new_receiver :: "u16 \<Rightarrow> u16 \<Rightarrow> bool \<Rightarrow> ReceiverStream" where
  "new_receiver sid window lossless =
     \<lparr>rs_stream_id = sid, rs_window_size = clamp_window window, rs_lossless = lossless,
      rs_base_seq_no = 0, rs_ring = replicate kMaskWords 0, rs_highest_received = 0,
      rs_have_any = False, rs_last_send_time = 0, rs_window_overflow_count = 0,
      rs_first_missing_ns = replicate kMaxWindow 0, rs_last_nack_ns = replicate kMaxWindow 0\<rparr>"

definition slot :: "u64 \<Rightarrow> nat" where
  "slot seq = unat seq mod kMaxWindow"

text \<open>
  The ring is a \<^verbatim>\<open>std::array\<close> of \<^verbatim>\<open>kMaskWords\<close> words; the length test is always true for it.
\<close>

definition ring_test :: "ReceiverStream \<Rightarrow> u64 \<Rightarrow> bool" where
  "ring_test s seq \<longleftrightarrow>
     slot seq div 64 < length (rs_ring s) \<and>
     (rs_ring s ! (slot seq div 64)) AND bit64 (slot seq mod 64) \<noteq> 0"

definition is_received :: "ReceiverStream \<Rightarrow> u64 \<Rightarrow> bool" where
  "is_received s rel \<longleftrightarrow>
     unat rel < unat (rs_window_size s) \<and> ring_test s (rs_base_seq_no s + rel)"

definition relative_word :: "ReceiverStream \<Rightarrow> nat \<Rightarrow> u64" where
  "relative_word s w =
     (let start = slot (rs_base_seq_no s + 64 * of_nat w);
          q = start div 64;
          r = start mod 64;
          v = drop_bit r (rs_ring s ! q);
          v = (if r \<noteq> 0 then v OR push_bit (64 - r) (rs_ring s ! ((q + 1) mod kMaskWords)) else v);
          first = 64 * w;
          window = unat (rs_window_size s)
      in if first \<ge> window then 0
         else if window - first < 64 then v AND (bit64 (window - first) - 1)
         else v)"

definition clear_slot :: "ReceiverStream \<Rightarrow> ReceiverStream" where
  "clear_slot s =
     (let i = slot (rs_base_seq_no s) in
      s\<lparr>rs_ring := (rs_ring s)[i div 64 := (rs_ring s ! (i div 64)) AND NOT (bit64 (i mod 64))],
        rs_first_missing_ns := (rs_first_missing_ns s)[i := 0],
        rs_last_nack_ns := (rs_last_nack_ns s)[i := 0],
        rs_base_seq_no := rs_base_seq_no s + 1\<rparr>)"

definition ring_population :: "u64 list \<Rightarrow> nat" where
  "ring_population ring = sum_list (map (\<lambda>w. card {k. bit w k}) ring)"

lemma ring_population_clear:
  assumes "q < length ring" "bit (ring ! q) k"
  shows "ring_population (ring[q := (ring ! q) AND NOT (bit64 k)]) < ring_population ring"
proof -
  have k: "k < 64" using bit_imp_le_length [OF assms(2)] by simp
  have fin: "finite {j. bit (w :: u64) j}" for w
    using set_set_bits_of [of w] by (metis finite_set)
  have "{j. bit (ring ! q AND NOT (bit64 k)) j} = {j. bit (ring ! q) j} - {k}"
    using k by (auto simp: bit_clear64)
  then have c: "card {j. bit (ring ! q AND NOT (bit64 k)) j} < card {j. bit (ring ! q) j}"
    by (metis card_Diff1_less fin mem_Collect_eq assms(2))
  have "ring = take q ring @ ring ! q # drop (Suc q) ring"
    using assms(1) by (simp add: id_take_nth_drop)
  then have "ring_population ring = ring_population (take q ring) + card {j. bit (ring ! q) j}
      + ring_population (drop (Suc q) ring)"
    by (metis (no_types, lifting) add.assoc list.simps(9) map_append ring_population_def
        sum_list.Cons sum_list_append)
  then show ?thesis
    using c assms(1) by (simp add: ring_population_def upd_conv_take_nth_drop)
qed

function slide_base :: "ReceiverStream \<Rightarrow> ReceiverStream" where
  "slide_base s = (if ring_test s (rs_base_seq_no s) then slide_base (clear_slot s) else s)"
  by pat_completeness auto
termination
  by (relation "measure (\<lambda>s. ring_population (rs_ring s))")
     (auto simp: clear_slot_def Let_def ring_test_def test_bit64 intro!: ring_population_clear)

declare slide_base.simps [simp del]

text \<open>The loop that stamps the gaps a block newly exposes, from \<open>from\<close> up to the block.\<close>

definition stamp_gap :: "u64 \<Rightarrow> u64 \<Rightarrow> u64 list \<Rightarrow> u64 list" where
  "stamp_gap now gap fm = (if fm ! slot gap = 0 then fm[slot gap := now] else fm)"

function stamp_gaps :: "u64 \<Rightarrow> u64 \<Rightarrow> u64 \<Rightarrow> u64 list \<Rightarrow> u64 list" where
  "stamp_gaps now gap seq fm =
     (if gap < seq then stamp_gaps now (gap + 1) seq (stamp_gap now gap fm) else fm)"
  by pat_completeness auto
termination
  by (relation "measure (\<lambda>(now, gap, seq, fm). unat seq - unat gap)")
     (auto simp: word_less_nat_alt unat_suc_less)

declare stamp_gaps.simps [simp del]

definition on_receive ::
  "ReceiverStream \<Rightarrow> u64 \<Rightarrow> u64 \<Rightarrow> u64 \<Rightarrow> ReceiveResult \<times> ReceiverStream" where
  "on_receive s seq send_time now =
     (if seq < rs_base_seq_no s then (Duplicate, s)
      else if unat (seq - rs_base_seq_no s) \<ge> unat (rs_window_size s)
      then (OutOfWindow, s\<lparr>rs_window_overflow_count := rs_window_overflow_count s + 1\<rparr>)
      else if ring_test s seq then (Duplicate, s)
      else
        let i = slot seq;
            s = s\<lparr>rs_ring := (rs_ring s)[i div 64 := (rs_ring s ! (i div 64)) OR bit64 (i mod 64)]\<rparr>;
            s = (if \<not> rs_have_any s \<or> seq > rs_highest_received s
                 then let from = (if rs_have_any s then rs_highest_received s + 1 else rs_base_seq_no s);
                          from = (if from < rs_base_seq_no s then rs_base_seq_no s else from)
                      in s\<lparr>rs_first_missing_ns := stamp_gaps now from seq (rs_first_missing_ns s),
                           rs_highest_received := seq, rs_last_send_time := send_time\<rparr>
                 else s);
            s = s\<lparr>rs_have_any := True\<rparr>
        in (Accepted, slide_base s))"

definition build_ack :: "ReceiverStream \<Rightarrow> Ack" where
  "build_ack s =
     \<lparr>ack_stream_id = rs_stream_id s, ack_base_seq_no = rs_base_seq_no s,
      ack_received_bitmask = map (relative_word s) [0..<kMaskWords],
      ack_echoed_send_time = rs_last_send_time s, ack_nonce = 0, ack_rwnd = kRwndUnlimited\<rparr>"

text \<open>
  \<^verbatim>\<open>collect_nacks\<close>: the sequence numbers written to \<^verbatim>\<open>out->missing\<close> so far, and the timers.
\<close>

definition nack_bit ::
  "ReceiverStream \<Rightarrow> u64 \<Rightarrow> u64 \<Rightarrow> u64 \<Rightarrow> nat \<Rightarrow> nat \<Rightarrow> u64 list \<times> u64 list
     \<Rightarrow> (u64 list \<times> u64 list) \<times> bool" where
  "nack_bit s now reorder renack w b st =
     (let seq = rs_base_seq_no s + 64 * of_nat w + of_nat b;
          i = slot seq;
          first_ns = rs_first_missing_ns s ! i;
          last = snd st ! i
      in if first_ns = 0 \<or> now - first_ns < reorder then (st, False)
         else if last \<noteq> 0 \<and> now - last < renack then (st, False)
         else if length (fst st) < kMaxWindow
         then ((fst st @ [seq], (snd st)[i := now]), False)
         else (st, False))"

definition nack_word :: "ReceiverStream \<Rightarrow> u64 \<Rightarrow> nat \<Rightarrow> u64" where
  "nack_word s span w =
     (let missing = NOT (relative_word s w); first = 64 * w in
      if unat span - first < 63 then missing AND (push_bit (unat span - first) 2 - 1) else missing)"

definition collect_nacks ::
  "ReceiverStream \<Rightarrow> u64 \<Rightarrow> u64 \<Rightarrow> u64 \<Rightarrow> Nack \<Rightarrow> ReceiverStream \<times> Nack" where
  "collect_nacks s now reorder renack out =
     (if \<not> rs_lossless s \<or> \<not> rs_have_any s \<or> rs_highest_received s < rs_base_seq_no s
      then (s, out\<lparr>nk_stream_id := rs_stream_id s, nk_count := 0\<rparr>)
      else
        let span = rs_highest_received s - rs_base_seq_no s;
            (found, timers) =
              fold (\<lambda>w. bits_loop (nack_bit s now reorder renack w) (nack_word s span w))
                (takeWhile (\<lambda>w. w * 64 \<le> unat span) [0..<kMaskWords]) ([], rs_last_nack_ns s)
        in (s\<lparr>rs_last_nack_ns := timers\<rparr>,
            \<lparr>nk_stream_id = rs_stream_id s, nk_count = of_nat (length found),
             nk_missing = found @ drop (length found) (nk_missing out)\<rparr>))"

section \<open>The ring as a set of positions\<close>

definition ring_bit :: "ReceiverStream \<Rightarrow> nat \<Rightarrow> bool" where
  "ring_bit s n \<longleftrightarrow> mask_bit (rs_ring s) (n mod 1024)"

lemma ring_test_eq: "ring_test s seq \<longleftrightarrow> ring_bit s (unat seq)"
  by (auto simp: ring_test_def ring_bit_def mask_bit_def slot_def test_bit64)

lemma mask_bit_set:
  "i div 64 < length ws \<Longrightarrow>
     mask_bit (ws[i div 64 := (ws ! (i div 64)) OR bit64 (i mod 64)]) d \<longleftrightarrow> mask_bit ws d \<or> d = i"
  by (auto simp: mask_bit_def nth_list_update bit_set64) (metis div_mult_mod_eq)+

lemma mask_bit_clear:
  "i div 64 < length ws \<Longrightarrow>
     mask_bit (ws[i div 64 := (ws ! (i div 64)) AND NOT (bit64 (i mod 64))]) d \<longleftrightarrow>
     mask_bit ws d \<and> d \<noteq> i"
  by (auto simp: mask_bit_def nth_list_update bit_clear64) (metis div_mult_mod_eq)+

definition got :: "ReceiverStream \<Rightarrow> nat set" where
  "got s = {n. n < unat (rs_base_seq_no s) \<or>
               (\<exists>d < unat (rs_window_size s). n = unat (rs_base_seq_no s) + d \<and> ring_bit s n)}"

text \<open>The invariant while the base may still sit on a received position.\<close>

definition rs_pre :: "ReceiverStream \<Rightarrow> bool" where
  "rs_pre s \<longleftrightarrow>
     length (rs_ring s) = 16 \<and> length (rs_first_missing_ns s) = 1024 \<and>
     length (rs_last_nack_ns s) = 1024 \<and>
     1 \<le> unat (rs_window_size s) \<and> unat (rs_window_size s) \<le> 1024 \<and>
     (\<forall>d < 1024. ring_bit s (unat (rs_base_seq_no s) + d) \<longrightarrow>
        d < unat (rs_window_size s) \<and> rs_have_any s \<and>
        unat (rs_base_seq_no s) + d \<le> unat (rs_highest_received s)) \<and>
     (if rs_have_any s then unat (rs_highest_received s) \<in> got s
      else rs_base_seq_no s = 0) \<and>
     unat (rs_highest_received s) + 1 < 2 ^ 64"

definition rs_inv :: "ReceiverStream \<Rightarrow> bool" where
  "rs_inv s \<longleftrightarrow> rs_pre s \<and> \<not> ring_bit s (unat (rs_base_seq_no s))"

lemma rs_preD:
  assumes "rs_pre s" "d < 1024" "ring_bit s (unat (rs_base_seq_no s) + d)"
  shows "d < unat (rs_window_size s)" "rs_have_any s"
    "unat (rs_base_seq_no s) + d \<le> unat (rs_highest_received s)"
  using assms unfolding rs_pre_def by blast+

lemma rs_inv_new: "rs_inv (new_receiver sid w lossless)"
  by (auto simp: rs_inv_def rs_pre_def new_receiver_def ring_bit_def mask_bit_def)

lemma mod_1024_shift: "d < 1024 \<Longrightarrow> (n + (d + 1)) mod 1024 = n mod 1024 \<longleftrightarrow> d = (1023 :: nat)"
  using mod_eq_dvd_iff_nat [of n "n + (d + 1)" 1024] dvd_imp_le [of 1024 "d + 1"] by auto

lemma clear_slot_simps [simp]:
  "rs_window_size (clear_slot s) = rs_window_size s" "rs_have_any (clear_slot s) = rs_have_any s"
  "rs_highest_received (clear_slot s) = rs_highest_received s"
  "rs_base_seq_no (clear_slot s) = rs_base_seq_no s + 1"
  "length (rs_ring (clear_slot s)) = length (rs_ring s)"
  "length (rs_first_missing_ns (clear_slot s)) = length (rs_first_missing_ns s)"
  "length (rs_last_nack_ns (clear_slot s)) = length (rs_last_nack_ns s)"
  "rs_stream_id (clear_slot s) = rs_stream_id s" "rs_lossless (clear_slot s) = rs_lossless s"
  by (simp_all add: clear_slot_def Let_def)

lemma ring_bit_clear_slot:
  "length (rs_ring s) = 16 \<Longrightarrow>
     ring_bit (clear_slot s) n \<longleftrightarrow> ring_bit s n \<and> n mod 1024 \<noteq> unat (rs_base_seq_no s) mod 1024"
  by (simp add: clear_slot_def ring_bit_def slot_def Let_def mask_bit_clear)

lemma clear_slot_step:
  assumes pre: "rs_pre s" and b: "ring_bit s (unat (rs_base_seq_no s))"
  shows "rs_pre (clear_slot s)" "got (clear_slot s) = got s"
proof -
  let ?b = "unat (rs_base_seq_no s)" and ?w = "unat (rs_window_size s)"
  have h: "?b \<le> unat (rs_highest_received s)" "rs_have_any s"
    using rs_preD [OF pre, of 0] b by simp_all
  then have u: "unat (rs_base_seq_no s + 1) = ?b + 1"
    using pre unat_add_lt [of "rs_base_seq_no s" 1] by (simp add: rs_pre_def)
  have len: "length (rs_ring s) = 16" "?w \<le> 1024" using pre by (simp_all add: rs_pre_def)
  have bits: "ring_bit (clear_slot s) (?b + (d + 1)) \<longleftrightarrow> ring_bit s (?b + (d + 1)) \<and> d \<noteq> 1023"
    if "d < 1024" for d
    unfolding ring_bit_clear_slot [OF len(1)] mod_1024_shift [OF that] ..
  have win: "d + 1 < ?w" if "ring_bit s (?b + (d + 1))" "d < 1023" for d
    using rs_preD [OF pre, of "d + 1"] that by simp
  show g: "got (clear_slot s) = got s"
  proof (rule set_eqI)
    fix n
    have "n < ?b \<or> n = ?b \<or> (\<exists>d. n = ?b + (d + 1))" by presburger
    then consider "n < ?b" | "n = ?b" | d where "n = ?b + (d + 1)" by blast
    then show "n \<in> got (clear_slot s) \<longleftrightarrow> n \<in> got s"
    proof cases
      case 3
      then show ?thesis
        using bits [of d] win [of d] len by (auto simp: got_def u)
    qed (use b pre in \<open>auto simp: got_def u rs_pre_def\<close>)
  qed
  have "d < ?w \<and> rs_have_any s \<and> unat (rs_base_seq_no s + 1) + d \<le> unat (rs_highest_received s)"
    if "d < 1024" "ring_bit (clear_slot s) (unat (rs_base_seq_no s + 1) + d)" for d
  proof -
    have "ring_bit s (?b + (d + 1))" "d + 1 < 1024"
      using that bits [of d] u by (auto simp: add.commute add.left_commute)
    then show ?thesis using rs_preD [OF pre, of "d + 1"] u by simp
  qed
  then show "rs_pre (clear_slot s)"
    using pre h unfolding rs_pre_def clear_slot_simps g by simp
qed

lemma slide_base_correct:
  "rs_pre s \<Longrightarrow> rs_inv (slide_base s) \<and> got (slide_base s) = got s"
proof (induction s rule: slide_base.induct)
  case (1 s)
  show ?case
  proof (cases "ring_test s (rs_base_seq_no s)")
    case True
    then have "ring_bit s (unat (rs_base_seq_no s))" by (simp add: ring_test_eq)
    with "1.IH" [OF True] clear_slot_step [OF "1.prems"] True show ?thesis
      by (simp add: slide_base.simps [of s])
  next
    case False
    then show ?thesis
      using "1.prems" by (simp add: slide_base.simps [of s] rs_inv_def ring_test_eq)
  qed
qed

lemma slide_base_keeps:
  "rs_window_size (slide_base s) = rs_window_size s" "rs_stream_id (slide_base s) = rs_stream_id s"
  "rs_lossless (slide_base s) = rs_lossless s" "rs_have_any (slide_base s) = rs_have_any s"
  "rs_highest_received (slide_base s) = rs_highest_received s"
  by (induction s rule: slide_base.induct; subst slide_base.simps; simp)+

section \<open>Receiving\<close>

lemma length_stamp_gaps [simp]: "length (stamp_gaps now gap seq fm) = length fm"
proof (induction now gap seq fm rule: stamp_gaps.induct)
  case (1 now gap seq fm)
  then show ?case by (subst stamp_gaps.simps) (simp add: stamp_gap_def)
qed

text \<open>The base is the least sequence number not yet accepted.\<close>

lemma base_not_got: "rs_inv s \<Longrightarrow> unat (rs_base_seq_no s) \<notin> got s"
  by (auto simp: rs_inv_def got_def)

lemma base_least: "rs_inv s \<Longrightarrow> unat (rs_base_seq_no s) = (LEAST n. n \<notin> got s)"
  by (rule sym, rule Least_equality) (auto simp: base_not_got, auto simp: got_def not_less)

lemma got_bound: "rs_inv s \<Longrightarrow> n \<in> got s \<Longrightarrow> n < unat (rs_base_seq_no s) + unat (rs_window_size s)"
  by (auto simp: got_def)

lemma ring_test_in_window:
  assumes "rs_inv s" "rs_base_seq_no s \<le> seq"
    "unat (seq - rs_base_seq_no s) < unat (rs_window_size s)"
  shows "ring_test s seq \<longleftrightarrow> unat seq \<in> got s"
    "unat seq = unat (rs_base_seq_no s) + unat (seq - rs_base_seq_no s)"
proof -
  show "unat seq = unat (rs_base_seq_no s) + unat (seq - rs_base_seq_no s)"
    using assms(2) by (simp add: unat_sub word_le_nat_alt)
  then show "ring_test s seq \<longleftrightarrow> unat seq \<in> got s"
    using assms by (auto simp: got_def ring_test_eq)
qed

text \<open>The state of an accepted block just before the base slides.\<close>

definition received :: "ReceiverStream \<Rightarrow> u64 \<Rightarrow> u64 \<Rightarrow> u64 \<Rightarrow> ReceiverStream" where
  "received s seq send_time now =
     (let i = slot seq;
          s = s\<lparr>rs_ring := (rs_ring s)[i div 64 := (rs_ring s ! (i div 64)) OR bit64 (i mod 64)]\<rparr>;
          s = (if \<not> rs_have_any s \<or> seq > rs_highest_received s
               then let from = (if rs_have_any s then rs_highest_received s + 1 else rs_base_seq_no s);
                        from = (if from < rs_base_seq_no s then rs_base_seq_no s else from)
                    in s\<lparr>rs_first_missing_ns := stamp_gaps now from seq (rs_first_missing_ns s),
                         rs_highest_received := seq, rs_last_send_time := send_time\<rparr>
               else s)
      in s\<lparr>rs_have_any := True\<rparr>)"

lemma received_simps [simp]:
  "rs_window_size (received s seq t now) = rs_window_size s"
  "rs_base_seq_no (received s seq t now) = rs_base_seq_no s"
  "rs_stream_id (received s seq t now) = rs_stream_id s"
  "rs_lossless (received s seq t now) = rs_lossless s"
  "rs_last_nack_ns (received s seq t now) = rs_last_nack_ns s"
  "rs_have_any (received s seq t now)"
  "rs_highest_received (received s seq t now) =
     (if \<not> rs_have_any s \<or> seq > rs_highest_received s then seq else rs_highest_received s)"
  "length (rs_first_missing_ns (received s seq t now)) = length (rs_first_missing_ns s)"
  "length (rs_ring (received s seq t now)) = length (rs_ring s)"
  by (simp_all add: received_def Let_def)

lemma ring_bit_received:
  "length (rs_ring s) = 16 \<Longrightarrow>
     ring_bit (received s seq t now) n \<longleftrightarrow> ring_bit s n \<or> n mod 1024 = unat seq mod 1024"
  by (simp add: received_def ring_bit_def slot_def Let_def mask_bit_set)

lemma received_correct:
  assumes pre: "rs_pre s" and e: "unat seq = unat (rs_base_seq_no s) + e"
    "e < unat (rs_window_size s)" and big: "unat seq + 1 < 2 ^ 64"
  shows "rs_pre (received s seq t now)" "got (received s seq t now) = insert (unat seq) (got s)"
proof -
  let ?b = "unat (rs_base_seq_no s)" and ?w = "unat (rs_window_size s)" and ?r = "received s seq t now"
  have len: "length (rs_ring s) = 16" "?w \<le> 1024" using pre by (simp_all add: rs_pre_def)
  have bits: "ring_bit ?r (?b + d) \<longleftrightarrow> ring_bit s (?b + d) \<or> d = e" if "d < 1024" for d
    using mod_window_inj [of ?b d 1024 e] that e len by (auto simp: ring_bit_received)
  show g: "got ?r = insert (unat seq) (got s)"
    using bits len e by (auto simp: got_def)
  have h: "d < ?w \<and> ?b + d \<le> unat (rs_highest_received ?r)" if "d < 1024" "ring_bit ?r (?b + d)" for d
  proof (cases "d = e")
    case True
    then show ?thesis using e by (auto simp: word_less_nat_alt)
  next
    case False
    then have "ring_bit s (?b + d)" using bits that by simp
    from rs_preD [OF pre that(1) this] show ?thesis by (auto simp: word_less_nat_alt)
  qed
  have hi: "unat (rs_highest_received ?r) \<in> got ?r"
    using pre by (auto simp: g rs_pre_def)
  show "rs_pre ?r"
    using pre h hi big unfolding rs_pre_def by (simp add: rs_pre_def)
qed

lemma on_receive_eq:
  "on_receive s seq t now =
     (if seq < rs_base_seq_no s then (Duplicate, s)
      else if unat (seq - rs_base_seq_no s) \<ge> unat (rs_window_size s)
      then (OutOfWindow, s\<lparr>rs_window_overflow_count := rs_window_overflow_count s + 1\<rparr>)
      else if ring_test s seq then (Duplicate, s)
      else (Accepted, slide_base (received s seq t now)))"
  by (simp add: on_receive_def received_def Let_def)

lemma rs_overflow_irrelevant:
  "rs_inv (s\<lparr>rs_window_overflow_count := c\<rparr>) = rs_inv s"
  "got (s\<lparr>rs_window_overflow_count := c\<rparr>) = got s"
  by (simp_all add: rs_inv_def rs_pre_def got_def ring_bit_def)

definition spec_receive :: "nat set \<Rightarrow> nat \<Rightarrow> nat \<Rightarrow> ReceiveResult \<times> nat set" where
  "spec_receive G window n =
     (if n \<in> G then (Duplicate, G)
      else if (LEAST k. k \<notin> G) + window \<le> n then (OutOfWindow, G)
      else (Accepted, insert n G))"

lemma on_receive_refines:
  assumes inv: "rs_inv s" and big: "unat seq + 1 < 2 ^ 64"
    and r: "on_receive s seq t now = (r, s')"
  shows "rs_inv s' \<and> (r, got s') = spec_receive (got s) (unat (rs_window_size s)) (unat seq)
     \<and> rs_window_size s' = rs_window_size s"
proof -
  let ?b = "unat (rs_base_seq_no s)"
  have spec: "spec_receive (got s) (unat (rs_window_size s)) (unat seq) =
    (if unat seq \<in> got s then (Duplicate, got s)
     else if ?b + unat (rs_window_size s) \<le> unat seq then (OutOfWindow, got s)
     else (Accepted, insert (unat seq) (got s)))"
    using base_least [OF inv] by (simp add: spec_receive_def)
  have pre: "rs_pre s" using inv by (simp add: rs_inv_def)
  consider (below) "seq < rs_base_seq_no s"
    | (beyond) "rs_base_seq_no s \<le> seq" "unat (rs_window_size s) \<le> unat (seq - rs_base_seq_no s)"
    | (inside) "rs_base_seq_no s \<le> seq" "unat (seq - rs_base_seq_no s) < unat (rs_window_size s)"
    by force
  then show ?thesis
  proof cases
    case below
    then have "unat seq \<in> got s" by (simp add: got_def word_less_nat_alt)
    with below r inv show ?thesis unfolding spec by (simp add: on_receive_eq)
  next
    case beyond
    then have "unat seq = ?b + unat (seq - rs_base_seq_no s)"
      by (simp add: unat_sub word_le_nat_alt)
    then have "?b + unat (rs_window_size s) \<le> unat seq" "unat seq \<notin> got s"
      using beyond got_bound [OF inv, of "unat seq"] by auto
    with beyond r inv show ?thesis
      unfolding spec by (auto simp: on_receive_eq rs_overflow_irrelevant leD)
  next
    case inside
    note w = ring_test_in_window [OF inv inside]
    note c = received_correct [OF pre w(2) inside(2) big, of t now]
    have nb: "\<not> ?b + unat (rs_window_size s) \<le> unat seq" using w(2) inside(2) by simp
    show ?thesis
    proof (cases "ring_test s seq")
      case True
      with r inside have "r = Duplicate" "s' = s" by (simp_all add: on_receive_eq leD)
      with True w(1) inv show ?thesis unfolding spec by simp
    next
      case False
      with r inside have "r = Accepted" "s' = slide_base (received s seq t now)"
        by (simp_all add: on_receive_eq leD)
      with False w(1) nb c slide_base_correct [OF c(1)] show ?thesis
        unfolding spec by (simp add: slide_base_keeps)
    qed
  qed
qed

section \<open>The acknowledgement describes what was accepted\<close>

lemma slot_base_plus: "slot (base + 64 * of_nat w) = (unat base + 64 * w) mod 1024"
  using unat_add_mod_1024 [of base "64 * w"] by (simp add: slot_def)

lemma ring_position:
  fixes n b :: nat
  assumes "b < 64"
  shows "(n + b) mod 1024 div 64 =
      (if n mod 64 + b < 64 then n mod 1024 div 64 else (n mod 1024 div 64 + 1) mod 16)"
    and "(n + b) mod 1024 mod 64 = (if n mod 64 + b < 64 then n mod 64 + b else n mod 64 + b - 64)"
proof -
  have m: "x mod 1024 mod 64 = x mod 64" for x :: nat by (simp add: mod_mod_cancel)
  have d: "x mod 1024 div 64 = x div 64 mod 16" for x :: nat
    using mod_mult2_eq [of x 64 16] by simp
  have s: "(n + b) div 64 = n div 64 + (n mod 64 + b) div 64"
    using div_add1_eq [of n b 64] assms by simp
  show "(n + b) mod 1024 div 64 =
      (if n mod 64 + b < 64 then n mod 1024 div 64 else (n mod 1024 div 64 + 1) mod 16)"
  proof (cases "n mod 64 + b < 64")
    case False
    then have "(n mod 64 + b) div 64 = 1" using assms by (auto simp: div_nat_eqI)
    with False show ?thesis by (simp add: d s mod_simps)
  qed (simp add: d s)
  show "(n + b) mod 1024 mod 64 = (if n mod 64 + b < 64 then n mod 64 + b else n mod 64 + b - 64)"
    using mod_add_left_eq [of n 64 b] assms
    by (auto simp: m mod_if [of "n mod 64 + b"] simp del: mod_add_left_eq)
qed

lemma bit_relative_word:
  assumes "length (rs_ring s) = 16" "b < 64"
  shows "bit (relative_word s w) b \<longleftrightarrow>
    64 * w + b < unat (rs_window_size s) \<and> ring_bit s (unat (rs_base_seq_no s) + (64 * w + b))"
proof -
  let ?n = "unat (rs_base_seq_no s) + 64 * w"
  let ?q = "?n mod 1024 div 64" and ?r = "?n mod 64"
  define v where "v = (if ?r \<noteq> 0 then drop_bit ?r (rs_ring s ! ?q) OR
      push_bit (64 - ?r) (rs_ring s ! ((?q + 1) mod 16)) else drop_bit ?r (rs_ring s ! ?q))"
  have q: "?q < 16" by (simp add: less_mult_imp_div_less)
  have r: "?n mod 1024 mod 64 = ?r" by (simp add: mod_mod_cancel)
  have "bit v b \<longleftrightarrow> mask_bit (rs_ring s) ((?n + b) mod 1024)"
  proof (cases "?r + b < 64")
    case True
    then show ?thesis
      using assms q unfolding mask_bit_def ring_position [OF assms(2)] v_def
      by (auto simp: bit_simps add.commute)
  next
    case False
    have "\<not> bit (rs_ring s ! ?q) (?r + b)"
      using False bit_imp_le_length [of "rs_ring s ! ?q" "?r + b"] by auto
    with False show ?thesis
      using assms unfolding mask_bit_def ring_position [OF assms(2)] v_def
      by (auto simp: bit_simps add.commute)
  qed
  moreover have "relative_word s w =
      (if 64 * w \<ge> unat (rs_window_size s) then 0
       else if unat (rs_window_size s) - 64 * w < 64
       then v AND (bit64 (unat (rs_window_size s) - 64 * w) - 1) else v)"
    by (simp add: relative_word_def slot_base_plus Let_def v_def r)
  ultimately show ?thesis
    using assms by (auto simp: bit_and_iff bit_low_mask64 ring_bit_def add.assoc)
qed

lemma build_ack_wf: "wf_ack (build_ack s)"
  by (simp add: wf_ack_def build_ack_def)

lemma build_ack_mask:
  assumes "rs_inv s"
  shows "mask_bit (ack_received_bitmask (build_ack s)) d \<longleftrightarrow> unat (rs_base_seq_no s) + d \<in> got s"
proof -
  have len: "length (rs_ring s) = 16" "unat (rs_window_size s) \<le> 1024"
    using assms by (simp_all add: rs_inv_def rs_pre_def)
  have d: "64 * (d div 64) + d mod 64 = d" by simp
  have "mask_bit (ack_received_bitmask (build_ack s)) d \<longleftrightarrow>
      d div 64 < 16 \<and> bit (relative_word s (d div 64)) (d mod 64)"
    by (auto simp: mask_bit_def build_ack_def nth_append simp del: upt_Suc)
  also have "\<dots> \<longleftrightarrow> d div 64 < 16 \<and> d < unat (rs_window_size s) \<and>
      ring_bit s (unat (rs_base_seq_no s) + d)"
    using bit_relative_word [OF len(1), of "d mod 64" "d div 64"] d by simp
  also have "\<dots> \<longleftrightarrow> unat (rs_base_seq_no s) + d \<in> got s"
    using len(2) by (auto simp: got_def less_mult_imp_div_less)
  finally show ?thesis .
qed

text \<open>
  Read by a sender at \<open>base\<close> .. \<open>next\<close>, the acknowledgement names exactly the sequence
  numbers of that range that the receiver has accepted.
\<close>

lemma acked_build_ack:
  assumes "rs_inv s"
  shows "acked (build_ack s) base next k \<longleftrightarrow> base \<le> k \<and> k < next \<and> unat k \<in> got s"
proof -
  have ab: "ack_base_seq_no (build_ack s) = rs_base_seq_no s" by (simp add: build_ack_def)
  show ?thesis
  proof (cases "k < rs_base_seq_no s")
    case True
    then have "unat k \<in> got s" by (simp add: got_def word_less_nat_alt)
    with True show ?thesis by (simp add: acked_def ab)
  next
    case False
    then have "rs_base_seq_no s \<le> k" by simp
    then have "unat (rs_base_seq_no s) + unat (k - rs_base_seq_no s) = unat k"
      by (simp add: unat_sub word_le_nat_alt)
    with False build_ack_mask [OF assms, of "unat (k - rs_base_seq_no s)"] show ?thesis
      by (simp add: acked_def ab not_less leD)
  qed
qed

section \<open>Negative acknowledgements\<close>

text \<open>
  A gap is due when it was stamped, the reorder delay has passed since, and it was not
  reported within the re-report interval. Positions are relative to the base.
\<close>

definition nack_due :: "ReceiverStream \<Rightarrow> u64 \<Rightarrow> u64 \<Rightarrow> u64 \<Rightarrow> u64 list \<Rightarrow> nat \<Rightarrow> bool" where
  "nack_due s now reorder renack timers d \<longleftrightarrow>
     (let i = (unat (rs_base_seq_no s) + d) mod 1024; first = rs_first_missing_ns s ! i in
      \<not> (first = 0 \<or> now - first < reorder) \<and>
      \<not> (timers ! i \<noteq> 0 \<and> now - timers ! i < renack))"

definition nack_upd ::
  "ReceiverStream \<Rightarrow> u64 \<Rightarrow> u64 \<Rightarrow> u64 \<Rightarrow> nat \<Rightarrow> u64 list \<times> u64 list \<Rightarrow> u64 list \<times> u64 list" where
  "nack_upd s now reorder renack d st =
     (if nack_due s now reorder renack (snd st) d \<and> length (fst st) < kMaxWindow
      then (fst st @ [rs_base_seq_no s + of_nat d],
            (snd st)[(unat (rs_base_seq_no s) + d) mod 1024 := now])
      else st)"

lemma nack_bit_eq:
  "nack_bit s now reorder renack w b st = (nack_upd s now reorder renack (64 * w + b) st, False)"
  using unat_add_mod_1024 [of "rs_base_seq_no s" "64 * w + b"]
  by (simp add: nack_bit_def nack_upd_def nack_due_def Let_def slot_def add.assoc)

lemma nack_fold:
  assumes "distinct (map (\<lambda>d. (unat (rs_base_seq_no s) + d) mod 1024) ds)"
    "length acc + length ds \<le> 1024"
  shows "fst (fold (nack_upd s now reorder renack) ds (acc, timers)) =
     acc @ map (\<lambda>d. rs_base_seq_no s + of_nat d) (filter (nack_due s now reorder renack timers) ds)"
  using assms
proof (induction ds arbitrary: acc timers)
  case (Cons d ds)
  let ?i = "\<lambda>d. (unat (rs_base_seq_no s) + d) mod 1024"
  have same: "nack_due s now reorder renack (timers[?i d := now]) e =
      nack_due s now reorder renack timers e" if "e \<in> set ds" for e
    using that Cons.prems(1) by (auto simp: nack_due_def Let_def nth_list_update_neq image_iff)
  have "filter (nack_due s now reorder renack (timers[?i d := now])) ds =
      filter (nack_due s now reorder renack timers) ds"
    using same by (intro filter_cong) auto
  then show ?case
    using Cons by (auto simp: nack_upd_def)
qed simp

lemma bit_nack_word:
  assumes "length (rs_ring s) = 16" "b < 64" "64 * w \<le> unat span"
  shows "bit (nack_word s span w) b \<longleftrightarrow> 64 * w + b \<le> unat span \<and>
    \<not> (64 * w + b < unat (rs_window_size s) \<and> ring_bit s (unat (rs_base_seq_no s) + (64 * w + b)))"
proof -
  have "push_bit k (2 :: u64) - 1 = bit64 (Suc k) - 1" if "k < 63" for k
    by (simp add: bit64_def push_bit_eq_mult)
  then show ?thesis
    using assms
    by (auto simp: nack_word_def Let_def bit_and_iff bit_not_iff bit_relative_word bit_low_mask64)
qed

lemma upt_split: "i \<le> j \<Longrightarrow> j \<le> k \<Longrightarrow> [i..<k] = [i..<j] @ [j..<k]"
  using upt_add_eq_append [of i j "k - j"] by simp

lemma takeWhile_words:
  assumes "n < 1024"
  shows "takeWhile (\<lambda>w. w * 64 \<le> n) [0..<16] = [0..<n div 64 + 1]"
proof -
  have "[0..<16] = [0..<n div 64 + 1] @ [n div 64 + 1..<16]"
    using assms by (intro upt_split) auto
  moreover have "takeWhile (\<lambda>w. w * 64 \<le> n) ([0..<n div 64 + 1] @ [n div 64 + 1..<16]) = [0..<n div 64 + 1]"
    by (subst takeWhile_append2) (auto simp: takeWhile_eq_Nil_iff less_Suc_eq_le dest!: hd_in_set)
  ultimately show ?thesis by simp
qed

lemma nack_positions:
  assumes inv: "rs_inv s" and span: "unat span < 1024"
  shows "fold (\<lambda>w. bits_loop (nack_bit s now reorder renack w) (nack_word s span w))
      (takeWhile (\<lambda>w. w * 64 \<le> unat span) [0..<kMaskWords]) st =
    fold (nack_upd s now reorder renack)
      (filter (\<lambda>d. unat (rs_base_seq_no s) + d \<notin> got s) [0..<unat span + 1]) st"
proof -
  let ?n = "unat span" and ?b = "unat (rs_base_seq_no s)"
  let ?m = "?n div 64 + 1"
  let ?ws = "map (nack_word s span) [0..<?m]"
  have ring: "length (rs_ring s) = 16" using inv by (simp add: rs_inv_def rs_pre_def)
  have loop: "bits_loop (nack_bit s now reorder renack w) m =
      fold (\<lambda>b. nack_upd s now reorder renack (64 * w + b)) (set_bits_of m)" for w m
  proof -
    have "nack_bit s now reorder renack w =
        (\<lambda>b st. (nack_upd s now reorder renack (64 * w + b) st, False))"
      by (intro ext) (rule nack_bit_eq)
    then show ?thesis by (intro ext) (simp only: bits_loop_eq run_until_no_break)
  qed
  have "fold (\<lambda>w. bits_loop (nack_bit s now reorder renack w) (nack_word s span w))
      (takeWhile (\<lambda>w. w * 64 \<le> ?n) [0..<kMaskWords]) st =
    fold (nack_upd s now reorder renack)
      (concat (map (\<lambda>w. map (\<lambda>b. 64 * w + b) (set_bits_of (?ws ! w))) [0..<?m])) st"
    unfolding fold_concat_map using takeWhile_words [OF span]
    by (auto simp: loop fold_map comp_def intro!: fold_cong simp del: upt_Suc)
  also have "concat (map (\<lambda>w. map (\<lambda>b. 64 * w + b) (set_bits_of (?ws ! w))) [0..<?m]) =
      filter (mask_bit ?ws) [0..<64 * ?m]"
    by (rule mask_enum) simp
  also have "filter (mask_bit ?ws) [0..<64 * ?m] =
      filter (\<lambda>d. d \<le> ?n \<and> ?b + d \<notin> got s) [0..<64 * ?m]"
  proof (rule filter_cong)
    fix d assume "d \<in> set [0..<64 * ?m]"
    then have "d div 64 < ?m" by (auto simp: less_mult_imp_div_less)
    then have d: "d div 64 < ?m" "64 * (d div 64) \<le> ?n"
      using times_div_less_eq_dividend [of 64 ?n] by linarith+
    have e: "64 * (d div 64) + d mod 64 = d" by simp
    have "mask_bit ?ws d \<longleftrightarrow> bit (nack_word s span (d div 64)) (d mod 64)"
      using d by (simp add: mask_bit_def nth_append del: upt_Suc)
    then show "mask_bit ?ws d \<longleftrightarrow> d \<le> ?n \<and> ?b + d \<notin> got s"
      using bit_nack_word [OF ring _ d(2), of "d mod 64"] e by (auto simp: got_def)
  qed simp
  also have "\<dots> = filter (\<lambda>d. ?b + d \<notin> got s) (filter (\<lambda>d. d \<le> ?n) [0..<64 * ?m])"
    by (simp add: conj_commute)
  also have "filter (\<lambda>d. d \<le> ?n) [0..<64 * ?m] = [0..<?n + 1]"
  proof -
    have "?n + 1 \<le> 64 * ?m" 
      using div_mult_mod_eq [of ?n 64] mod_less_divisor [of 64 ?n] by simp
    then have "[0..<64 * ?m] = [0..<?n + 1] @ [?n + 1..<64 * ?m]" by (intro upt_split) auto
    then show ?thesis by (simp add: filter_id_conv filter_empty_conv del: upt_Suc)
  qed
  finally show ?thesis .
qed

text \<open>
  \<^verbatim>\<open>collect_nacks\<close> reports, in order, exactly the gaps below the highest received block that
  are due, and nothing that was accepted.
\<close>

lemma collect_nacks_found:
  assumes inv: "rs_inv s" and any: "rs_lossless s" "rs_have_any s"
    and c: "collect_nacks s now reorder renack out = (s', nk)"
  shows "take (unat (nk_count nk)) (nk_missing nk) =
     map (\<lambda>d. rs_base_seq_no s + of_nat d)
       (filter (nack_due s now reorder renack (rs_last_nack_ns s))
         (filter (\<lambda>d. unat (rs_base_seq_no s) + d \<notin> got s)
           [0..<unat (rs_highest_received s) + 1 - unat (rs_base_seq_no s)]))"
    (is "_ = ?found")
proof (cases "rs_highest_received s < rs_base_seq_no s")
  case True
  then have "unat (rs_highest_received s) + 1 - unat (rs_base_seq_no s) = 0"
    by (simp add: word_less_nat_alt)
  with True c show ?thesis by (auto simp: collect_nacks_def)
next
  case False
  let ?span = "rs_highest_received s - rs_base_seq_no s"
  have le: "rs_base_seq_no s \<le> rs_highest_received s" using False by simp
  then have u: "unat (rs_highest_received s) = unat (rs_base_seq_no s) + unat ?span"
    by (simp add: unat_sub word_le_nat_alt)
  have "unat (rs_highest_received s) \<in> got s" "unat (rs_window_size s) \<le> 1024"
    using inv any(2) by (simp_all add: rs_inv_def rs_pre_def)
  then have span: "unat ?span < 1024" using got_bound [OF inv] u by fastforce
  let ?ds = "filter (\<lambda>d. unat (rs_base_seq_no s) + d \<notin> got s) [0..<unat ?span + 1]"
  let ?res = "fold (nack_upd s now reorder renack) ?ds ([], rs_last_nack_ns s)"
  have "length ?ds \<le> unat ?span + 1" 
    using length_filter_le [of _ "[0..<unat ?span + 1]"] by (simp del: upt_Suc)
  moreover have "inj_on (\<lambda>d. (unat (rs_base_seq_no s) + d) mod 1024) {0..<unat ?span + 1}"
    by (rule inj_onI, erule mod_window_inj) (use span in auto)
  then have "distinct (map (\<lambda>d. (unat (rs_base_seq_no s) + d) mod 1024) ?ds)"
    unfolding distinct_map by (auto elim!: inj_on_subset simp del: upt_Suc)
  ultimately have found: "fst ?res = ?found"
    using nack_fold [of s ?ds "[]" now reorder renack "rs_last_nack_ns s"] span u
    by (simp del: upt_Suc)
  have "length ?found \<le> 1024"
    using span u by (auto intro!: order.trans [OF length_filter_le] simp del: upt_Suc)
  then have short: "take (unat (of_nat (length ?found) :: u16)) (?found @ xs) = ?found" for xs
    by (subst unat_of_nat_u16) auto
  have "nk_count nk = of_nat (length (fst ?res))"
    "nk_missing nk = fst ?res @ drop (length (fst ?res)) (nk_missing out)"
    using c any le nack_positions [OF inv span]
    by (auto simp: collect_nacks_def Let_def case_prod_beta leD simp del: upt_Suc)
  then show ?thesis unfolding found by (simp only: short)
qed

section \<open>Properties\<close>

text \<open>
  C3: receiving refines a set of accepted sequence numbers: a number already in the set is a
  duplicate, one at or beyond the least missing number plus the window is out of window, and
  any other is accepted and inserted. The invariant of the ring, its base and its highest
  number is kept in every case.
\<close>

theorem on_receive_refines_set:
  assumes "rs_inv s" "unat seq + 1 < 2 ^ 64" "on_receive s seq t now = (r, s')"
  shows "rs_inv s' \<and> (r, got s') = spec_receive (got s) (unat (rs_window_size s)) (unat seq) \<and>
    rs_window_size s' = rs_window_size s"
  using assms by (rule on_receive_refines)

lemma got_new: "got (new_receiver sid w l) = {}"
  by (auto simp: got_def new_receiver_def ring_bit_def mask_bit_def)

theorem on_receive_refines_set_witness:
  "\<exists>s'. on_receive (new_receiver 1 8 True) 3 100 200 = (Accepted, s') \<and> got s' = {3} \<and> rs_inv s'"
proof -
  obtain r s' where r: "on_receive (new_receiver 1 8 True) 3 100 200 = (r, s')" by fastforce
  have "rs_inv s' \<and> (r, got s') = spec_receive {} 8 3"
    using on_receive_refines_set [OF rs_inv_new _ r]
    by (simp add: got_new) (simp add: new_receiver_def)
  moreover have "spec_receive {} 8 3 = (Accepted, {3})" by (simp add: spec_receive_def)
  ultimately show ?thesis using r by auto
qed

text \<open>
  C11: an acknowledgement is the exact truth about what was received: read by a sender with
  blocks from \<open>base\<close> up to \<open>next\<close> in flight, it acknowledges a sequence number precisely
  when the receiver has accepted it.
\<close>

theorem ack_is_truthful:
  assumes "rs_inv s"
  shows "wf_ack (build_ack s) \<and>
    (acked (build_ack s) base next k \<longleftrightarrow> base \<le> k \<and> k < next \<and> unat k \<in> got s)"
  using acked_build_ack [OF assms] build_ack_wf by blast

theorem ack_is_truthful_witness:
  "\<not> acked (build_ack (new_receiver 1 8 True)) 0 5 2"
  using ack_is_truthful [OF rs_inv_new, of 1 8 True 0 5 2] by (simp add: got_new)

text \<open>
  C12: on a lossless stream the negative acknowledgement lists, in order, exactly the gaps
  below the highest received block whose reorder delay has passed and that were not reported
  within the re-report interval; it never names a block that was received.
\<close>

theorem nacks_are_due_gaps:
  assumes "rs_inv s" "rs_lossless s" "rs_have_any s"
    "collect_nacks s now reorder renack out = (s', nk)"
  shows "take (unat (nk_count nk)) (nk_missing nk) =
     map (\<lambda>d. rs_base_seq_no s + of_nat d)
       (filter (nack_due s now reorder renack (rs_last_nack_ns s))
         (filter (\<lambda>d. unat (rs_base_seq_no s) + d \<notin> got s)
           [0..<unat (rs_highest_received s) + 1 - unat (rs_base_seq_no s)]))"
  using assms by (rule collect_nacks_found)

theorem nacks_are_due_gaps_witness:
  "\<exists>s s' nk. on_receive (new_receiver 1 8 True) 3 100 200 = (Accepted, s) \<and>
     collect_nacks s 1000 50 50 \<lparr>nk_stream_id = 0, nk_count = 0, nk_missing = replicate 1024 0\<rparr> = (s', nk) \<and>
     take (unat (nk_count nk)) (nk_missing nk) =
       map of_nat (filter (nack_due s 1000 50 50 (rs_last_nack_ns s)) [0, 1, 2])"
proof -
  let ?n = "new_receiver 1 8 True"
  let ?s = "slide_base (received ?n 3 100 200)"
  have rt: "\<not> ring_test ?n 3"
    using got_new [of 1 8 True] ring_test_in_window(1) [OF rs_inv_new, of 1 8 True 3]
    by (simp add: new_receiver_def clamp_window_def)
  then have a: "on_receive ?n 3 100 200 = (Accepted, ?s)"
    by (simp add: on_receive_eq) (simp add: new_receiver_def clamp_window_def)
  have r: "rs_inv ?s" "got ?s = {3}"
    using on_receive_refines [OF rs_inv_new _ a] by (auto simp: got_new spec_receive_def split: if_splits)
  have "unat (rs_base_seq_no ?s) = 0"
    unfolding base_least [OF r(1)] r(2) by (rule Least_equality) auto
  then have b: "rs_base_seq_no ?s = 0" by (simp add: unat_eq_0)
  have k: "rs_lossless ?s" "rs_have_any ?s" "rs_highest_received ?s = 3"
    by (simp_all add: slide_base_keeps) (simp_all add: new_receiver_def)
  let ?out = "\<lparr>nk_stream_id = 0, nk_count = 0, nk_missing = replicate 1024 0\<rparr> :: Nack"
  obtain s' nk where c: "collect_nacks ?s 1000 50 50 ?out = (s', nk)" by fastforce
  have e: "filter (\<lambda>d. d \<notin> {3}) [0..<3 + 1] = [0, 1, 2]" by (simp add: upt_rec)
  have "take (unat (nk_count nk)) (nk_missing nk) =
      map of_nat (filter (nack_due ?s 1000 50 50 (rs_last_nack_ns ?s)) (filter (\<lambda>d. d \<notin> {3}) [0..<3 + 1]))"
    using nacks_are_due_gaps [OF r(1) k(1,2) c] by (simp add: b k(3) r(2) del: upt_Suc)
  then show ?thesis unfolding e using a c by blast
qed

end
