(* ===== verification/Reassembly.thy ===== *)
theory Reassembly
  imports Receiver Setup
begin

text \<open>
  Receiver-side delivery (\<^verbatim>\<open>include/fuse/proto/reassembly.hpp\<close>, \<^verbatim>\<open>src/proto/reassembly.cpp\<close>).
  An unordered stream delivers a block when it arrives and keeps a ring of what it has seen;
  an ordered stream delivers in sequence and keeps a ring of slots for early blocks. Both write
  payloads into the caller's sink (\<^term>\<open>None\<close> for a null sink or payload) at the offset the block
  carries.

  The duplicate ring of the unordered mode is the ring of \<open>ReceiverStream\<close> with the largest
  window; \<open>as_receiver\<close> makes that correspondence explicit and its refinement theorem is reused.
\<close>

section \<open>State and operations\<close>

record ReassemblySlot =
  rsl_seq_no :: u64
  rsl_len :: u16
  rsl_valid :: bool

record ReassemblyStream =
  ra_ordered :: bool
  ra_sink :: "byte list option"
  ra_sink_cap :: nat
  ra_total_blocks :: u64
  ra_delivered_count :: u64
  ra_delivery_order :: "u64 list"
  ra_unordered_low :: u64
  ra_unordered_seen :: "u64 list"
  ra_next_expected :: u64
  ra_buffer :: "ReassemblySlot list"

definition kMaxDeliveryTrace :: nat where [simp]: "kMaxDeliveryTrace = 65536"

definition new_reassembly :: "StreamConfig \<Rightarrow> byte list option \<Rightarrow> nat \<Rightarrow> u64 \<Rightarrow> ReassemblyStream" where
  "new_reassembly config sink cap total_blocks =
     \<lparr>ra_ordered = (cfg_stream_flags config AND kStreamFlagOrdered \<noteq> 0), ra_sink = sink,
      ra_sink_cap = cap, ra_total_blocks = total_blocks, ra_delivered_count = 0, ra_delivery_order = [],
      ra_unordered_low = 0, ra_unordered_seen = replicate kMaskWords 0, ra_next_expected = 0,
      ra_buffer = replicate kMaxWindow \<lparr>rsl_seq_no = 0, rsl_len = 0, rsl_valid = False\<rparr>\<rparr>"

definition is_complete :: "ReassemblyStream \<Rightarrow> bool" where
  "is_complete r \<longleftrightarrow> ra_total_blocks r \<noteq> 0 \<and> ra_delivered_count r = ra_total_blocks r"

definition ra_record :: "u64 \<Rightarrow> ReassemblyStream \<Rightarrow> ReassemblyStream" where
  "ra_record seq r =
     (let r = (if length (ra_delivery_order r) < kMaxDeliveryTrace
               then r\<lparr>ra_delivery_order := ra_delivery_order r @ [seq]\<rparr> else r)
      in r\<lparr>ra_delivered_count := ra_delivered_count r + 1\<rparr>)"

definition write_sink ::
  "u64 \<Rightarrow> byte list option \<Rightarrow> u16 \<Rightarrow> ReassemblyStream \<Rightarrow> ReassemblyStream" where
  "write_sink ofs payload len r =
     (case (ra_sink r, payload) of
        (Some sink, Some bytes) \<Rightarrow>
          if len > 0 \<and> unat ofs \<le> ra_sink_cap r \<and> unat len \<le> ra_sink_cap r - unat ofs
          then r\<lparr>ra_sink := Some (take (unat ofs) sink @ take (unat len) bytes
                                    @ drop (unat ofs + unat len) sink)\<rparr>
          else r
      | _ \<Rightarrow> r)"

definition deliver ::
  "u64 \<Rightarrow> u64 \<Rightarrow> byte list option \<Rightarrow> u16 \<Rightarrow> ReassemblyStream \<Rightarrow> ReassemblyStream" where
  "deliver seq ofs payload len r = ra_record seq (write_sink ofs payload len r)"

text \<open>The pair \<^verbatim>\<open>bit(s)\<close> of the source: the word of the ring and the mask within it.\<close>

definition seen_test :: "u64 list \<Rightarrow> u64 \<Rightarrow> bool" where
  "seen_test seen s \<longleftrightarrow>
     slot s div 64 < length seen \<and> seen ! (slot s div 64) AND bit64 (unat s mod 64) \<noteq> 0"

function slide_low :: "u64 \<Rightarrow> u64 list \<Rightarrow> u64 \<times> u64 list" where
  "slide_low low seen =
     (if seen_test seen low
      then slide_low (low + 1)
             (seen[slot low div 64 := (seen ! (slot low div 64)) AND NOT (bit64 (unat low mod 64))])
      else (low, seen))"
  by pat_completeness auto
termination
  by (relation "measure (\<lambda>(low, seen). ring_population seen)")
     (auto simp: seen_test_def test_bit64 intro!: ring_population_clear)

declare slide_low.simps [simp del]

definition on_block_unordered ::
  "ReassemblyStream \<Rightarrow> u64 \<Rightarrow> u64 \<Rightarrow> byte list option \<Rightarrow> u16 \<Rightarrow> nat \<times> ReassemblyStream" where
  "on_block_unordered r seq ofs payload len =
     (if seq < ra_unordered_low r \<or> unat (seq - ra_unordered_low r) \<ge> kMaxWindow then (0, r)
      else if seen_test (ra_unordered_seen r) seq then (0, r)
      else
        let seen = ra_unordered_seen r;
            seen = seen[slot seq div 64 := (seen ! (slot seq div 64)) OR bit64 (unat seq mod 64)];
            (low, seen) = slide_low (ra_unordered_low r) seen
        in (1, deliver seq ofs payload len (r\<lparr>ra_unordered_low := low, ra_unordered_seen := seen\<rparr>)))"

definition buffered :: "ReassemblyStream \<Rightarrow> u64 \<Rightarrow> bool" where
  "buffered r seq \<longleftrightarrow>
     slot seq < length (ra_buffer r) \<and>
     rsl_valid (ra_buffer r ! slot seq) \<and> rsl_seq_no (ra_buffer r ! slot seq) = seq"

definition valid_slots :: "ReassemblySlot list \<Rightarrow> nat" where
  "valid_slots xs = length (filter rsl_valid xs)"

lemma valid_slots_clear:
  "i < length xs \<Longrightarrow> rsl_valid (xs ! i) \<Longrightarrow> valid_slots (xs[i := (xs ! i)\<lparr>rsl_valid := False\<rparr>]) < valid_slots xs"
proof -
  assume i: "i < length xs" and v: "rsl_valid (xs ! i)"
  have "xs = take i xs @ xs ! i # drop (Suc i) xs" using i by (simp add: id_take_nth_drop)
  then have "valid_slots xs = valid_slots (take i xs @ xs ! i # drop (Suc i) xs)" by simp
  then show ?thesis using i v by (simp add: valid_slots_def upd_conv_take_nth_drop)
qed

text \<open>One turn of the drain loop, and the loop; it returns how many slots it surfaced.\<close>

definition drain_slot :: "ReassemblyStream \<Rightarrow> ReassemblyStream" where
  "drain_slot r =
     (let i = slot (ra_next_expected r);
          r' = ra_record (rsl_seq_no (ra_buffer r ! i)) r
      in r'\<lparr>ra_buffer := (ra_buffer r)[i := (ra_buffer r ! i)\<lparr>rsl_valid := False\<rparr>],
            ra_next_expected := ra_next_expected r + 1\<rparr>)"

function drain :: "ReassemblyStream \<Rightarrow> nat \<Rightarrow> nat \<times> ReassemblyStream" where
  "drain r surfaced =
     (if buffered r (ra_next_expected r) then drain (drain_slot r) (surfaced + 1) else (surfaced, r))"
  by pat_completeness auto
termination
  by (relation "measure (\<lambda>(r, n). valid_slots (ra_buffer r))")
     (auto simp: buffered_def drain_slot_def Let_def intro!: valid_slots_clear)

declare drain.simps [simp del]

definition on_block_ordered ::
  "ReassemblyStream \<Rightarrow> u64 \<Rightarrow> u64 \<Rightarrow> byte list option \<Rightarrow> u16 \<Rightarrow> nat \<times> ReassemblyStream" where
  "on_block_ordered r seq ofs payload len =
     (if seq < ra_next_expected r then (0, r)
      else if seq > ra_next_expected r
      then (if unat (seq - ra_next_expected r) < kMaxWindow
            then (if \<not> buffered r seq
                  then let r = write_sink ofs payload len r in
                       (0, r\<lparr>ra_buffer := (ra_buffer r)[slot seq :=
                              \<lparr>rsl_seq_no = seq, rsl_len = len, rsl_valid = True\<rparr>]\<rparr>)
                  else (0, r))
            else (0, r))
      else
        let r = deliver seq ofs payload len r;
            r = r\<lparr>ra_next_expected := ra_next_expected r + 1\<rparr>
        in drain r 1)"

definition on_block ::
  "ReassemblyStream \<Rightarrow> u64 \<Rightarrow> u64 \<Rightarrow> byte list option \<Rightarrow> u16 \<Rightarrow> nat \<times> ReassemblyStream" where
  "on_block r seq ofs payload len =
     (if \<not> ra_ordered r then on_block_unordered r seq ofs payload len
      else on_block_ordered r seq ofs payload len)"

section \<open>The unordered mode is the receiver's ring\<close>

definition as_receiver :: "u64 \<Rightarrow> u64 list \<Rightarrow> u64 \<Rightarrow> bool \<Rightarrow> ReceiverStream" where
  "as_receiver low seen highest any =
     (new_receiver 0 1024 True)\<lparr>rs_base_seq_no := low, rs_ring := seen,
        rs_highest_received := highest, rs_have_any := any\<rparr>"

lemma as_receiver_simps [simp]:
  "rs_base_seq_no (as_receiver low seen h any) = low" "rs_ring (as_receiver low seen h any) = seen"
  "rs_highest_received (as_receiver low seen h any) = h" "rs_have_any (as_receiver low seen h any) = any"
  "rs_window_size (as_receiver low seen h any) = 1024"
  by (simp_all add: as_receiver_def new_receiver_def clamp_window_def)

lemma as_receiver_of:
  assumes "rs_window_size s = 1024"
  shows "rs_inv s \<Longrightarrow> rs_inv (as_receiver (rs_base_seq_no s) (rs_ring s) (rs_highest_received s) (rs_have_any s))"
    and "got (as_receiver (rs_base_seq_no s) (rs_ring s) h any) = got s"
proof -
  have b: "ring_bit (as_receiver (rs_base_seq_no s) (rs_ring s) h any) n = ring_bit s n" for h any n
    by (simp add: ring_bit_def)
  show g: "got (as_receiver (rs_base_seq_no s) (rs_ring s) h any) = got s" for h any
    using assms by (simp add: got_def b)
  have "length (rs_first_missing_ns (as_receiver l r h a)) = 1024"
    "length (rs_last_nack_ns (as_receiver l r h a)) = 1024" for l r h a
    by (simp_all add: as_receiver_def new_receiver_def)
  then show "rs_inv s \<Longrightarrow> rs_inv (as_receiver (rs_base_seq_no s) (rs_ring s) (rs_highest_received s) (rs_have_any s))"
    using assms unfolding rs_inv_def rs_pre_def by (simp add: g b)
qed

lemma rs_ring_received:
  "rs_ring (received s seq t now) =
     (rs_ring s)[slot seq div 64 := (rs_ring s ! (slot seq div 64)) OR bit64 (slot seq mod 64)]"
  by (simp add: received_def Let_def)

lemma seen_test_eq: "seen_test (rs_ring s) seq = ring_test s seq"
proof -
  have "unat seq mod 64 = slot seq mod 64" by (simp add: slot_def mod_mod_cancel)
  then show ?thesis by (simp add: seen_test_def ring_test_def)
qed

lemma slide_low_eq:
  "slide_low (rs_base_seq_no s) (rs_ring s) = (rs_base_seq_no (slide_base s), rs_ring (slide_base s))"
proof (induction s rule: slide_base.induct)
  case (1 s)
  have m: "unat (rs_base_seq_no s) mod 64 = slot (rs_base_seq_no s) mod 64"
    by (simp add: slot_def mod_mod_cancel)
  show ?case
  proof (cases "ring_test s (rs_base_seq_no s)")
    case True
    with 1 show ?thesis
      by (subst slide_low.simps) (simp add: slide_base.simps [of s] seen_test_eq clear_slot_def Let_def m)
  next
    case False
    then show ?thesis
      by (subst slide_low.simps) (simp add: slide_base.simps [of s] seen_test_eq)
  qed
qed

lemma on_block_unordered_eq:
  assumes "on_receive (as_receiver (ra_unordered_low r) (ra_unordered_seen r) h any) seq t now = (res, s')"
  shows "on_block_unordered r seq ofs p len =
    (if res = Accepted
     then (1, deliver seq ofs p len (r\<lparr>ra_unordered_low := rs_base_seq_no s', ra_unordered_seen := rs_ring s'\<rparr>))
     else (0, r))"
    and "res \<noteq> Accepted \<Longrightarrow> rs_base_seq_no s' = ra_unordered_low r \<and> rs_ring s' = ra_unordered_seen r"
proof -
  let ?s = "as_receiver (ra_unordered_low r) (ra_unordered_seen r) h any"
  have m: "unat seq mod 64 = slot seq mod 64" by (simp add: slot_def mod_mod_cancel)
  have t: "seen_test (ra_unordered_seen r) seq = ring_test ?s seq"
    using seen_test_eq [of ?s] by simp
  have sl: "slide_low (ra_unordered_low r) ((ra_unordered_seen r)[slot seq div 64 :=
      (ra_unordered_seen r ! (slot seq div 64)) OR bit64 (unat seq mod 64)]) =
    (rs_base_seq_no (slide_base (received ?s seq t now)), rs_ring (slide_base (received ?s seq t now)))"
    using slide_low_eq [of "received ?s seq t now"] by (simp add: rs_ring_received m)
  show "on_block_unordered r seq ofs p len =
    (if res = Accepted
     then (1, deliver seq ofs p len (r\<lparr>ra_unordered_low := rs_base_seq_no s', ra_unordered_seen := rs_ring s'\<rparr>))
     else (0, r))"
    using assms unfolding on_receive_eq
    by (auto simp: on_block_unordered_def t sl split: if_splits)
  show "res \<noteq> Accepted \<Longrightarrow> rs_base_seq_no s' = ra_unordered_low r \<and> rs_ring s' = ra_unordered_seen r"
    using assms unfolding on_receive_eq by (auto split: if_splits)
qed

section \<open>What a stream has taken and delivered\<close>

definition unordered_got :: "ReassemblyStream \<Rightarrow> nat set" where
  "unordered_got r = got (as_receiver (ra_unordered_low r) (ra_unordered_seen r) 0 False)"

definition ra_delivered :: "ReassemblyStream \<Rightarrow> nat set" where
  "ra_delivered r = (if ra_ordered r then {..<unat (ra_next_expected r)} else unordered_got r)"

definition ra_taken :: "ReassemblyStream \<Rightarrow> nat set" where
  "ra_taken r = ra_delivered r \<union> (if ra_ordered r then {unat s |s. buffered r s} else {})"

text \<open>Slots in use hold early blocks, each at its own place; \<open>lo\<close> bounds them from below.\<close>

definition slots_ok :: "nat \<Rightarrow> ReassemblyStream \<Rightarrow> bool" where
  "slots_ok lo r \<longleftrightarrow> length (ra_buffer r) = 1024 \<and>
     (\<forall>i < 1024. rsl_valid (ra_buffer r ! i) \<longrightarrow>
        slot (rsl_seq_no (ra_buffer r ! i)) = i \<and> lo \<le> unat (rsl_seq_no (ra_buffer r ! i)) \<and>
        unat (rsl_seq_no (ra_buffer r ! i)) < unat (ra_next_expected r) + 1024 \<and>
        unat (rsl_seq_no (ra_buffer r ! i)) + 1 < 2 ^ 64)"

definition trace_ok :: "ReassemblyStream \<Rightarrow> bool" where
  "trace_ok r \<longleftrightarrow> ra_delivered_count r = ra_next_expected r \<and>
     ra_delivery_order r = map of_nat [0..<min kMaxDeliveryTrace (unat (ra_next_expected r))]"

definition ra_inv :: "ReassemblyStream \<Rightarrow> bool" where
  "ra_inv r \<longleftrightarrow>
     (if ra_ordered r then slots_ok (unat (ra_next_expected r) + 1) r \<and> trace_ok r
      else (\<exists>h any. rs_inv (as_receiver (ra_unordered_low r) (ra_unordered_seen r) h any)) \<and>
           ra_delivered_count r = of_nat (card (unordered_got r)))"

lemma unat_neqI: "a \<noteq> b \<Longrightarrow> unat a \<noteq> unat b"
  by (simp add: word_unat_eq_iff)

lemma slot_lt: "slot s < 1024"
  by (simp add: slot_def)

lemma buffered_iff:
  assumes "slots_ok lo r"
  shows "buffered r s \<longleftrightarrow> rsl_valid (ra_buffer r ! slot s) \<and> rsl_seq_no (ra_buffer r ! slot s) = s"
  using assms by (auto simp: buffered_def slots_ok_def slot_def)

lemma slots_okD:
  assumes "slots_ok lo r" "buffered r s"
  shows "lo \<le> unat s" "unat s < unat (ra_next_expected r) + 1024" "unat s + 1 < 2 ^ 64"
  using assms slot_lt [of s] unfolding slots_ok_def buffered_def by force+

lemma trace_ok_record:
  assumes "trace_ok r" "unat (ra_next_expected r) + 1 < 2 ^ 64"
  shows "trace_ok ((ra_record (ra_next_expected r) r)\<lparr>ra_next_expected := ra_next_expected r + 1, ra_buffer := b\<rparr>)"
proof -
  have u: "unat (ra_next_expected r + 1) = unat (ra_next_expected r) + 1"
    using unat_add_lt [of "ra_next_expected r" 1] assms(2) by simp
  show ?thesis
  proof (cases "unat (ra_next_expected r) < kMaxDeliveryTrace")
    case True
    then have "min kMaxDeliveryTrace (unat (ra_next_expected r) + 1) = unat (ra_next_expected r) + 1"
      "min kMaxDeliveryTrace (unat (ra_next_expected r)) = unat (ra_next_expected r)"
      by (simp_all del: kMaxDeliveryTrace_def)
    with True show ?thesis
      using assms(1) by (simp add: trace_ok_def ra_record_def Let_def u del: kMaxDeliveryTrace_def)
  next
    case False
    then show ?thesis
      using assms(1) by (simp add: trace_ok_def ra_record_def Let_def u del: kMaxDeliveryTrace_def)
  qed
qed

lemma drain_slot_step:
  assumes ok: "slots_ok (unat (ra_next_expected r)) r" and b: "buffered r (ra_next_expected r)"
    and t: "trace_ok r"
  shows "slots_ok (unat (ra_next_expected (drain_slot r))) (drain_slot r)"
    "trace_ok (drain_slot r)" "ra_taken (drain_slot r) = ra_taken r"
    "unat (ra_next_expected (drain_slot r)) = unat (ra_next_expected r) + 1"
proof -
  let ?n = "ra_next_expected r"
  let ?i = "slot ?n"
  have big: "unat ?n + 1 < 2 ^ 64" using slots_okD [OF ok b] by simp
  then have u: "unat (?n + 1) = unat ?n + 1" using unat_add_lt [of ?n 1] by simp
  have at: "rsl_valid (ra_buffer r ! ?i)" "rsl_seq_no (ra_buffer r ! ?i) = ?n" "length (ra_buffer r) = 1024"
    using b ok by (auto simp: buffered_def slots_ok_def)
  have ds: "drain_slot r = (ra_record ?n r)\<lparr>ra_next_expected := ?n + 1,
      ra_buffer := (ra_buffer r)[?i := (ra_buffer r ! ?i)\<lparr>rsl_valid := False\<rparr>]\<rparr>"
    by (simp add: drain_slot_def Let_def at)
  show n: "unat (ra_next_expected (drain_slot r)) = unat ?n + 1" by (simp add: ds u)
  show "trace_ok (drain_slot r)" using trace_ok_record [OF t big] by (simp add: ds)
  have bs: "buffered (drain_slot r) s \<longleftrightarrow> buffered r s \<and> s \<noteq> ?n" for s
  proof (cases "slot s = ?i")
    case True
    then have "s \<noteq> ?n \<Longrightarrow> \<not> buffered r s" using at by (simp add: buffered_def)
    with True show ?thesis using at slot_lt [of ?n] by (auto simp: ds buffered_def)
  next
    case False
    then have "s \<noteq> ?n" by auto
    with False show ?thesis by (simp add: ds buffered_def)
  qed
  have ord: "ra_ordered (drain_slot r) = ra_ordered r" "ra_unordered_low (drain_slot r) = ra_unordered_low r"
    "ra_unordered_seen (drain_slot r) = ra_unordered_seen r"
    by (simp_all add: ds ra_record_def Let_def)
  show "ra_taken (drain_slot r) = ra_taken r"
    using b by (auto simp: ra_taken_def ra_delivered_def n ord bs unordered_got_def less_Suc_eq)
  show "slots_ok (unat (ra_next_expected (drain_slot r))) (drain_slot r)"
    unfolding slots_ok_def
  proof (intro conjI allI impI)
    fix i assume i: "i < 1024" "rsl_valid (ra_buffer (drain_slot r) ! i)"
    let ?s = "rsl_seq_no (ra_buffer r ! i)"
    have ne: "?i \<noteq> i" using i at by (auto simp: ds)
    then have e: "ra_buffer (drain_slot r) ! i = ra_buffer r ! i" by (simp add: ds)
    then have v: "rsl_valid (ra_buffer r ! i)" using i by simp
    have s: "slot ?s = i" "unat ?n \<le> unat ?s" "unat ?s < unat ?n + 1024" "unat ?s + 1 < 2 ^ 64"
      using ok i(1) v by (auto simp: slots_ok_def)
    have "?s \<noteq> ?n" using s(1) ne by auto
    then have "unat ?s \<noteq> unat ?n" by (rule unat_neqI)
    with s show "slot (rsl_seq_no (ra_buffer (drain_slot r) ! i)) = i"
      "unat (ra_next_expected (drain_slot r)) \<le> unat (rsl_seq_no (ra_buffer (drain_slot r) ! i))"
      "unat (rsl_seq_no (ra_buffer (drain_slot r) ! i)) < unat (ra_next_expected (drain_slot r)) + 1024"
      "unat (rsl_seq_no (ra_buffer (drain_slot r) ! i)) + 1 < 2 ^ 64"
      unfolding e n by simp_all
  qed (simp add: ds at)
qed

lemma drain_keeps [simp]: "ra_ordered (drain_slot r) = ra_ordered r"
  "ra_sink (drain_slot r) = ra_sink r" "ra_sink_cap (drain_slot r) = ra_sink_cap r"
  by (simp_all add: drain_slot_def ra_record_def Let_def)

lemma drain_correct:
  assumes "slots_ok (unat (ra_next_expected r)) r" "trace_ok r" "drain r n = (n', r')"
  shows "slots_ok (unat (ra_next_expected r') + 1) r' \<and> trace_ok r' \<and> ra_taken r' = ra_taken r \<and>
     ra_ordered r' = ra_ordered r \<and> ra_sink r' = ra_sink r \<and> ra_sink_cap r' = ra_sink_cap r \<and>
     unat (ra_next_expected r) \<le> unat (ra_next_expected r') \<and>
     n' = n + (unat (ra_next_expected r') - unat (ra_next_expected r))"
  using assms
proof (induction r n arbitrary: n' r' rule: drain.induct)
  case (1 r n)
  show ?case
  proof (cases "buffered r (ra_next_expected r)")
    case True
    note st = drain_slot_step [OF "1.prems"(1) True "1.prems"(2)]
    have "drain (drain_slot r) (n + 1) = (n', r')"
      using True "1.prems"(3) by (simp add: drain.simps [of r])
    from "1.IH" [OF True st(1,2) this] st(3,4) show ?thesis
      by (auto simp: Suc_diff_Suc)
  next
    case False
    then have e: "r' = r" "n' = n" using "1.prems"(3) by (simp_all add: drain.simps [of r])
    have "unat (rsl_seq_no (ra_buffer r ! i)) \<noteq> unat (ra_next_expected r)"
      if "i < 1024" "rsl_valid (ra_buffer r ! i)" for i
    proof
      assume "unat (rsl_seq_no (ra_buffer r ! i)) = unat (ra_next_expected r)"
      then have "rsl_seq_no (ra_buffer r ! i) = ra_next_expected r" by (simp only: word_unat_eq_iff)
      with that False "1.prems"(1) show False unfolding buffered_def slots_ok_def by fastforce
    qed
    then have "slots_ok (unat (ra_next_expected r) + 1) r"
      using "1.prems"(1) unfolding slots_ok_def by (metis Suc_eq_plus1 Suc_leI le_neq_implies_less)
    with e "1.prems"(2) show ?thesis by simp
  qed
qed

section \<open>Delivery\<close>

lemma write_sink_keeps [simp]:
  "ra_ordered (write_sink f p l r) = ra_ordered r" "ra_next_expected (write_sink f p l r) = ra_next_expected r"
  "ra_buffer (write_sink f p l r) = ra_buffer r" "ra_delivered_count (write_sink f p l r) = ra_delivered_count r"
  "ra_delivery_order (write_sink f p l r) = ra_delivery_order r" "ra_total_blocks (write_sink f p l r) = ra_total_blocks r"
  "ra_unordered_low (write_sink f p l r) = ra_unordered_low r" "ra_sink_cap (write_sink f p l r) = ra_sink_cap r"
  "ra_unordered_seen (write_sink f p l r) = ra_unordered_seen r"
  by (simp_all add: write_sink_def split: option.splits)

lemma ra_record_keeps [simp]:
  "ra_ordered (ra_record q r) = ra_ordered r" "ra_next_expected (ra_record q r) = ra_next_expected r"
  "ra_buffer (ra_record q r) = ra_buffer r" "ra_delivered_count (ra_record q r) = ra_delivered_count r + 1"
  "ra_sink (ra_record q r) = ra_sink r" "ra_total_blocks (ra_record q r) = ra_total_blocks r"
  "ra_unordered_low (ra_record q r) = ra_unordered_low r" "ra_sink_cap (ra_record q r) = ra_sink_cap r"
  "ra_unordered_seen (ra_record q r) = ra_unordered_seen r"
  by (simp_all add: ra_record_def Let_def)

lemma next_not_taken: "ra_ordered r \<Longrightarrow> slots_ok (unat (ra_next_expected r) + 1) r \<Longrightarrow>
    unat (ra_next_expected r) = (LEAST k. k \<notin> ra_taken r)"
  by (rule sym, rule Least_equality)
     (fastforce simp: ra_taken_def ra_delivered_def dest: slots_okD(1),
      simp add: ra_taken_def ra_delivered_def not_less)

lemma taken_ordered_iff:
  "ra_ordered r \<Longrightarrow> unat s \<in> ra_taken r \<longleftrightarrow> s < ra_next_expected r \<or> buffered r s"
  by (auto simp: ra_taken_def ra_delivered_def word_less_nat_alt) (metis word_unat_eq_iff)

lemma buffer_early:
  fixes l :: u16
  assumes ok: "slots_ok (unat (ra_next_expected r) + 1) r" and o: "ra_ordered r"
    and nb: "\<not> buffered r s" and lo: "ra_next_expected r < s"
    and hi: "unat (s - ra_next_expected r) < 1024" and big: "unat s + 1 < 2 ^ 64"
  defines "r' \<equiv> r\<lparr>ra_buffer := (ra_buffer r)[slot s := \<lparr>rsl_seq_no = s, rsl_len = l, rsl_valid = True\<rparr>]\<rparr>"
  shows "slots_ok (unat (ra_next_expected r') + 1) r'" "ra_taken r' = insert (unat s) (ra_taken r)"
proof -
  have len: "length (ra_buffer r) = 1024" using ok by (simp add: slots_ok_def)
  have u: "unat (ra_next_expected r) < unat s" "unat s < unat (ra_next_expected r) + 1024"
    using lo hi by (auto simp: word_less_nat_alt unat_sub word_le_nat_alt)
  have free: "\<not> rsl_valid (ra_buffer r ! slot s)"
  proof
    assume v: "rsl_valid (ra_buffer r ! slot s)"
    let ?t = "rsl_seq_no (ra_buffer r ! slot s)"
    have t: "slot ?t = slot s" "unat (ra_next_expected r) < unat ?t" "unat ?t < unat (ra_next_expected r) + 1024"
      using ok v slot_lt [of s] unfolding slots_ok_def by auto
    let ?n = "unat (ra_next_expected r)"
    have "(?n + (unat ?t - ?n)) mod 1024 = (?n + (unat s - ?n)) mod 1024"
      using t(1,2) u(1) by (simp add: slot_def)
    from mod_window_inj [OF this] have "unat ?t - ?n = unat s - ?n" using t u by linarith
    then have "unat ?t = unat s" using t u by linarith
    then have "?t = s" by (simp only: word_unat_eq_iff)
    with v nb len slot_lt [of s] show False by (simp add: buffered_def)
  qed
  have b: "buffered r' q \<longleftrightarrow> buffered r q \<or> q = s" for q
  proof (cases "slot q = slot s")
    case True
    then have "\<not> buffered r q" using free by (simp add: buffered_def)
    with True show ?thesis using len slot_lt [of s] by (auto simp: r'_def buffered_def)
  qed (auto simp: r'_def buffered_def)
  show "ra_taken r' = insert (unat s) (ra_taken r)"
    using o by (auto simp: ra_taken_def ra_delivered_def b) (auto simp: r'_def)
  show "slots_ok (unat (ra_next_expected r') + 1) r'"
    unfolding slots_ok_def
  proof (intro conjI allI impI)
    fix i assume i: "i < 1024" "rsl_valid (ra_buffer r' ! i)"
    show "slot (rsl_seq_no (ra_buffer r' ! i)) = i"
      "unat (ra_next_expected r') + 1 \<le> unat (rsl_seq_no (ra_buffer r' ! i))"
      "unat (rsl_seq_no (ra_buffer r' ! i)) < unat (ra_next_expected r') + 1024"
      "unat (rsl_seq_no (ra_buffer r' ! i)) + 1 < 2 ^ 64"
      using i ok u big len unfolding r'_def slots_ok_def by (cases "i = slot s"; simp)+
  qed (simp add: r'_def len)
qed

definition block_step ::
  "ReassemblyStream \<Rightarrow> u64 \<Rightarrow> u64 \<Rightarrow> byte list option \<Rightarrow> u16 \<Rightarrow> ReassemblyStream \<Rightarrow> bool" where
  "block_step r seq ofs p len r' \<longleftrightarrow>
     (let (res, T) = spec_receive (ra_taken r) 1024 (unat seq) in
      ra_inv r' \<and> ra_ordered r' = ra_ordered r \<and> ra_taken r' = T \<and>
      ra_sink_cap r' = ra_sink_cap r \<and>
      ra_sink r' = (if res = Accepted then ra_sink (write_sink ofs p len r) else ra_sink r))"

lemma block_step_skip:
  "ra_inv r \<Longrightarrow> spec_receive (ra_taken r) 1024 (unat seq) = (res, ra_taken r) \<Longrightarrow> res \<noteq> Accepted \<Longrightarrow>
     block_step r seq ofs p len r"
  by (simp add: block_step_def)

lemma spec_receive_ordered:
  assumes "ra_ordered r" "slots_ok (unat (ra_next_expected r) + 1) r"
  shows "spec_receive (ra_taken r) 1024 (unat seq) =
    (if seq < ra_next_expected r \<or> buffered r seq then (Duplicate, ra_taken r)
     else if unat (ra_next_expected r) + 1024 \<le> unat seq then (OutOfWindow, ra_taken r)
     else (Accepted, insert (unat seq) (ra_taken r)))"
  using next_not_taken [OF assms] taken_ordered_iff [OF assms(1), of seq] by (simp add: spec_receive_def)

lemma on_block_ordered_refines:
  assumes inv: "ra_inv r" and o: "ra_ordered r" and big: "unat seq + 1 < 2 ^ 64"
    and eq: "on_block_ordered r seq ofs p len = (n, r')"
  shows "block_step r seq ofs p len r' \<and> unat (ra_next_expected r) \<le> unat (ra_next_expected r') \<and>
    n = unat (ra_next_expected r') - unat (ra_next_expected r)"
proof -
  have ok: "slots_ok (unat (ra_next_expected r) + 1) r" and t: "trace_ok r"
    using inv o by (simp_all add: ra_inv_def)
  note spec = spec_receive_ordered [OF o ok, of seq]
  consider (old) "seq < ra_next_expected r"
    | (far) "ra_next_expected r < seq" "1024 \<le> unat (seq - ra_next_expected r)"
    | (dup) "ra_next_expected r < seq" "unat (seq - ra_next_expected r) < 1024" "buffered r seq"
    | (early) "ra_next_expected r < seq" "unat (seq - ra_next_expected r) < 1024" "\<not> buffered r seq"
    | (now) "seq = ra_next_expected r"
    using not_less_iff_gr_or_eq not_less by blast
  then show ?thesis
  proof cases
    case far
    then have f: "unat (ra_next_expected r) + 1024 \<le> unat seq" "\<not> buffered r seq"
      using slots_okD(2) [OF ok, of seq] by (auto simp: word_less_nat_alt unat_sub word_le_nat_alt)
    moreover have "r' = r" "n = 0" using far less_not_sym [OF far(1)] eq by (auto simp: on_block_ordered_def)
    ultimately show ?thesis
      using far(1) less_not_sym [OF far(1)] inv block_step_skip [of r seq OutOfWindow] by (simp add: spec)
  next
    case early
    have in_win: "\<not> unat (ra_next_expected r) + 1024 \<le> unat seq"
      using early by (auto simp: word_less_nat_alt unat_sub word_le_nat_alt)
    have w: "slots_ok lo (write_sink ofs p len r) = slots_ok lo r" "buffered (write_sink ofs p len r) = buffered r"
      "ra_taken (write_sink ofs p len r) = ra_taken r" "trace_ok (write_sink ofs p len r) = trace_ok r" for lo
      by (simp_all add: slots_ok_def buffered_def [abs_def] ra_taken_def ra_delivered_def unordered_got_def trace_ok_def)
    have r': "r' = (write_sink ofs p len r)\<lparr>ra_buffer := (ra_buffer (write_sink ofs p len r))[slot seq :=
        \<lparr>rsl_seq_no = seq, rsl_len = len, rsl_valid = True\<rparr>]\<rparr>" "n = 0"
      using early less_not_sym [OF early(1)] eq by (auto simp: on_block_ordered_def Let_def)
    have b: "slots_ok (unat (ra_next_expected r') + 1) r'" "ra_taken r' = insert (unat seq) (ra_taken r)"
      using buffer_early [of "write_sink ofs p len r" seq len] early ok o big unfolding r'(1)
      by (simp_all add: w)
    have "trace_ok r'" using t by (simp add: r' trace_ok_def)
    with b early less_not_sym [OF early(1)] in_win show ?thesis
      by (simp add: block_step_def spec ra_inv_def r' o leD)
  next
    case now
    let ?d = "(deliver seq ofs p len r)\<lparr>ra_next_expected := ra_next_expected r + 1\<rparr>"
    have u: "unat (ra_next_expected r + 1) = unat (ra_next_expected r) + 1"
      using big now unat_add_lt [of "ra_next_expected r" 1] by simp
    have dr: "drain ?d 1 = (n, r')" using eq now by (simp add: on_block_ordered_def Let_def deliver_def)
    have nb: "\<not> buffered r seq" using slots_okD(1) [OF ok, of seq] now by auto
    have td: "trace_ok ?d"
      using trace_ok_record [of "write_sink ofs p len r" "ra_buffer r"] t big now
      by (simp add: deliver_def trace_ok_def)
    have okd: "slots_ok (unat (ra_next_expected ?d)) ?d"
      using ok unfolding slots_ok_def by (fastforce simp: deliver_def u)
    have "buffered ?d = buffered r" by (simp add: buffered_def [abs_def] deliver_def)
    then have tk: "ra_taken ?d = insert (unat seq) (ra_taken r)"
      using o now by (auto simp: ra_taken_def ra_delivered_def deliver_def u less_Suc_eq)
    have "spec_receive (ra_taken r) 1024 (unat seq) = (Accepted, insert (unat seq) (ra_taken r))"
      unfolding spec using nb now by simp
    with drain_correct [OF okd td dr] show ?thesis
      using tk o by (simp add: block_step_def ra_inv_def deliver_def u Suc_diff_Suc)
  next
    case dup
    with less_not_sym [OF dup(1)] eq have "r' = r" "n = 0" by (auto simp: on_block_ordered_def)
    then show ?thesis using dup inv block_step_skip [of r seq Duplicate] by (simp add: spec)
  next
    case old
    with eq have "r' = r" "n = 0" by (auto simp: on_block_ordered_def)
    then show ?thesis using old inv block_step_skip [of r seq Duplicate] by (simp add: spec)
  qed
qed

lemma finite_got: "finite (got s)"
  by (rule finite_subset [of _ "{..<unat (rs_base_seq_no s) + unat (rs_window_size s)}"])
     (auto simp: got_def)

lemma unordered_got_any: "got (as_receiver (ra_unordered_low r) (ra_unordered_seen r) h any) = unordered_got r"
  using as_receiver_of(2) [of "as_receiver (ra_unordered_low r) (ra_unordered_seen r) 0 False"]
  by (simp add: unordered_got_def)

lemma on_block_unordered_refines:
  assumes inv: "ra_inv r" and o: "\<not> ra_ordered r" and big: "unat seq + 1 < 2 ^ 64"
    and eq: "on_block_unordered r seq ofs p len = (n, r')"
  shows "block_step r seq ofs p len r' \<and> n = card (ra_delivered r' - ra_delivered r)"
proof -
  obtain h any where ri: "rs_inv (as_receiver (ra_unordered_low r) (ra_unordered_seen r) h any)"
    using inv o by (auto simp: ra_inv_def)
  let ?s = "as_receiver (ra_unordered_low r) (ra_unordered_seen r) h any"
  obtain res s' where rc: "on_receive ?s seq 0 0 = (res, s')" by (cases "on_receive ?s seq 0 0")
  note un = on_block_unordered_eq(1) [OF rc, of ofs p len]
  have tk: "ra_taken r = unordered_got r" "ra_delivered r = unordered_got r"
    using o by (simp_all add: ra_taken_def ra_delivered_def)
  have sp: "rs_inv s'" "(res, got s') = spec_receive (ra_taken r) 1024 (unat seq)" "rs_window_size s' = 1024"
    using on_receive_refines [OF ri big rc] by (simp_all add: tk unordered_got_any)
  show ?thesis
  proof (cases "res = Accepted")
    case True
    then have r': "r' = deliver seq ofs p len
        (r\<lparr>ra_unordered_low := rs_base_seq_no s', ra_unordered_seen := rs_ring s'\<rparr>)" "n = 1"
      using un eq by auto
    have f: "\<not> ra_ordered r'" "ra_unordered_low r' = rs_base_seq_no s'" "ra_unordered_seen r' = rs_ring s'"
      "ra_delivered_count r' = ra_delivered_count r + 1" "ra_sink_cap r' = ra_sink_cap r"
      using o by (simp_all add: r' deliver_def)
    have g: "unordered_got r' = got s'"
      unfolding unordered_got_def f using as_receiver_of(2) [OF sp(3)] by simp
    have new: "unat seq \<notin> unordered_got r" "got s' = insert (unat seq) (unordered_got r)"
      using sp(2) True by (auto simp: spec_receive_def tk split: if_splits)
    have snk: "ra_sink r' = ra_sink (write_sink ofs p len r)"
      by (auto simp: r' deliver_def write_sink_def split: option.split)
    have "card (got s') = card (unordered_got r) + 1"
      using new finite_got [of "as_receiver (ra_unordered_low r) (ra_unordered_seen r) 0 False"]
      by (simp add: unordered_got_def)
    then have "ra_inv r'"
      using inv o f as_receiver_of(1) [OF sp(3,1)] by (auto simp: ra_inv_def g)
    moreover have "ra_delivered r' - ra_delivered r = {unat seq}"
      using new f(1) o by (auto simp: ra_delivered_def g)
    ultimately show ?thesis
      unfolding block_step_def sp(2) [symmetric] using True f o snk r'(2)
      by (simp add: ra_taken_def ra_delivered_def g)
  next
    case False
    then have r': "r' = r" "n = 0" using un eq by auto
    have "got s' = ra_taken r" using sp(2) False by (auto simp: spec_receive_def split: if_splits)
    then show ?thesis using r' False inv block_step_skip [of r seq res] sp(2) by simp
  qed
qed

lemma ra_inv_delivered:
  assumes "ra_inv r"
  shows "ra_delivered r = (if ra_ordered r then {..<LEAST k. k \<notin> ra_taken r} else ra_taken r)"
    "ra_delivered_count r = of_nat (card (ra_delivered r))" "finite (ra_delivered r)"
    "ra_ordered r \<Longrightarrow>
       ra_delivery_order r = map of_nat [0..<min kMaxDeliveryTrace (card (ra_delivered r))]"
proof -
  have fin: "finite (unordered_got r)" by (simp add: unordered_got_def finite_got)
  show "ra_delivered r = (if ra_ordered r then {..<LEAST k. k \<notin> ra_taken r} else ra_taken r)"
    using assms next_not_taken [of r] by (auto simp: ra_inv_def ra_delivered_def) (auto simp: ra_taken_def ra_delivered_def)
  show "ra_delivered_count r = of_nat (card (ra_delivered r))" "finite (ra_delivered r)"
    "ra_ordered r \<Longrightarrow> ra_delivery_order r = map of_nat [0..<min kMaxDeliveryTrace (card (ra_delivered r))]"
    using assms fin by (auto simp: ra_inv_def ra_delivered_def trace_ok_def)
qed

lemma on_block_refines:
  assumes "ra_inv r" "unat seq + 1 < 2 ^ 64" "on_block r seq ofs p len = (n, r')"
  shows "block_step r seq ofs p len r'" "n = card (ra_delivered r' - ra_delivered r)"
proof -
  show "block_step r seq ofs p len r'"
    using assms on_block_ordered_refines [of r seq ofs p len n r']
      on_block_unordered_refines [of r seq ofs p len n r'] by (auto simp: on_block_def split: if_splits)
  then have same: "ra_ordered r' = ra_ordered r" by (auto simp: block_step_def split: prod.splits)
  show "n = card (ra_delivered r' - ra_delivered r)"
  proof (cases "ra_ordered r")
    case True
    have "{..<b} - {..<a} = {a..<b}" for a b :: nat by auto
    with True same show ?thesis
      using assms on_block_ordered_refines [of r seq ofs p len n r']
      by (simp add: on_block_def ra_delivered_def)
  qed (use assms on_block_unordered_refines [of r seq ofs p len n r'] in \<open>simp add: on_block_def\<close>)
qed

lemma ra_inv_new: "ra_inv (new_reassembly cfg sink cap n)"
proof -
  have "rs_inv (as_receiver 0 (replicate 16 0) 0 False)"
    using as_receiver_of(1) [of "new_receiver 0 1024 True", OF _ rs_inv_new]
    by (simp add: new_receiver_def clamp_window_def)
  moreover have "unordered_got (new_reassembly cfg sink cap n) = {}"
    by (simp add: unordered_got_def new_reassembly_def got_def ring_bit_def mask_bit_def)
  ultimately show ?thesis
    by (auto simp: ra_inv_def slots_ok_def trace_ok_def) (auto simp: new_reassembly_def)
qed


definition demo_stream :: "ReassemblyStream" where
  "demo_stream = new_reassembly (no_stream\<lparr>cfg_stream_flags := kStreamFlagOrdered\<rparr>)
      (Some [0, 0, 0, 0, 0]) 5 2"


section \<open>The sink\<close>

definition sink_matches :: "byte list \<Rightarrow> ReassemblyStream \<Rightarrow> nat set \<Rightarrow> bool" where
  "sink_matches file r I \<longleftrightarrow>
     (\<exists>b. ra_sink r = Some b \<and> length b = ra_sink_cap r \<and> (\<forall>i \<in> I. i < length b \<and> b ! i = file ! i))"

lemma write_sink_matches:
  assumes m: "sink_matches file r I" and fit: "unat ofs + unat len \<le> ra_sink_cap r"
    and p: "take (unat len) bytes = take (unat len) (drop (unat ofs) file)"
    and l: "unat len \<le> length bytes" "unat ofs + unat len \<le> length file"
  shows "sink_matches file (write_sink ofs (Some bytes) len r) (I \<union> {unat ofs..<unat ofs + unat len})"
proof -
  obtain b where b: "ra_sink r = Some b" "length b = ra_sink_cap r" "\<forall>i \<in> I. i < length b \<and> b ! i = file ! i"
    using m by (auto simp: sink_matches_def)
  show ?thesis
  proof (cases "len = 0")
    case True
    with m show ?thesis by (simp add: write_sink_def b)
  next
    case False
    let ?new = "take (unat ofs) b @ take (unat len) bytes @ drop (unat ofs + unat len) b"
    have w: "ra_sink (write_sink ofs (Some bytes) len r) = Some ?new"
      using False fit by (simp add: write_sink_def b word_neq_0_conv le_diff_conv2)
    have len: "length ?new = length b" using l fit b(2) by simp
    have "?new ! i = (if i \<in> {unat ofs..<unat ofs + unat len} then file ! i else b ! i)" if "i < length b" for i
      using that fit l b(2) by (auto simp: nth_append p)
    with b fit show ?thesis unfolding sink_matches_def using w len by auto
  qed
qed

fun feed :: "(u64 \<times> u64 \<times> byte list option \<times> u16) list \<Rightarrow> ReassemblyStream \<Rightarrow> ReassemblyStream" where
  "feed [] r = r"
| "feed ((seq, ofs, p, len) # bs) r = feed bs (snd (on_block r seq ofs p len))"

text \<open>The blocks of a file cut so that block \<open>k\<close> covers the positions \<open>rng k\<close>.\<close>

definition block_of :: "byte list \<Rightarrow> (nat \<Rightarrow> nat set) \<Rightarrow> nat \<Rightarrow> u64 \<times> u64 \<times> byte list option \<times> u16 \<Rightarrow> bool" where
  "block_of file rng cap blk \<longleftrightarrow>
     (case blk of (seq, ofs, p, len) \<Rightarrow>
        unat seq + 1 < 2 ^ 64 \<and> unat ofs + unat len \<le> cap \<and> unat ofs + unat len \<le> length file \<and>
        rng (unat seq) = {unat ofs..<unat ofs + unat len} \<and>
        p = Some (take (unat len) (drop (unat ofs) file)))"

lemma feed_matches:
  assumes "ra_inv r" "\<forall>blk \<in> set bs. block_of file rng (ra_sink_cap r) blk"
    "sink_matches file r (\<Union>k \<in> ra_taken r. rng k)"
  shows "ra_inv (feed bs r) \<and> ra_sink_cap (feed bs r) = ra_sink_cap r \<and>
    sink_matches file (feed bs r) (\<Union>k \<in> ra_taken (feed bs r). rng k)"
  using assms
proof (induction bs r rule: feed.induct)
  case (2 seq ofs p len bs r)
  obtain n r' where ob: "on_block r seq ofs p len = (n, r')" by (cases "on_block r seq ofs p len")
  obtain res T where sp: "spec_receive (ra_taken r) 1024 (unat seq) = (res, T)"
    by (cases "spec_receive (ra_taken r) 1024 (unat seq)")
  have blk: "block_of file rng (ra_sink_cap r) (seq, ofs, p, len)" using "2.prems"(2) by simp
  then have big: "unat seq + 1 < 2 ^ 64" by (simp add: block_of_def)
  from on_block_refines(1) [OF "2.prems"(1) big ob]
  have st: "ra_inv r'" "ra_taken r' = T" "ra_sink_cap r' = ra_sink_cap r"
    "ra_sink r' = (if res = Accepted then ra_sink (write_sink ofs p len r) else ra_sink r)"
    by (auto simp: block_step_def sp)
  have "sink_matches file r' (\<Union>k \<in> T. rng k)"
  proof (cases "res = Accepted")
    case True
    then have T: "(\<Union>k \<in> T. rng k) = (\<Union>k \<in> ra_taken r. rng k) \<union> {unat ofs..<unat ofs + unat len}"
      using sp blk by (auto simp: spec_receive_def block_of_def split: if_splits)
    have "sink_matches file (write_sink ofs p len r)
        ((\<Union>k \<in> ra_taken r. rng k) \<union> {unat ofs..<unat ofs + unat len})"
      using write_sink_matches [OF "2.prems"(3), of ofs len "take (unat len) (drop (unat ofs) file)"] blk
      by (simp add: block_of_def)
    then show ?thesis unfolding T using True st by (simp add: sink_matches_def)
  next
    case False
    then have "T = ra_taken r" using sp by (auto simp: spec_receive_def split: if_splits)
    with False st "2.prems"(3) show ?thesis by (simp add: sink_matches_def)
  qed
  with "2.IH" st ob "2.prems"(2) show ?case by simp
qed simp

lemma drain_total: "drain r n = (n', r') \<Longrightarrow> ra_total_blocks r' = ra_total_blocks r"
proof (induction r n arbitrary: n' r' rule: drain.induct)
  case (1 r n)
  then show ?case
    by (cases "buffered r (ra_next_expected r)")
       (auto simp: drain.simps [of r] drain_slot_def Let_def)
qed

lemma on_block_total: "on_block r seq ofs p len = (n, r') \<Longrightarrow> ra_total_blocks r' = ra_total_blocks r"
  by (auto simp: on_block_def on_block_ordered_def on_block_unordered_def deliver_def Let_def
      split: if_splits prod.splits dest: drain_total)

lemma feed_bounded:
  assumes "ra_inv r" "\<forall>blk \<in> set bs. unat (fst blk) + 1 < 2 ^ 64 \<and> unat (fst blk) < m" "ra_taken r \<subseteq> {..<m}"
  shows "ra_taken (feed bs r) \<subseteq> {..<m} \<and> ra_total_blocks (feed bs r) = ra_total_blocks r"
  using assms
proof (induction bs r rule: feed.induct)
  case (2 seq ofs p len bs r)
  obtain n r' where ob: "on_block r seq ofs p len = (n, r')" by (cases "on_block r seq ofs p len")
  have s: "unat seq + 1 < 2 ^ 64" "unat seq < m" using "2.prems"(2) by simp_all
  from on_block_refines(1) [OF "2.prems"(1) s(1) ob] have "ra_inv r'" "ra_taken r' \<subseteq> {..<m}"
    using s "2.prems"(3) by (auto simp: block_step_def spec_receive_def split: if_splits)
  with "2.IH" ob on_block_total [OF ob] "2.prems"(2) show ?case by simp
qed simp

lemma complete_iff:
  assumes inv: "ra_inv r" and sub: "ra_taken r \<subseteq> {..<unat (ra_total_blocks r)}"
  shows "is_complete r \<longleftrightarrow> ra_total_blocks r \<noteq> 0 \<and> ra_taken r = {..<unat (ra_total_blocks r)}"
proof -
  let ?n = "unat (ra_total_blocks r)"
  have d: "ra_delivered r \<subseteq> ra_taken r" by (simp add: ra_taken_def)
  then have "card (ra_delivered r) \<le> ?n" using card_mono [OF _ subset_trans [OF d sub]] by simp
  then have "unat (of_nat (card (ra_delivered r)) :: u64) = card (ra_delivered r)"
    using unat_u64_less [of "ra_total_blocks r"] by (simp add: unsigned_of_nat take_bit_nat_eq_self)
  then have c: "is_complete r \<longleftrightarrow> ra_total_blocks r \<noteq> 0 \<and> card (ra_delivered r) = ?n"
    using ra_inv_delivered(2) [OF inv] by (auto simp: is_complete_def word_unat_eq_iff)
  have "card (ra_delivered r) = ?n \<longleftrightarrow> ra_delivered r = {..<?n}"
    using d sub card_subset_eq [of "{..<?n}" "ra_delivered r"] by auto
  moreover have "ra_delivered r = {..<?n} \<longleftrightarrow> ra_taken r = {..<?n}"
  proof
    assume t: "ra_taken r = {..<?n}"
    have "(LEAST k. k \<notin> {..<?n}) = ?n" by (rule Least_equality) auto
    then show "ra_delivered r = {..<?n}" using ra_inv_delivered(1) [OF inv] t by simp
  qed (use d sub in auto)
  ultimately show ?thesis using c by simp
qed

text \<open>
  C27: a stream of \<open>n\<close> blocks fed any sequence of blocks of a file, in any order and with any
  repetition, reports completion exactly when every one of the \<open>n\<close> blocks has been accepted,
  and its sink then holds the file byte for byte.
\<close>

theorem reassembly_rebuilds_file:
  assumes "length buf = length file" "(\<Union>k < unat n. rng k) = {..<length file}"
    "\<forall>blk \<in> set bs. block_of file rng (length file) blk \<and> unat (fst blk) < unat n"
    "r = feed bs (new_reassembly cfg (Some buf) (length buf) n)"
  shows "(is_complete r \<longleftrightarrow> n \<noteq> 0 \<and> ra_taken r = {..<unat n}) \<and>
         (is_complete r \<longrightarrow> ra_sink r = Some file)"
proof -
  let ?r = "new_reassembly cfg (Some buf) (length buf) n"
  have inv: "ra_inv ?r" by (simp add: ra_inv_new)
  have none: "ra_taken ?r = {}"
    by (auto simp: ra_taken_def ra_delivered_def new_reassembly_def unordered_got_def
        got_def ring_bit_def mask_bit_def buffered_def slot_def)
  have f: "ra_sink_cap ?r = length file" "ra_total_blocks ?r = n" "ra_sink ?r = Some buf"
    using assms(1) by (simp_all add: new_reassembly_def)
  have "sink_matches file ?r (\<Union>k \<in> ra_taken ?r. rng k)"
    using f assms(1) none by (simp add: sink_matches_def)
  with feed_matches [OF inv, of bs "file" rng] assms(3) f
  have m: "ra_inv (feed bs ?r)" "ra_sink_cap (feed bs ?r) = length file"
    "sink_matches file (feed bs ?r) (\<Union>k \<in> ra_taken (feed bs ?r). rng k)" by simp_all
  have "\<forall>blk \<in> set bs. unat (fst blk) + 1 < 2 ^ 64 \<and> unat (fst blk) < unat n"
    using assms(3) by (auto simp: block_of_def split: prod.splits)
  from feed_bounded [OF inv this] none f
  have t: "ra_taken (feed bs ?r) \<subseteq> {..<unat n}" "ra_total_blocks (feed bs ?r) = n" by simp_all
  have c: "is_complete (feed bs ?r) \<longleftrightarrow> n \<noteq> 0 \<and> ra_taken (feed bs ?r) = {..<unat n}"
    using complete_iff [OF m(1)] t by simp
  moreover have "ra_sink (feed bs ?r) = Some file" if "ra_taken (feed bs ?r) = {..<unat n}"
    using m that assms(2) unfolding sink_matches_def by (auto intro!: nth_equalityI)
  ultimately show ?thesis unfolding assms(4) by blast
qed

theorem reassembly_rebuilds_file_witness:
  "(\<Union>k < unat (2 :: u64). if k = 0 then {0..<3} else {3..<5}) = {..<length [5, 6, 7, 8, 9 :: byte]} \<and>
   (is_complete (feed [(1, 3, Some [8, 9], 2), (0, 0, Some [5, 6, 7], 3)] demo_stream) \<longleftrightarrow>
    ra_taken (feed [(1, 3, Some [8, 9], 2), (0, 0, Some [5, 6, 7], 3)] demo_stream) = {..<unat (2 :: u64)})"
proof -
  let ?rng = "\<lambda>k :: nat. if k = 0 then {0..<3 :: nat} else {3..<5}"
  let ?bs = "[(1 :: u64, 3 :: u64, Some [8, 9 :: byte], 2 :: u16), (0, 0, Some [5, 6, 7], 3)]"
  have "{..<unat (2 :: u64)} = {0, 1}" by auto
  then have u: "(\<Union>k < unat (2 :: u64). ?rng k) = {..<length [5, 6, 7, 8, 9 :: byte]}"
    by (simp add: ivl_disj_un_two(3) lessThan_atLeast0 Un_commute eval_nat_numeral)
  have b: "\<forall>blk \<in> set ?bs. block_of [5, 6, 7, 8, 9] ?rng (length [5, 6, 7, 8, 9 :: byte]) blk \<and>
      unat (fst blk) < unat (2 :: u64)"
    by (simp add: block_of_def)
  have l: "length [0, 0, 0, 0, 0 :: byte] = length [5, 6, 7, 8, 9 :: byte]"
    "length [0, 0, 0, 0, 0 :: byte] = 5" by simp_all
  show ?thesis
    unfolding demo_stream_def using u reassembly_rebuilds_file [OF l(1) u b refl,
        of "no_stream\<lparr>cfg_stream_flags := kStreamFlagOrdered\<rparr>", unfolded l(2)] by simp
qed

end
