(* ===== verification/Congestion.thy ===== *)
theory Congestion
  imports Fuse_Prelude
begin

text \<open>
  The per-stream congestion controller (\<^verbatim>\<open>include/fuse/proto/congestion.hpp\<close>): AIMD over an
  effective window, slow start, RTT smoothing and the retransmission timeout with backoff.
  All integers keep their width, so every sum, product and difference wraps as in the source.
  \<^verbatim>\<open>pacing_interval_ns\<close> computes in \<^verbatim>\<open>long double\<close> and is not modelled.
\<close>

section \<open>State and operations\<close>

definition rtt_sample_from_echo :: "u64 \<Rightarrow> u64 \<Rightarrow> u64" where
  "rtt_sample_from_echo wire_now echoed = (let d = wire_now - echoed in if d < 60000000000 then d else 0)"

record CongestionController =
  cc_enabled :: bool
  cc_clean_windows_to_grow :: u32
  cc_grow_step :: u32
  cc_max_window :: u32
  cc_floor :: u32
  cc_window :: u32
  cc_clean_streak :: u32
  cc_srtt_ns :: u64
  cc_rttvar_ns :: u64
  cc_backoff :: u32
  cc_window_start_ns :: u64
  cc_loss_in_window :: bool
  cc_slow_start :: bool

definition kMaxBackoff :: u32 where [simp]: "kMaxBackoff = 6"

definition new_controller :: "u16 \<Rightarrow> bool \<Rightarrow> u32 \<Rightarrow> u32 \<Rightarrow> CongestionController" where
  "new_controller max_window enabled clean_windows grow_step =
     (let maxw = (if max_window < 1 then 1 else ucast max_window);
          floor = (if maxw < 2 then maxw else 2);
          start = maxw div 8;
          window = (if \<not> enabled then maxw else if start < floor then floor else start)
      in \<lparr>cc_enabled = enabled, cc_clean_windows_to_grow = clean_windows, cc_grow_step = grow_step,
          cc_max_window = maxw, cc_floor = floor, cc_window = window, cc_clean_streak = 0,
          cc_srtt_ns = 0, cc_rttvar_ns = 0, cc_backoff = 0, cc_window_start_ns = 0,
          cc_loss_in_window = False, cc_slow_start = False\<rparr>)"

definition enable_slow_start :: "u32 \<Rightarrow> CongestionController \<Rightarrow> CongestionController" where
  "enable_slow_start initial c =
     (if \<not> cc_enabled c then c
      else c\<lparr>cc_slow_start := True,
             cc_window := (if initial < cc_floor c then cc_floor c
                           else if initial > cc_max_window c then cc_max_window c else initial)\<rparr>)"

definition on_rtt_sample :: "u64 \<Rightarrow> CongestionController \<Rightarrow> CongestionController" where
  "on_rtt_sample sample c =
     (if \<not> cc_enabled c \<or> sample = 0 then c
      else if cc_srtt_ns c = 0 then c\<lparr>cc_srtt_ns := sample, cc_rttvar_ns := sample div 2\<rparr>
      else
        let dev = (if cc_srtt_ns c > sample then cc_srtt_ns c - sample else sample - cc_srtt_ns c)
        in c\<lparr>cc_rttvar_ns := (cc_rttvar_ns c * 3 + dev) div 4,
             cc_srtt_ns := (cc_srtt_ns c * 7 + sample) div 8\<rparr>)"

text \<open>The doubling loop: \<open>n\<close> is the number of turns left.\<close>

primrec double_until :: "nat \<Rightarrow> u64 \<Rightarrow> u64 \<Rightarrow> u64" where
  "double_until 0 max_ns rto = rto"
| "double_until (Suc n) max_ns rto =
     (if rto < max_ns then double_until n max_ns (rto * 2) else rto)"

definition rto_base :: "u64 \<Rightarrow> CongestionController \<Rightarrow> u64" where
  "rto_base initial_ns c =
     (if cc_srtt_ns c \<noteq> 0
      then let var = (if cc_rttvar_ns c * 4 > 1000000 then cc_rttvar_ns c * 4 else 1000000);
               rto = cc_srtt_ns c + var
           in if rto < 2 * cc_srtt_ns c then 2 * cc_srtt_ns c else rto
      else initial_ns)"

definition rto_ns :: "u64 \<Rightarrow> u64 \<Rightarrow> u64 \<Rightarrow> CongestionController \<Rightarrow> u64" where
  "rto_ns min_ns max_ns initial_ns c =
     (let rto = rto_base initial_ns c;
          rto = (if rto < min_ns then min_ns else if rto > max_ns then max_ns else rto);
          rto = double_until (unat (cc_backoff c)) max_ns rto
      in if rto > max_ns then max_ns else rto)"

definition on_loss :: "CongestionController \<Rightarrow> CongestionController" where
  "on_loss c = (if cc_enabled c then c\<lparr>cc_loss_in_window := True\<rparr> else c)"

definition on_timeout :: "CongestionController \<Rightarrow> CongestionController" where
  "on_timeout c =
     (let c = (if cc_backoff c = 0 then on_loss c else c)
      in if cc_backoff c < kMaxBackoff then c\<lparr>cc_backoff := cc_backoff c + 1\<rparr> else c)"

definition on_progress :: "CongestionController \<Rightarrow> CongestionController" where
  "on_progress c = c\<lparr>cc_backoff := 0\<rparr>"

text \<open>The decision for one elapsed RTT window, the body of the loop of \<^verbatim>\<open>poll\<close>.\<close>

definition cc_epoch :: "CongestionController \<Rightarrow> CongestionController" where
  "cc_epoch c =
     (let c = c\<lparr>cc_window_start_ns := cc_window_start_ns c + cc_srtt_ns c\<rparr>;
          c = (if cc_loss_in_window c
               then let halved = cc_window c div 2 in
                    c\<lparr>cc_window := (if halved < cc_floor c then cc_floor c else halved),
                      cc_clean_streak := 0, cc_slow_start := False\<rparr>
               else if cc_slow_start c
               then let doubled = cc_window c * 2;
                        c = c\<lparr>cc_window := (if doubled > cc_max_window c then cc_max_window c else doubled)\<rparr>
                    in if cc_window c = cc_max_window c then c\<lparr>cc_slow_start := False\<rparr> else c
               else
                 let c = c\<lparr>cc_clean_streak := cc_clean_streak c + 1\<rparr> in
                 if cc_clean_streak c \<ge> cc_clean_windows_to_grow c
                 then let grown = cc_window c + cc_grow_step c in
                      c\<lparr>cc_window := (if grown > cc_max_window c then cc_max_window c else grown),
                        cc_clean_streak := 0\<rparr>
                 else c)
      in c\<lparr>cc_loss_in_window := False\<rparr>)"

primrec poll_loop :: "nat \<Rightarrow> u64 \<Rightarrow> CongestionController \<Rightarrow> CongestionController" where
  "poll_loop 0 now c = c"
| "poll_loop (Suc guard) now c =
     (if now - cc_window_start_ns c < cc_srtt_ns c then c else poll_loop guard now (cc_epoch c))"

definition cc_poll :: "u64 \<Rightarrow> CongestionController \<Rightarrow> CongestionController" where
  "cc_poll now c =
     (if \<not> cc_enabled c \<or> cc_srtt_ns c = 0 then c
      else if cc_window_start_ns c = 0 then c\<lparr>cc_window_start_ns := now\<rparr>
      else poll_loop 4096 now c)"

section \<open>The window stays in its range\<close>

datatype cc_event = Rtt u64 | Timeout | Progress | Loss | Poll u64

fun cc_step :: "cc_event \<Rightarrow> CongestionController \<Rightarrow> CongestionController" where
  "cc_step (Rtt s) c = on_rtt_sample s c"
| "cc_step Timeout c = on_timeout c"
| "cc_step Progress c = on_progress c"
| "cc_step Loss c = on_loss c"
| "cc_step (Poll now) c = cc_poll now c"

definition cc_inv :: "CongestionController \<Rightarrow> bool" where
  "cc_inv c \<longleftrightarrow> 1 \<le> unat (cc_floor c) \<and> unat (cc_floor c) \<le> 2 \<and>
     unat (cc_floor c) \<le> unat (cc_window c) \<and> unat (cc_window c) \<le> unat (cc_max_window c) \<and>
     unat (cc_max_window c) < 2 ^ 16 \<and> unat (cc_grow_step c) < 2 ^ 31 \<and>
     unat (cc_backoff c) \<le> 6 \<and>
     (\<not> cc_enabled c \<longrightarrow> cc_window c = cc_max_window c \<and> \<not> cc_loss_in_window c)"

text \<open>What no event changes.\<close>

definition cc_static :: "CongestionController \<Rightarrow> bool \<times> u32 \<times> u32 \<times> u32 \<times> u32" where
  "cc_static c = (cc_enabled c, cc_clean_windows_to_grow c, cc_grow_step c, cc_max_window c, cc_floor c)"

lemma new_controller_inv: "unat g < 2 ^ 31 \<Longrightarrow> cc_inv (new_controller w e n g)"
proof -
  assume g: "unat g < 2 ^ 31"
  have u: "unat (ucast w :: u32) = unat w" by (simp add: unat_ucast_up)
  have "unat w < 2 ^ 16" using unsigned_less [of w] by simp
  with g u show ?thesis
    by (auto simp: cc_inv_def new_controller_def Let_def word_less_nat_alt unat_div)
qed

lemma cc_window_arith:
  assumes "cc_inv c"
  shows "unat (cc_window c * 2) = 2 * unat (cc_window c)"
    "unat (cc_window c + cc_grow_step c) = unat (cc_window c) + unat (cc_grow_step c)"
    "unat (cc_window c div 2) = unat (cc_window c) div 2"
  using assms by (auto simp: cc_inv_def unat_word_ariths unat_div)

text \<open>The window after one epoch, without wrap-around.\<close>

lemma cc_epoch_window:
  assumes "cc_inv c"
  shows "unat (cc_window (cc_epoch c)) =
    (if cc_loss_in_window c then max (unat (cc_floor c)) (unat (cc_window c) div 2)
     else if cc_slow_start c then min (unat (cc_max_window c)) (2 * unat (cc_window c))
     else if cc_clean_streak c + 1 \<ge> cc_clean_windows_to_grow c
     then min (unat (cc_max_window c)) (unat (cc_window c) + unat (cc_grow_step c))
     else unat (cc_window c))"
  using cc_window_arith [OF assms]
  by (simp add: cc_epoch_def Let_def word_less_nat_alt max_def min_def
      if_distrib [of cc_window] if_distrib [of unat] cong: if_cong)

lemma cc_epoch_keeps [simp]:
  "cc_static (cc_epoch c) = cc_static c" "cc_backoff (cc_epoch c) = cc_backoff c"
  "\<not> cc_loss_in_window (cc_epoch c)" "cc_srtt_ns (cc_epoch c) = cc_srtt_ns c"
  "cc_enabled (cc_epoch c) = cc_enabled c"
  "cc_window_start_ns (cc_epoch c) = cc_window_start_ns c + cc_srtt_ns c"
  by (auto simp: cc_static_def cc_epoch_def Let_def)

lemma cc_epoch_inv:
  assumes "cc_inv c" "cc_enabled c"
  shows "cc_inv (cc_epoch c)"
proof -
  have s: "cc_floor (cc_epoch c) = cc_floor c" "cc_max_window (cc_epoch c) = cc_max_window c"
    "cc_grow_step (cc_epoch c) = cc_grow_step c"
    using cc_epoch_keeps(1) [of c] by (auto simp: cc_static_def)
  show ?thesis
    using assms unfolding cc_inv_def s cc_epoch_keeps cc_epoch_window [OF assms(1)] by auto
qed

lemma poll_loop_inv:
  "cc_inv c \<Longrightarrow> cc_enabled c \<Longrightarrow> cc_inv (poll_loop n now c) \<and> cc_static (poll_loop n now c) = cc_static c"
  by (induction n arbitrary: c) (auto simp: cc_epoch_inv)

lemma cc_step_inv:
  assumes "cc_inv c"
  shows "cc_inv (cc_step e c) \<and> cc_static (cc_step e c) = cc_static c"
proof (cases e)
  case (Poll now)
  have "cc_inv (c\<lparr>cc_window_start_ns := now\<rparr>)" "cc_static (c\<lparr>cc_window_start_ns := now\<rparr>) = cc_static c"
    using assms by (simp_all add: cc_inv_def cc_static_def)
  with Poll show ?thesis using assms poll_loop_inv [of c] by (simp add: cc_poll_def)
next
  case Timeout
  have "unat (cc_backoff c + 1) = unat (cc_backoff c) + 1" if "cc_backoff c < 6"
    using that by (simp add: unat_word_ariths word_less_nat_alt)
  then show ?thesis
    using Timeout assms by (auto simp: on_timeout_def on_loss_def Let_def cc_inv_def cc_static_def word_less_nat_alt)
qed (use assms in \<open>auto simp: on_rtt_sample_def on_loss_def on_progress_def Let_def cc_inv_def cc_static_def\<close>)

lemma cc_run_inv:
  "cc_inv c \<Longrightarrow> cc_inv (fold cc_step es c) \<and> cc_static (fold cc_step es c) = cc_static c"
  by (induction es arbitrary: c) (auto simp: cc_step_inv)

lemma slow_start_inv: "cc_inv c \<Longrightarrow> cc_inv (enable_slow_start i c) \<and> cc_static (enable_slow_start i c) = cc_static c"
  by (auto simp: enable_slow_start_def cc_inv_def cc_static_def word_less_nat_alt)

text \<open>
  C28: over any sequence of RTT samples, timeouts, acknowledged progress, losses and polls
  (slow start enabled or not), the effective window of a controller stays between its floor
  (1 or 2) and the negotiated window, the backoff count never exceeds 6, the window of a
  disabled controller stays at the negotiated window, and no sum or product on the window wraps.
\<close>

theorem congestion_window_bounded:
  assumes "unat grow_step < 2 ^ 31" "start = new_controller max_window enabled clean grow_step"
    "c = fold cc_step events (if slow then enable_slow_start initial start else start)"
  shows "unat (cc_floor c) \<le> unat (cc_window c) \<and> 1 \<le> unat (cc_window c) \<and>
    unat (cc_window c) \<le> max 1 (unat max_window) \<and> unat (cc_backoff c) \<le> 6 \<and>
    (\<not> enabled \<longrightarrow> unat (cc_window c) = max 1 (unat max_window)) \<and>
    unat (cc_window c + cc_grow_step c) = unat (cc_window c) + unat grow_step \<and>
    unat (cc_window c * 2) = 2 * unat (cc_window c)"
proof -
  let ?s = "if slow then enable_slow_start initial start else start"
  have "cc_inv ?s" "cc_static ?s = cc_static start"
    using new_controller_inv [OF assms(1)] slow_start_inv [of start] assms(2) by auto
  then have i: "cc_inv c" and st: "cc_static c = cc_static start"
    using cc_run_inv [of ?s events] assms(3) by simp_all
  have "unat (ucast max_window :: u32) = unat max_window" by (simp add: unat_ucast_up)
  then have "unat (cc_max_window c) = max 1 (unat max_window)" "cc_enabled c = enabled" "cc_grow_step c = grow_step"
    using st assms(2) by (auto simp: cc_static_def new_controller_def Let_def word_less_nat_alt)
  with i cc_window_arith [OF i] show ?thesis by (auto simp: cc_inv_def)
qed

theorem congestion_window_bounded_witness:
  "unat (2 :: u32) < 2 ^ 31 \<and>
   unat (cc_window (fold cc_step [Rtt 1000, Poll 5, Loss, Poll 3005, Timeout]
     (enable_slow_start 32 (new_controller 64 True 3 2)))) \<le> max 1 (unat (64 :: u16))"
  using congestion_window_bounded [of 2 "new_controller 64 True 3 2" 64 True 3 _
      "[Rtt 1000, Poll 5, Loss, Poll 3005, Timeout]" True 32, OF _ refl refl]
  by simp

section \<open>One halving per run of timeouts\<close>

text \<open>The window is at least \<open>w\<close>, or at least half of it once the pending loss was charged.\<close>

definition at_least_half :: "nat \<Rightarrow> CongestionController \<Rightarrow> bool" where
  "at_least_half w c \<longleftrightarrow> cc_inv c \<and>
     (if cc_loss_in_window c then w \<le> unat (cc_window c) else w div 2 \<le> unat (cc_window c))"

lemma at_least_half_epoch:
  assumes "at_least_half w c" "cc_enabled c"
  shows "at_least_half w (cc_epoch c)"
proof -
  have i: "cc_inv c" using assms(1) by (simp add: at_least_half_def)
  show ?thesis
    using assms cc_epoch_inv [OF i] cc_epoch_window [OF i]
    by (auto simp: at_least_half_def cc_inv_def max_def min_def dest: div_le_mono [of _ _ 2])
qed

lemma at_least_half_loop:
  "at_least_half w c \<Longrightarrow> cc_enabled c \<Longrightarrow> at_least_half w (poll_loop n now c)"
  by (induction n arbitrary: c) (simp_all add: at_least_half_epoch)

lemma backoff_step: "(b :: u32) < 6 \<Longrightarrow> b + 1 \<noteq> 0"
proof
  assume "b < 6" "b + 1 = 0"
  then have "unat (b + 1) = 0" "unat b < 6" by (simp_all add: word_less_nat_alt)
  then show False by (simp add: unat_word_ariths)
qed

lemma at_least_half_step:
  assumes "at_least_half w c" "cc_backoff c \<noteq> 0" "e \<noteq> Loss" "e \<noteq> Progress"
  shows "at_least_half w (cc_step e c) \<and> cc_backoff (cc_step e c) \<noteq> 0"
proof -
  have i: "cc_inv (cc_step e c)" using cc_step_inv assms(1) by (auto simp: at_least_half_def)
  have b: "cc_backoff (poll_loop n now c) = cc_backoff c" for n now c
    by (induction n arbitrary: c) simp_all
  show ?thesis
  proof (cases e)
    case (Poll now)
    have "at_least_half w (c\<lparr>cc_window_start_ns := now\<rparr>)"
      using assms(1) by (simp add: at_least_half_def cc_inv_def)
    with Poll assms show ?thesis by (simp add: cc_poll_def at_least_half_loop b)
  next
    case Timeout
    have "cc_backoff c < 6 \<Longrightarrow> cc_backoff c + 1 \<noteq> 0" by (rule backoff_step)
    with Timeout assms i show ?thesis by (auto simp: at_least_half_def on_timeout_def Let_def split: if_splits)
  qed (use assms i in \<open>auto simp: at_least_half_def on_rtt_sample_def Let_def split: if_splits\<close>)
qed

lemma at_least_half_run:
  "at_least_half w c \<Longrightarrow> cc_backoff c \<noteq> 0 \<Longrightarrow> \<forall>e \<in> set es. e \<noteq> Loss \<and> e \<noteq> Progress \<Longrightarrow>
     at_least_half w (fold cc_step es c)"
  by (induction es arbitrary: c) (auto simp: at_least_half_step)

text \<open>
  C29: however many retransmission timeouts fire, and however they interleave with polls and
  RTT samples, a run of them with no acknowledged progress and no negative acknowledgement
  costs at most one halving of the window.
\<close>

theorem timeout_run_halves_once:
  assumes "cc_inv c" "\<forall>e \<in> set es. e \<noteq> Loss \<and> e \<noteq> Progress"
  shows "unat (cc_window c) div 2 \<le> unat (cc_window (fold cc_step (Timeout # es) c))"
proof -
  have w: "cc_window (on_timeout c) = cc_window c"
    by (simp add: on_timeout_def on_loss_def Let_def)
  have "cc_inv (on_timeout c)" using cc_step_inv [OF assms(1), of Timeout] by simp
  then have a: "at_least_half (unat (cc_window c)) (on_timeout c)"
    using w by (auto simp: at_least_half_def)
  have "cc_backoff c < 6 \<Longrightarrow> cc_backoff c + 1 \<noteq> 0" by (rule backoff_step)
  then have "cc_backoff (on_timeout c) \<noteq> 0"
    by (auto simp: on_timeout_def on_loss_def Let_def)
  from at_least_half_run [OF a this assms(2)] show ?thesis
    by (auto simp: at_least_half_def split: if_splits intro: le_trans [OF div_le_dividend])
qed

theorem timeout_run_halves_once_witness:
  "cc_inv (new_controller 64 True 3 2) \<and>
   unat (cc_window (new_controller 64 True 3 2)) div 2 \<le>
   unat (cc_window (fold cc_step [Timeout, Rtt 10, Poll 5, Timeout, Poll 50, Timeout] (new_controller 64 True 3 2)))"
  using timeout_run_halves_once [of "new_controller 64 True 3 2" "[Rtt 10, Poll 5, Timeout, Poll 50, Timeout]"]
  by (simp add: new_controller_inv)

section \<open>The retransmission timeout\<close>

lemma double_until_eq:
  "unat max_ns \<le> 2 ^ 63 \<Longrightarrow> unat rto \<le> unat max_ns \<Longrightarrow>
     min (unat max_ns) (unat (double_until n max_ns rto)) = min (unat max_ns) (2 ^ n * unat rto)"
proof (induction n arbitrary: rto)
  case (Suc n)
  have one: "unat max_ns \<le> 2 ^ k * unat max_ns" for k :: nat by simp
  show ?case
  proof (cases "rto < max_ns")
    case True
    then have lt: "unat rto < unat max_ns" by (simp add: word_less_nat_alt)
    then have u: "unat (rto * 2) = unat rto * 2" using Suc.prems by (simp add: unat_word_ariths)
    show ?thesis
    proof (cases "unat rto * 2 \<le> unat max_ns")
      case fits: True
      with Suc.IH [of "rto * 2"] Suc.prems True u show ?thesis by (simp add: mult.assoc mult.commute [of 2])
    next
      case False
      then have "double_until n max_ns (rto * 2) = rto * 2"
        using u by (cases n) (simp_all add: word_less_nat_alt)
      moreover have "unat rto * 2 \<le> 2 ^ Suc n * unat rto" by simp
      then have "unat max_ns \<le> 2 ^ Suc n * unat rto" using False by linarith
      ultimately show ?thesis using True False u by (simp add: min_def)
    qed
  next
    case False
    then have "unat rto = unat max_ns" using Suc.prems by (simp add: word_less_nat_alt)
    with False one [of "Suc n"] show ?thesis by simp
  qed
qed simp

text \<open>
  With limits \<open>min \<le> max \<le> 2^63\<close> ns the timeout is the base estimate clamped into
  [min, max], doubled once for each consecutive timeout and clamped to max again; the doubling
  loop never wraps.
\<close>

theorem rto_is_clamped_backoff:
  assumes "unat min_ns \<le> unat max_ns" "unat max_ns \<le> 2 ^ 63"
  shows "unat (rto_ns min_ns max_ns initial_ns c) =
      min (unat max_ns) (2 ^ unat (cc_backoff c) *
        max (unat min_ns) (min (unat max_ns) (unat (rto_base initial_ns c)))) \<and>
    unat min_ns \<le> unat (rto_ns min_ns max_ns initial_ns c) \<and>
    unat (rto_ns min_ns max_ns initial_ns c) \<le> unat max_ns"
proof -
  let ?b = "rto_base initial_ns c"
  let ?r = "if ?b < min_ns then min_ns else if ?b > max_ns then max_ns else ?b"
  have r: "unat ?r = max (unat min_ns) (min (unat max_ns) (unat ?b))"
    using assms(1) by (auto simp: word_less_nat_alt)
  have "unat (rto_ns min_ns max_ns initial_ns c) =
      min (unat max_ns) (unat (double_until (unat (cc_backoff c)) max_ns ?r))"
    by (simp add: rto_ns_def Let_def word_less_nat_alt)
  then have e: "unat (rto_ns min_ns max_ns initial_ns c) = min (unat max_ns) (2 ^ unat (cc_backoff c) * unat ?r)"
    using double_until_eq [OF assms(2), of ?r "unat (cc_backoff c)"] r assms(1) by simp
  have "unat ?r \<le> 2 ^ unat (cc_backoff c) * unat ?r" by simp
  moreover have "unat min_ns \<le> unat ?r" unfolding r by simp
  ultimately have "unat min_ns \<le> 2 ^ unat (cc_backoff c) * unat ?r" by (rule order_trans [rotated])
  then show ?thesis using e r assms(1) by simp
qed

theorem rto_is_clamped_backoff_witness:
  "unat (10000000 :: u64) \<le> unat (2000000000 :: u64) \<and> unat (2000000000 :: u64) \<le> 2 ^ 63 \<and>
   unat (rto_ns 10000000 2000000000 200000000 (on_timeout (new_controller 64 True 3 2))) \<le> 2000000000"
  using rto_is_clamped_backoff [of 10000000 2000000000 200000000 "on_timeout (new_controller 64 True 3 2)"]
  by simp

end
