(* ===== verification/Digest.thy ===== *)
theory Digest
  imports Wire
begin

text \<open>
  File digests (\<^verbatim>\<open>include/fuse/proto/digest.hpp\<close>, \<^verbatim>\<open>src/proto/digest.cpp\<close>). \<open>Digest\<close> is the
  interface of \<^verbatim>\<open>FileDigest\<close>; \<open>fnv_digest\<close> is the build without a crypto backend and \<open>sha_digest\<close>
  the build with one, over parameters for wolfSSL's SHA-256. The segmented digest is modelled with
  its worker threads: every interleaving of claiming a segment and storing its hash.
\<close>

section \<open>FileDigest\<close>

record 's Digest =
  dg_init :: 's
  dg_update :: "byte list \<Rightarrow> 's \<Rightarrow> 's"
  dg_finish :: "'s \<Rightarrow> byte list"

definition kFileDigestLen :: nat where [simp]: "kFileDigestLen = 32"

definition fnv_init :: "u64 list" where
  "fnv_init = map (\<lambda>i. 1469598103934665603 XOR (0x9E3779B97F4A7C15 * (of_nat i + 1))) [0..<4]"

definition fnv_byte :: "byte \<Rightarrow> u64 list \<Rightarrow> u64 list" where
  "fnv_byte b hs = map (\<lambda>h. (h XOR ucast b) * 1099511628211) hs"

definition fnv_update :: "byte list \<Rightarrow> u64 list \<Rightarrow> u64 list" where
  "fnv_update data hs = fold fnv_byte data hs"

definition fnv_finish :: "u64 list \<Rightarrow> byte list" where
  "fnv_finish hs = concat (map (\<lambda>i. map (\<lambda>b. ucast (drop_bit (56 - 8 * b) (hs ! i))) [0..<8]) [0..<4])"

definition fnv_digest :: "u64 list Digest" where
  "fnv_digest = \<lparr>dg_init = fnv_init, dg_update = fnv_update, dg_finish = fnv_finish\<rparr>"

text \<open>
  With wolfSSL: \<open>init\<close> is the state \<^verbatim>\<open>wc_InitSha256\<close> made, or \<^term>\<open>None\<close> if it failed; the update
  loop cuts very large buffers, because the library takes a 32-bit length.
\<close>

function sha_update_loop :: "(byte list \<Rightarrow> 's \<Rightarrow> 's) \<Rightarrow> byte list \<Rightarrow> 's \<Rightarrow> 's" where
  "sha_update_loop upd data s =
     (if data = [] then s
      else let n = (if length data > 2 ^ 30 then 2 ^ 30 else length data)
           in sha_update_loop upd (drop n data) (upd (take n data) s))"
  by pat_completeness auto
termination
  by (relation "measure (\<lambda>(upd, data, s). length data)") auto

declare sha_update_loop.simps [simp del]

definition sha_digest ::
  "'s option \<Rightarrow> (byte list \<Rightarrow> 's \<Rightarrow> 's) \<Rightarrow> ('s \<Rightarrow> byte list) \<Rightarrow> 's option Digest" where
  "sha_digest init upd fin =
     \<lparr>dg_init = init,
      dg_update = (\<lambda>data st. case st of None \<Rightarrow> None
                    | Some s \<Rightarrow> if data = [] then Some s else Some (sha_update_loop upd data s)),
      dg_finish = (\<lambda>st. case st of None \<Rightarrow> replicate kFileDigestLen 0 | Some s \<Rightarrow> fin s)\<rparr>"

definition file_digest :: "'s Digest \<Rightarrow> byte list \<Rightarrow> byte list" where
  "file_digest d data = dg_finish d (dg_update d data (dg_init d))"

section \<open>Segmented digests\<close>

definition kSegment :: u64 where [simp]: "kSegment = push_bit 20 64"

definition segment_count :: "u64 \<Rightarrow> u64" where
  "segment_count len = max 1 ((len + kSegment - 1) div kSegment)"

definition segment_range :: "u64 \<Rightarrow> u64 \<Rightarrow> u64 \<times> u64" where
  "segment_range len i = (let off = i * kSegment in (off, min kSegment (len - min off len)))"

definition thread_count :: "nat \<Rightarrow> u64 \<Rightarrow> nat" where
  "thread_count hardware len = min (min (max 1 hardware) (unat (segment_count len))) 16"

text \<open>
  The worker threads: \<open>sg_next\<close> is the shared counter, \<open>sg_running\<close> how many threads are still in
  their loop, \<open>sg_busy\<close> the segments threads have claimed and are hashing, \<open>sg_hash\<close> the array of
  results. \<open>hash\<close> is \<^verbatim>\<open>hash_segment\<close>, which also says whether it succeeded.
\<close>

record seg_state =
  sg_next :: u64
  sg_running :: nat
  sg_busy :: "u64 list"
  sg_hash :: "byte list list"
  sg_ok :: bool

inductive seg_step ::
  "u64 \<Rightarrow> (u64 \<Rightarrow> u64 \<Rightarrow> bool \<times> byte list) \<Rightarrow> seg_state \<Rightarrow> seg_state \<Rightarrow> bool" for len hash where
  claim: "length (sg_busy s) < sg_running s \<Longrightarrow> sg_next s < segment_count len \<Longrightarrow>
     seg_step len hash s (s\<lparr>sg_next := sg_next s + 1, sg_busy := sg_busy s @ [sg_next s]\<rparr>)"
| hashed: "i \<in> set (sg_busy s) \<Longrightarrow> segment_range len i = (off, n) \<Longrightarrow> hash off n = (ok, h) \<Longrightarrow>
     seg_step len hash s (s\<lparr>sg_busy := remove1 i (sg_busy s),
       sg_hash := (sg_hash s)[unat i := h], sg_ok := (sg_ok s \<and> ok)\<rparr>)"
| leave: "length (sg_busy s) < sg_running s \<Longrightarrow> sg_next s \<ge> segment_count len \<Longrightarrow>
     seg_step len hash s (s\<lparr>sg_next := sg_next s + 1, sg_running := sg_running s - 1\<rparr>)"

inductive seg_reach ::
  "nat \<Rightarrow> u64 \<Rightarrow> (u64 \<Rightarrow> u64 \<Rightarrow> bool \<times> byte list) \<Rightarrow> seg_state \<Rightarrow> bool" for hardware len hash where
  seg_start: "seg_reach hardware len hash
     \<lparr>sg_next = 0, sg_running = thread_count hardware len, sg_busy = [],
      sg_hash = replicate (unat (segment_count len)) (replicate 32 0), sg_ok = True\<rparr>"
| seg_next: "seg_reach hardware len hash s \<Longrightarrow> seg_step len hash s t \<Longrightarrow> seg_reach hardware len hash t"

text \<open>All threads have been joined.\<close>

definition seg_done :: "seg_state \<Rightarrow> bool" where
  "seg_done s \<longleftrightarrow> sg_running s = 0"

text \<open>After the join: the digest of the segment hashes and the length.\<close>

definition segmented_finish :: "'s Digest \<Rightarrow> u64 \<Rightarrow> seg_state \<Rightarrow> bool \<times> byte list" where
  "segmented_finish d len s =
     (sg_ok s, dg_finish d (dg_update d (put_u64 len) (fold (dg_update d) (sg_hash s) (dg_init d))))"

definition hash_in_memory :: "'s Digest \<Rightarrow> byte list \<Rightarrow> u64 \<Rightarrow> u64 \<Rightarrow> bool \<times> byte list" where
  "hash_in_memory d data off n = (True, file_digest d (take (unat n) (drop (unat off) data)))"

text \<open>
  What the calls of \<^verbatim>\<open>pread\<close> for one segment return, in order: interrupted, failed or at end of
  file, or some bytes. The loop is undetermined (\<^term>\<open>None\<close>) while it waits for the next result.
\<close>

datatype pread_result = Interrupted | PreadFailed | Got "byte list"

fun pread_loop :: "'s Digest \<Rightarrow> nat \<Rightarrow> nat \<Rightarrow> pread_result list \<Rightarrow> 's \<Rightarrow> 's option option" where
  "pread_loop d n done rs s =
     (if done \<ge> n then Some (Some s)
      else case rs of
        [] \<Rightarrow> None
      | Interrupted # rs' \<Rightarrow> pread_loop d n done rs' s
      | PreadFailed # rs' \<Rightarrow> Some None
      | Got bs # rs' \<Rightarrow> pread_loop d n (done + length bs) rs' (dg_update d bs s))"

definition hash_from_fd :: "'s Digest \<Rightarrow> (u64 \<Rightarrow> pread_result list) \<Rightarrow> u64 \<Rightarrow> u64 \<Rightarrow> (bool \<times> byte list) option" where
  "hash_from_fd d reads off n =
     (case pread_loop d (unat n) 0 (reads off) (dg_init d) of
        None \<Rightarrow> None
      | Some None \<Rightarrow> Some (False, replicate 32 0)
      | Some (Some s) \<Rightarrow> Some (True, dg_finish d s))"

section \<open>Every schedule of the worker threads gives the same digest\<close>

definition seg_result :: "(u64 \<Rightarrow> u64 \<Rightarrow> bool \<times> byte list) \<Rightarrow> u64 \<Rightarrow> nat \<Rightarrow> bool \<times> byte list" where
  "seg_result hash len i = case_prod hash (segment_range len (of_nat i))"

text \<open>The segments whose hash has been stored.\<close>

definition seg_stored :: "u64 \<Rightarrow> seg_state \<Rightarrow> nat \<Rightarrow> bool" where
  "seg_stored len s i \<longleftrightarrow>
     i < unat (sg_next s) \<and> i < unat (segment_count len) \<and> of_nat i \<notin> set (sg_busy s)"

definition seg_inv :: "u64 \<Rightarrow> (u64 \<Rightarrow> u64 \<Rightarrow> bool \<times> byte list) \<Rightarrow> seg_state \<Rightarrow> bool" where
  "seg_inv len hash s \<longleftrightarrow>
     sg_running s \<le> 16 \<and>
     (unat (sg_next s) \<le> unat (segment_count len) \<or> unat (sg_next s) + sg_running s \<le> unat (segment_count len) + 16) \<and>
     (sg_running s = 0 \<longrightarrow> unat (segment_count len) \<le> unat (sg_next s)) \<and>
     distinct (sg_busy s) \<and> length (sg_busy s) \<le> sg_running s \<and>
     length (sg_hash s) = unat (segment_count len) \<and>
     (\<forall>i \<in> set (sg_busy s). unat i < unat (sg_next s) \<and> unat i < unat (segment_count len)) \<and>
     (\<forall>i. seg_stored len s i \<longrightarrow> sg_hash s ! i = snd (seg_result hash len i)) \<and>
     sg_ok s = (\<forall>i. seg_stored len s i \<longrightarrow> fst (seg_result hash len i))"

lemma of_nat_eq_u64: "i < 2 ^ 64 \<Longrightarrow> (of_nat i :: u64) = w \<longleftrightarrow> i = unat w"
  by (auto simp: word_unat_eq_iff unat_of_nat)

lemma segment_count_bound: "unat (segment_count len) < 2 ^ 63"
proof -
  have "unat ((len + kSegment - 1) div kSegment) \<le> unat (len + kSegment - 1) div unat kSegment"
    by (simp add: unat_div)
  also have "\<dots> < 2 ^ 63" using unat_u64_less [of "len + kSegment - 1"] by (simp add: less_mult_imp_div_less)
  finally show ?thesis by (simp add: segment_count_def max_def)
qed

lemma seg_step_inv:
  assumes "seg_step len hash s t" "seg_inv len hash s"
  shows "seg_inv len hash t"
  using assms
proof (induction rule: seg_step.induct)
  case (claim s)
  let ?t = "s\<lparr>sg_next := sg_next s + 1, sg_busy := sg_busy s @ [sg_next s]\<rparr>"
  have u: "unat (sg_next s + 1) = unat (sg_next s) + 1" using claim.hyps(2) by (rule unat_suc)
  have nb: "sg_next s \<notin> set (sg_busy s)" using claim.prems by (auto simp: seg_inv_def)
  have e: "(of_nat i :: u64) = sg_next s \<longleftrightarrow> i = unat (sg_next s)" if "i < unat (segment_count len)" for i
    using that segment_count_bound [of len] by (intro of_nat_eq_u64) simp
  have lt: "unat (sg_next s) < unat (segment_count len)" using claim by (simp add: word_less_nat_alt)
  have "seg_stored len ?t i = seg_stored len s i" for i
    using e [of i] u by (auto simp: seg_stored_def less_Suc_eq)
  with claim nb lt u show ?case unfolding seg_inv_def by (simp add: less_Suc_eq)
next
  case (hashed i s off n ok h)
  let ?t = "s\<lparr>sg_busy := remove1 i (sg_busy s), sg_hash := (sg_hash s)[unat i := h], sg_ok := (sg_ok s \<and> ok)\<rparr>"
  have i: "unat i < unat (sg_next s)" "unat i < unat (segment_count len)" "unat i < length (sg_hash s)"
    using hashed by (auto simp: seg_inv_def)
  have r: "seg_result hash len (unat i) = (ok, h)" using hashed by (simp add: seg_result_def)
  have b: "set (remove1 i (sg_busy s)) = set (sg_busy s) - {i}" "length (remove1 i (sg_busy s)) \<le> sg_running s"
    using hashed by (auto simp: seg_inv_def length_remove1)
  have e: "(of_nat j :: u64) = i \<longleftrightarrow> j = unat i" if "j < unat (segment_count len)" for j
    using that segment_count_bound [of len] by (intro of_nat_eq_u64) simp
  have st: "seg_stored len ?t j \<longleftrightarrow> seg_stored len s j \<or> j = unat i" for j
    using e [of j] i b by (auto simp: seg_stored_def)
  have up: "(sg_hash s)[unat i := h] ! j = (if j = unat i then h else sg_hash s ! j)" for j
    using i(3) by (simp add: nth_list_update)
  from hashed.prems i r b show ?case
    unfolding seg_inv_def st by (simp add: up) blast
next
  case (leave s)
  let ?t = "s\<lparr>sg_next := sg_next s + 1, sg_running := sg_running s - 1\<rparr>"
  have ge: "unat (segment_count len) \<le> unat (sg_next s)" using leave by (simp add: word_le_nat_alt)
  have bd: "unat (sg_next s) + sg_running s \<le> unat (segment_count len) + 16"
    using leave ge by (auto simp: seg_inv_def)
  then have "unat (sg_next s) + 1 < 2 ^ 64" using segment_count_bound [of len] by simp
  then have u: "unat (sg_next s + 1) = unat (sg_next s) + 1" using unat_add_lt [of "sg_next s" 1] by simp
  have "seg_stored len ?t i = seg_stored len s i" for i using ge u by (auto simp: seg_stored_def)
  with leave u ge bd show ?case unfolding seg_inv_def by (auto simp: less_Suc_eq)
qed

lemma seg_reach_inv: "seg_reach hw len hash s \<Longrightarrow> seg_inv len hash s"
proof (induction rule: seg_reach.induct)
  case seg_start
  have "1 \<le> unat (segment_count len)" by (simp add: segment_count_def max_def word_le_nat_alt)
  then show ?case by (auto simp: seg_inv_def seg_stored_def thread_count_def)
qed (rule seg_step_inv)

definition segmented_spec :: "'s Digest \<Rightarrow> u64 \<Rightarrow> (u64 \<Rightarrow> u64 \<Rightarrow> bool \<times> byte list) \<Rightarrow> bool \<times> byte list" where
  "segmented_spec d len hash =
     (let rs = map (seg_result hash len) [0..<unat (segment_count len)] in
      (list_all fst rs, dg_finish d (dg_update d (put_u64 len) (fold (dg_update d) (map snd rs) (dg_init d)))))"

text \<open>
  C35: the multi-threaded segmented digest is deterministic. However the worker threads
  interleave claiming segments and storing their hashes, once all are joined the result is the
  digest of the segment hashes in order followed by the length, and it reports success exactly
  when every segment was hashed successfully.
\<close>

theorem segmented_digest_deterministic:
  assumes "seg_reach hardware len hash s" "seg_done s"
  shows "segmented_finish d len s = segmented_spec d len hash"
proof -
  have i: "seg_inv len hash s" by (rule seg_reach_inv [OF assms(1)])
  then have b: "sg_busy s = []" and n: "unat (segment_count len) \<le> unat (sg_next s)"
    using assms(2) by (auto simp: seg_inv_def seg_done_def)
  then have st: "seg_stored len s j \<longleftrightarrow> j < unat (segment_count len)" for j by (auto simp: seg_stored_def)
  have "sg_hash s = map (\<lambda>j. snd (seg_result hash len j)) [0..<unat (segment_count len)]"
    using i st by (intro nth_equalityI) (auto simp: seg_inv_def)
  moreover have "sg_ok s = list_all fst (map (seg_result hash len) [0..<unat (segment_count len)])"
    using i st by (auto simp: seg_inv_def list_all_iff)
  ultimately show ?thesis by (simp add: segmented_finish_def segmented_spec_def Let_def comp_def)
qed

theorem segmented_digest_deterministic_witness:
  "\<exists>s. seg_reach 4 3 (hash_in_memory fnv_digest [1, 2, 3]) s \<and> seg_done s \<and>
     segmented_finish fnv_digest 3 s = segmented_spec fnv_digest 3 (hash_in_memory fnv_digest [1, 2, 3])"
proof -
  let ?hash = "hash_in_memory fnv_digest [1, 2, 3]"
  let ?s0 = "\<lparr>sg_next = 0, sg_running = 1, sg_busy = [], sg_hash = [replicate 32 0], sg_ok = True\<rparr>"
  let ?s1 = "?s0\<lparr>sg_next := 1, sg_busy := [0]\<rparr>"
  let ?s2 = "?s1\<lparr>sg_busy := [], sg_hash := [snd (?hash 0 3)]\<rparr>"
  let ?s3 = "?s2\<lparr>sg_next := 2, sg_running := 0\<rparr>"
  have c: "segment_count 3 = 1" "segment_range 3 0 = (0, 3)" "?hash 0 3 = (True, snd (?hash 0 3))"
    by (simp_all add: segment_count_def segment_range_def hash_in_memory_def)
  have "seg_reach 4 3 ?hash ?s0"
    using seg_reach.seg_start [of 4 3 ?hash] by (simp add: c(1) thread_count_def)
  moreover have "seg_step 3 ?hash ?s0 ?s1" using seg_step.claim [of ?s0 3 ?hash] by (simp add: c(1))
  moreover have "seg_step 3 ?hash ?s1 ?s2" using seg_step.hashed [of 0 ?s1 3 0 3 ?hash True "snd (?hash 0 3)"] c(2,3) by simp
  moreover have "seg_step 3 ?hash ?s2 ?s3" using seg_step.leave [of ?s2 3 ?hash] by (simp add: c(1))
  ultimately have r: "seg_reach 4 3 ?hash ?s3" by (meson seg_reach.seg_next)
  have "seg_done ?s3" by (simp add: seg_done_def)
  with segmented_digest_deterministic [OF r this] r show ?thesis by blast
qed

section \<open>The digest does not depend on how the file was read\<close>

definition streaming :: "'s Digest \<Rightarrow> bool" where
  "streaming d \<longleftrightarrow> (\<forall>s. dg_update d [] s = s) \<and>
     (\<forall>a b s. dg_update d (a @ b) s = dg_update d b (dg_update d a s))"

lemma fnv_streaming: "streaming fnv_digest"
  by (simp add: streaming_def fnv_digest_def fnv_update_def)

text \<open>
  wolfSSL documents that feeding a hash in pieces is feeding the concatenation; the loop that
  cuts large buffers then preserves this.
\<close>

lemma sha_update_loop_once:
  assumes "\<And>a b s. upd (a @ b) s = upd b (upd a s)" "\<And>s. upd [] s = s"
  shows "sha_update_loop upd data s = upd data s"
proof (induction data arbitrary: s rule: length_induct)
  case (1 data)
  let ?n = "if length data > 2 ^ 30 then 2 ^ 30 else length data"
  have eq: "upd (drop ?n data) (upd (take ?n data) s) = upd data s"
    using assms(1) [of "take ?n data" "drop ?n data" s] by simp
  show ?case
  proof (cases "data = []")
    case False
    then have "length (drop ?n data) < length data" by auto
    then have lp: "sha_update_loop upd (drop ?n data) s' = upd (drop ?n data) s'" for s' using 1 by blast
    show ?thesis by (subst sha_update_loop.simps) (simp only: Let_def False if_False lp eq)
  qed (simp add: sha_update_loop.simps assms(2))
qed

lemma sha_streaming:
  assumes "\<And>a b s. upd (a @ b) s = upd b (upd a s)" "\<And>s. upd [] s = s"
  shows "streaming (sha_digest init upd fin)"
  using assms by (auto simp: streaming_def sha_digest_def sha_update_loop_once [OF assms] split: option.splits)

fun read_bytes :: "pread_result list \<Rightarrow> byte list" where
  "read_bytes [] = []"
| "read_bytes (Got bs # rs) = bs @ read_bytes rs"
| "read_bytes (r # rs) = read_bytes rs"

definition progressing :: "pread_result list \<Rightarrow> bool" where
  "progressing rs \<longleftrightarrow> (\<forall>r \<in> set rs. r \<noteq> PreadFailed \<and> r \<noteq> Got [])"

declare pread_loop.simps [simp del]

lemma pread_loop_reads:
  assumes "streaming d" "progressing rs"
  shows "pread_loop d (k + length (read_bytes rs)) k rs s = Some (Some (dg_update d (read_bytes rs) s))"
  using assms(2)
proof (induction rs arbitrary: k s)
  case Nil
  then show ?case using assms(1) by (simp add: pread_loop.simps streaming_def)
next
  case (Cons r rs)
  have p: "progressing rs" using Cons.prems by (simp add: progressing_def)
  show ?case
  proof (cases r)
    case Interrupted
    show ?thesis
    proof (cases "read_bytes rs = []")
      case True
      with Interrupted assms(1) show ?thesis by (subst pread_loop.simps) (simp add: streaming_def)
    next
      case False
      with Interrupted Cons.IH [OF p] show ?thesis by (subst pread_loop.simps) simp
    qed
  next
    case (Got bs)
    then have "bs \<noteq> []" using Cons.prems by (auto simp: progressing_def)
    with Got Cons.IH [OF p, of "k + length bs" "dg_update d bs s"] assms(1) show ?thesis
      by (subst pread_loop.simps) (simp add: streaming_def add.assoc)
  qed (use Cons.prems in \<open>simp add: progressing_def\<close>)
qed



end
