(* ===== verification/Orchestrator.thy ===== *)
theory Orchestrator
  imports Fuse_Prelude Complex_Main
begin

text \<open>
  The worker pool (\<^verbatim>\<open>include/fuse/proto/orchestrator.hpp\<close>, \<^verbatim>\<open>src/proto/orchestrator.cpp\<close>): workers
  charge their time to counters, and a control thread adds or retires one worker at a time.
  Utilisations and thresholds, \<^verbatim>\<open>double\<close> in the source, are reals here. The mutex makes \<^verbatim>\<open>start\<close>,
  \<^verbatim>\<open>stop\<close> and the decision of \<^verbatim>\<open>tick\<close> atomic, so an execution is a sequence of events; the clock
  is an argument.
\<close>

section \<open>State and operations\<close>

record Worker =
  wk_id :: u16
  wk_drain :: bool
  wk_busy_ns :: u64
  wk_total_ns :: u64
  wk_exited :: bool

record OrchestratorConfig =
  oc_min_workers :: u16
  oc_max_workers :: u16
  oc_target_utilization :: real
  oc_scale_in_utilization :: real
  oc_stabilization_ns :: u64

record WorkerOrchestrator =
  wo_config :: OrchestratorConfig
  wo_workers :: "Worker list"
  wo_next_id :: u16
  wo_last_action_ns :: u64
  wo_running :: bool
  wo_scale_outs :: u64
  wo_scale_ins :: u64
  wo_ticks :: u64
  wo_last_util_milli :: u64

record OrchestratorStats =
  os_scale_outs :: u64
  os_scale_ins :: u64
  os_ticks :: u64
  os_last_utilization :: real

definition new_orchestrator :: "OrchestratorConfig \<Rightarrow> WorkerOrchestrator" where
  "new_orchestrator config =
     \<lparr>wo_config = (if oc_max_workers config < oc_min_workers config
                   then config\<lparr>oc_max_workers := oc_min_workers config\<rparr> else config),
      wo_workers = [], wo_next_id = 0, wo_last_action_ns = 0, wo_running = False,
      wo_scale_outs = 0, wo_scale_ins = 0, wo_ticks = 0, wo_last_util_milli = 0\<rparr>"

definition spawn_worker :: "WorkerOrchestrator \<Rightarrow> WorkerOrchestrator" where
  "spawn_worker o' =
     o'\<lparr>wo_workers := wo_workers o' @ [\<lparr>wk_id = wo_next_id o', wk_drain = False, wk_busy_ns = 0,
          wk_total_ns = 0, wk_exited = False\<rparr>],
        wo_next_id := wo_next_id o' + 1\<rparr>"

function start_loop :: "WorkerOrchestrator \<Rightarrow> WorkerOrchestrator" where
  "start_loop o' =
     (if length (wo_workers o') < unat (oc_min_workers (wo_config o'))
      then start_loop (spawn_worker o') else o')"
  by pat_completeness auto
termination
  by (relation "measure (\<lambda>o'. unat (oc_min_workers (wo_config o')) - length (wo_workers o'))")
     (auto simp: spawn_worker_def)

declare start_loop.simps [simp del]

definition orch_start :: "u64 \<Rightarrow> WorkerOrchestrator \<Rightarrow> WorkerOrchestrator" where
  "orch_start now o' =
     (if wo_running o' then o'
      else start_loop (o'\<lparr>wo_running := True, wo_last_action_ns := now\<rparr>))"

text \<open>\<^verbatim>\<open>stop\<close> also returns the workers it drained and then joins.\<close>

definition orch_stop :: "WorkerOrchestrator \<Rightarrow> Worker list \<times> WorkerOrchestrator" where
  "orch_stop o' =
     (if \<not> wo_running o' \<and> wo_workers o' = [] then ([], o')
      else (map (\<lambda>w. w\<lparr>wk_drain := True\<rparr>) (wo_workers o'),
            o'\<lparr>wo_running := False, wo_workers := []\<rparr>))"

text \<open>
  One turn of \<^verbatim>\<open>run_worker\<close>: \<^term>\<open>dt\<close> is the measured time of the task and \<open>did_work\<close> its result.
  A drained worker leaves its loop.
\<close>

definition worker_turn :: "u64 \<Rightarrow> bool \<Rightarrow> Worker \<Rightarrow> Worker" where
  "worker_turn dt did_work w =
     (if wk_drain w then w\<lparr>wk_exited := True\<rparr>
      else let w = w\<lparr>wk_total_ns := wk_total_ns w + dt\<rparr> in
           if did_work then w\<lparr>wk_busy_ns := wk_busy_ns w + dt\<rparr>
           else w\<lparr>wk_total_ns := wk_total_ns w + 200000\<rparr>)"

definition worker_util :: "Worker \<Rightarrow> real" where
  "worker_util w =
     (if wk_total_ns w > 0 then real (unat (wk_busy_ns w)) / real (unat (wk_total_ns w)) else 0)"

definition mean_util :: "Worker list \<Rightarrow> real" where
  "mean_util ws = sum_list (map worker_util ws) / real (length ws)"

text \<open>\<^verbatim>\<open>tick\<close>, with the worker it retires and joins.\<close>

definition orch_tick :: "u64 \<Rightarrow> WorkerOrchestrator \<Rightarrow> Worker option \<times> WorkerOrchestrator" where
  "orch_tick now o' =
     (if \<not> wo_running o' \<or> wo_workers o' = [] then (None, o')
      else
        let o' = o'\<lparr>wo_ticks := wo_ticks o' + 1\<rparr>;
            util = mean_util (wo_workers o');
            o' = o'\<lparr>wo_workers := map (\<lambda>w. w\<lparr>wk_busy_ns := 0, wk_total_ns := 0\<rparr>) (wo_workers o'),
                     wo_last_util_milli := of_nat (nat \<lfloor>util * 1000\<rfloor>)\<rparr>
        in if now - wo_last_action_ns o' < oc_stabilization_ns (wo_config o') then (None, o')
           else if util > oc_target_utilization (wo_config o') \<and>
                   length (wo_workers o') < unat (oc_max_workers (wo_config o'))
           then (None, (spawn_worker o')\<lparr>wo_last_action_ns := now, wo_scale_outs := wo_scale_outs o' + 1\<rparr>)
           else if util < oc_scale_in_utilization (wo_config o') \<and>
                   length (wo_workers o') > unat (oc_min_workers (wo_config o'))
           then (Some ((last (wo_workers o'))\<lparr>wk_drain := True\<rparr>),
                 o'\<lparr>wo_workers := butlast (wo_workers o'), wo_last_action_ns := now,
                    wo_scale_ins := wo_scale_ins o' + 1\<rparr>)
           else (None, o'))"

definition orch_stats :: "WorkerOrchestrator \<Rightarrow> OrchestratorStats" where
  "orch_stats o' =
     \<lparr>os_scale_outs = wo_scale_outs o', os_scale_ins = wo_scale_ins o', os_ticks = wo_ticks o',
      os_last_utilization = real (unat (wo_last_util_milli o')) / 1000\<rparr>"

definition worker_count :: "WorkerOrchestrator \<Rightarrow> u16" where
  "worker_count o' = of_nat (length (wo_workers o'))"

section \<open>The pool keeps its bounds\<close>

datatype orch_event = Start u64 | Tick u64 | Stop | Turn nat u64 bool

fun orch_step :: "orch_event \<Rightarrow> WorkerOrchestrator \<Rightarrow> WorkerOrchestrator" where
  "orch_step (Start now) o' = orch_start now o'"
| "orch_step (Tick now) o' = snd (orch_tick now o')"
| "orch_step Stop o' = snd (orch_stop o')"
| "orch_step (Turn i dt did) o' =
     (if i < length (wo_workers o')
      then o'\<lparr>wo_workers := (wo_workers o')[i := worker_turn dt did (wo_workers o' ! i)]\<rparr> else o')"

definition orch_inv :: "WorkerOrchestrator \<Rightarrow> bool" where
  "orch_inv o' \<longleftrightarrow>
     unat (oc_min_workers (wo_config o')) \<le> unat (oc_max_workers (wo_config o')) \<and>
     (if wo_running o'
      then unat (oc_min_workers (wo_config o')) \<le> length (wo_workers o') \<and>
           length (wo_workers o') \<le> unat (oc_max_workers (wo_config o')) \<and>
           (\<forall>w \<in> set (wo_workers o'). \<not> wk_drain w)
      else wo_workers o' = [])"

lemma start_loop_grows:
  assumes "length (wo_workers o') \<le> unat (oc_min_workers (wo_config o'))" "\<forall>w \<in> set (wo_workers o'). \<not> wk_drain w"
  shows "length (wo_workers (start_loop o')) = unat (oc_min_workers (wo_config o')) \<and>
    wo_config (start_loop o') = wo_config o' \<and> wo_running (start_loop o') = wo_running o' \<and>
    wo_last_action_ns (start_loop o') = wo_last_action_ns o' \<and>
    (\<forall>w \<in> set (wo_workers (start_loop o')). \<not> wk_drain w)"
  using assms
proof (induction o' rule: start_loop.induct)
  case (1 o')
  show ?case
  proof (cases "length (wo_workers o') < unat (oc_min_workers (wo_config o'))")
    case True
    from "1.IH" [OF True] "1.prems" True show ?thesis
      by (subst (1 2 3 4 5) start_loop.simps) (simp add: spawn_worker_def)
  qed (use "1.prems" in \<open>simp add: start_loop.simps\<close>)
qed

lemma orch_tick_inv:
  "orch_inv o' \<Longrightarrow> orch_inv (snd (orch_tick now o')) \<and> wo_config (snd (orch_tick now o')) = wo_config o'"
  by (auto simp: orch_tick_def orch_inv_def spawn_worker_def Let_def dest!: in_set_butlastD)

lemma orch_step_inv:
  assumes "orch_inv o'"
  shows "orch_inv (orch_step e o') \<and> wo_config (orch_step e o') = wo_config o'"
proof (cases e)
  case (Start now)
  show ?thesis
  proof (cases "wo_running o'")
    case False
    let ?o = "o'\<lparr>wo_running := True, wo_last_action_ns := now\<rparr>"
    have "wo_workers o' = []" using assms False by (simp add: orch_inv_def)
    with start_loop_grows [of ?o] assms False Start show ?thesis
      by (simp add: orch_start_def orch_inv_def)
  qed (use assms Start in \<open>simp add: orch_start_def\<close>)
next
  case (Turn i dt did)
  have "\<not> wk_drain (worker_turn dt did w)" if "\<not> wk_drain w" for w
    using that by (simp add: worker_turn_def Let_def)
  with assms Turn show ?thesis
    by (auto simp: orch_inv_def dest!: set_update_subset_insert [THEN subsetD])
next
  case Stop
  with assms show ?thesis by (auto simp: orch_stop_def orch_inv_def)
qed (use orch_tick_inv [OF assms] in simp)

lemma orch_run_inv:
  "orch_inv o' \<Longrightarrow> orch_inv (fold orch_step es o') \<and> wo_config (fold orch_step es o') = wo_config o'"
  by (induction es arbitrary: o') (simp_all add: orch_step_inv)

lemma orch_new_inv: "orch_inv (new_orchestrator config)"
  by (simp add: orch_inv_def new_orchestrator_def word_less_nat_alt)

text \<open>
  C37: over any sequence of starts, stops, ticks and worker turns, a running pool holds at least
  the configured minimum and at most the configured maximum of workers (the minimum where the
  maximum is configured below it) and none of them has been told to drain; a stopped pool is empty.
\<close>

theorem orchestrator_bounds:
  assumes "o' = fold orch_step events (new_orchestrator config)"
  shows "if wo_running o'
    then unat (oc_min_workers config) \<le> length (wo_workers o') \<and>
         length (wo_workers o') \<le> max (unat (oc_min_workers config)) (unat (oc_max_workers config)) \<and>
         (\<forall>w \<in> set (wo_workers o'). \<not> wk_drain w)
    else wo_workers o' = []"
proof -
  have i: "orch_inv o'" "wo_config o' = wo_config (new_orchestrator config)"
    using orch_run_inv [OF orch_new_inv] assms by auto
  have "unat (oc_min_workers (wo_config o')) = unat (oc_min_workers config)"
    "unat (oc_max_workers (wo_config o')) = max (unat (oc_min_workers config)) (unat (oc_max_workers config))"
    unfolding i(2) by (auto simp: new_orchestrator_def word_less_nat_alt)
  with i(1) show ?thesis by (auto simp: orch_inv_def)
qed

definition demo_orch :: OrchestratorConfig where
  "demo_orch = \<lparr>oc_min_workers = 2, oc_max_workers = 8, oc_target_utilization = 7 / 10,
     oc_scale_in_utilization = 3 / 10, oc_stabilization_ns = 200000000\<rparr>"

theorem orchestrator_bounds_witness:
  "let o' = fold orch_step [Start 5, Turn 0 100 True, Turn 1 100 True, Tick 300000000] (new_orchestrator demo_orch)
   in if wo_running o' then 2 \<le> length (wo_workers o') \<and> length (wo_workers o') \<le> 8 else wo_workers o' = []"
  using orchestrator_bounds [OF refl, of "[Start 5, Turn 0 100 True, Turn 1 100 True, Tick 300000000]" demo_orch]
  by (simp add: Let_def demo_orch_def split: if_splits)

text \<open>
  A tick changes the pool by at most one worker, and only when the stabilisation interval
  has passed since the last change, which it then restarts: it adds a worker above the target
  utilisation and below the maximum, and retires the newest, telling it to drain, below the
  scale-in utilisation and above the minimum. The utilisation window restarts with every tick.
\<close>

theorem tick_scales_by_one:
  assumes "orch_tick now o' = (retired, p)" "wo_running o'" "wo_workers o' \<noteq> []"
  shows "(length (wo_workers p) = length (wo_workers o') \<and> retired = None \<and>
            wo_last_action_ns p = wo_last_action_ns o' \<or>
          \<not> now - wo_last_action_ns o' < oc_stabilization_ns (wo_config o') \<and> wo_last_action_ns p = now \<and>
          (length (wo_workers p) = length (wo_workers o') + 1 \<and> retired = None \<and>
             mean_util (wo_workers o') > oc_target_utilization (wo_config o') \<and>
             length (wo_workers o') < unat (oc_max_workers (wo_config o')) \<or>
           length (wo_workers p) + 1 = length (wo_workers o') \<and>
             (\<exists>w. retired = Some w \<and> wk_drain w \<and> wk_id w = wk_id (last (wo_workers o'))) \<and>
             mean_util (wo_workers o') < oc_scale_in_utilization (wo_config o') \<and>
             length (wo_workers o') > unat (oc_min_workers (wo_config o')))) \<and>
    (\<forall>w \<in> set (wo_workers p). wk_busy_ns w = 0 \<and> wk_total_ns w = 0)"
  using assms
  by (auto simp: orch_tick_def spawn_worker_def Let_def last_map split: if_splits dest!: in_set_butlastD)

theorem tick_scales_by_one_witness:
  "let o' = fold orch_step [Start 5, Turn 0 100 True] (new_orchestrator demo_orch);
       p = snd (orch_tick 300000000 o')
   in wo_running o' \<and> wo_workers o' \<noteq> [] \<and> list_all (\<lambda>w. wk_busy_ns w = 0 \<and> wk_total_ns w = 0) (wo_workers p)"
proof -
  let ?o = "fold orch_step [Start 5, Turn 0 100 True] (new_orchestrator demo_orch)"
  have "wo_running ?o" "wo_workers ?o \<noteq> []"
    by (simp_all add: orch_start_def new_orchestrator_def demo_orch_def start_loop.simps spawn_worker_def)
  with tick_scales_by_one [of 300000000 ?o "fst (orch_tick 300000000 ?o)" "snd (orch_tick 300000000 ?o)"]
  show ?thesis unfolding Let_def list_all_iff by (simp only: prod.collapse) simp
qed

end
