(* ===== verification/Legacy.thy ===== *)
theory Legacy
  imports Wire
begin

text \<open>
  The C scaffold (\<^verbatim>\<open>src/varint.c\<close>, \<^verbatim>\<open>src/packet.c\<close>, \<^verbatim>\<open>src/connection.c\<close> and their headers): QUIC
  style variable-length integers, the long packet header, and connection objects. Decoders are
  \<open>decoded\<close> values as in the rest of the development: an outer \<^term>\<open>None\<close> is a read outside the
  input, an inner one a refusal.
\<close>

section \<open>Variable-length integers\<close>

definition varint_encoded_len :: "u64 \<Rightarrow> nat" where
  "varint_encoded_len value =
     (if value \<le> 0x3F then 1 else if value \<le> 0x3FFF then 2 else if value \<le> 0x3FFFFFFF then 4
      else if value \<le> 0x3FFFFFFFFFFFFFFF then 8 else 0)"

text \<open>The store loop fills the output from its end.\<close>

fun varint_bytes :: "nat \<Rightarrow> u64 \<Rightarrow> byte list" where
  "varint_bytes 0 value = []"
| "varint_bytes (Suc n) value = varint_bytes n (drop_bit 8 value) @ [ucast (value AND 0xFF)]"

definition varint_encode :: "u64 \<Rightarrow> nat \<Rightarrow> byte list option" where
  "varint_encode value cap =
     (let len = varint_encoded_len value in
      if len = 0 \<or> cap < len then None
      else
        let prefix_bits = (if len = 1 then 0 else if len = 2 then 1 else if len = 4 then 2 else 3);
            out = varint_bytes len value
        in Some (out[0 := (out ! 0) OR push_bit 6 prefix_bits]))"

definition varint_decode :: "byte list \<Rightarrow> nat \<Rightarrow> (nat \<times> u64) decoded" where
  "varint_decode p off =
     (if length p - off < 1 then refuse
      else do {
        first \<leftarrow> rd p off;
        let len = 2 ^ unat (drop_bit 6 first);
        if length p - off < len then refuse
        else do {
          v \<leftarrow> get_loop (len - 1) p (off + 1) (ucast (first AND 0x3F));
          accept (len, v)
        }
      })"

section \<open>The long header\<close>

datatype fuse_packet_type = PacketInitial | PacketHandshake | PacketShort

fun packet_type_byte :: "fuse_packet_type \<Rightarrow> u8" where
  "packet_type_byte PacketInitial = 0"
| "packet_type_byte PacketHandshake = 1"
| "packet_type_byte PacketShort = 2"

definition packet_type_of :: "u8 \<Rightarrow> fuse_packet_type" where
  "packet_type_of b = (if b = 0 then PacketInitial else if b = 1 then PacketHandshake else PacketShort)"

definition kConnectionIdMaxLen :: nat where [simp]: "kConnectionIdMaxLen = 20"

record fuse_connection_id =
  cid_data :: "byte list"
  cid_len :: u8

record fuse_long_header =
  lh_type :: fuse_packet_type
  lh_version :: u32
  lh_dst_cid :: fuse_connection_id
  lh_src_cid :: fuse_connection_id
  lh_packet_number :: u64

definition long_header_encode :: "fuse_long_header \<Rightarrow> nat \<Rightarrow> byte list option" where
  "long_header_encode hdr cap =
     (if unat (cid_len (lh_dst_cid hdr)) > kConnectionIdMaxLen \<or>
         unat (cid_len (lh_src_cid hdr)) > kConnectionIdMaxLen then None
      else
        let pn_len = varint_encoded_len (lh_packet_number hdr);
            dl = unat (cid_len (lh_dst_cid hdr));
            sl = unat (cid_len (lh_src_cid hdr));
            needed = 1 + 4 + 1 + dl + 1 + sl + pn_len
        in if pn_len = 0 then None
           else if cap < needed then None
           else
             let out = put_u8 (packet_type_byte (lh_type hdr)) @ put_u32 (lh_version hdr) @
                       put_u8 (cid_len (lh_dst_cid hdr)) @ take dl (cid_data (lh_dst_cid hdr)) @
                       put_u8 (cid_len (lh_src_cid hdr)) @ take sl (cid_data (lh_src_cid hdr))
             in do {
               pn \<leftarrow> varint_encode (lh_packet_number hdr) (cap - length out);
               Some (out @ pn)
             })"

text \<open>Decoding copies into the caller's header, whose longer connection ids keep their tail.\<close>

definition store_cid :: "byte list \<Rightarrow> u8 \<Rightarrow> fuse_connection_id \<Rightarrow> fuse_connection_id" where
  "store_cid bytes len cid = \<lparr>cid_data = bytes @ drop (length bytes) (cid_data cid), cid_len = len\<rparr>"

definition decode_cid :: "byte list \<Rightarrow> nat \<Rightarrow> fuse_connection_id \<Rightarrow> (nat \<times> fuse_connection_id) decoded" where
  "decode_cid p off cid =
     (if length p < off + 1 then refuse
      else do {
        cil \<leftarrow> rd p off;
        if unat cil > kConnectionIdMaxLen \<or> length p < off + 1 + unat cil then refuse
        else do {
          bytes \<leftarrow> get_bytes (unat cil) p (off + 1);
          accept (off + 1 + unat cil, store_cid bytes cil cid)
        }
      })"

definition decode_type :: "byte list \<Rightarrow> fuse_packet_type decoded" where
  "decode_type p =
     (if length p < 1 then refuse
      else do { t \<leftarrow> rd p 0; if t > 2 then refuse else accept (packet_type_of t) })"

definition long_header_decode :: "byte list \<Rightarrow> fuse_long_header \<Rightarrow> (nat \<times> fuse_long_header) decoded" where
  "long_header_decode p hdr =
     do {
       t \<leftarrow> decode_type p;
       case t of None \<Rightarrow> refuse | Some t \<Rightarrow>
       if length p < 1 + 4 then refuse
       else do {
         version \<leftarrow> get_u32 p 1;
         d \<leftarrow> decode_cid p 5 (lh_dst_cid hdr);
         case d of None \<Rightarrow> refuse | Some (off, dst) \<Rightarrow> do {
           s \<leftarrow> decode_cid p off (lh_src_cid hdr);
           case s of None \<Rightarrow> refuse | Some (off, src) \<Rightarrow> do {
             v \<leftarrow> varint_decode p off;
             case v of None \<Rightarrow> refuse | Some (n, pn) \<Rightarrow>
               accept (off + n, \<lparr>lh_type = t, lh_version = version, lh_dst_cid = dst,
                                 lh_src_cid = src, lh_packet_number = pn\<rparr>)
           }
         }
       }
     }"

section \<open>Connections\<close>

datatype fuse_connection_state = ConnIdle | ConnHandshaking | ConnEstablished | ConnClosing | ConnClosed

record fuse_connection =
  conn_state :: fuse_connection_state
  conn_local_cid :: fuse_connection_id

text \<open>
  \<open>rng\<close> is the crypto generator's block of 20 bytes (\<^term>\<open>None\<close> where it is missing or cannot be
  initialised) and \<open>rands\<close> the results of \<^verbatim>\<open>rand()\<close> the fallback draws.
\<close>

definition fill_random_cid :: "byte list option \<Rightarrow> (nat \<Rightarrow> u32) \<Rightarrow> fuse_connection_id" where
  "fill_random_cid rng rands =
     \<lparr>cid_data = (case rng of Some block \<Rightarrow> block
                   | None \<Rightarrow> map (\<lambda>i. ucast (rands i AND 0xFF)) [0..<kConnectionIdMaxLen]),
      cid_len = of_nat kConnectionIdMaxLen\<rparr>"

definition connection_new :: "bool \<Rightarrow> byte list option \<Rightarrow> (nat \<Rightarrow> u32) \<Rightarrow> fuse_connection option" where
  "connection_new allocated rng rands =
     (if \<not> allocated then None
      else Some \<lparr>conn_state = ConnIdle, conn_local_cid = fill_random_cid rng rands\<rparr>)"

definition connection_get_state :: "fuse_connection option \<Rightarrow> fuse_connection_state" where
  "connection_get_state conn = (case conn of Some c \<Rightarrow> conn_state c | None \<Rightarrow> ConnClosed)"

definition connection_local_cid :: "fuse_connection option \<Rightarrow> fuse_connection_id option" where
  "connection_local_cid conn = map_option conn_local_cid conn"

section \<open>Round trips\<close>

lemma length_varint_bytes [simp]: "length (varint_bytes n v) = n"
  by (induction n v rule: varint_bytes.induct) simp_all

lemma masks: "(0xFF :: u64) = mask 8" "(0x3F :: byte) = mask 6"
  by (simp_all add: mask_eq_exp_minus_1)

lemma varint_fold:
  "foldl (\<lambda>out b. push_bit 8 out OR ucast b) acc (varint_bytes n v) = push_bit (8 * n) acc OR take_bit (8 * n) (v :: u64)"
proof (induction n v arbitrary: acc rule: varint_bytes.induct)
  case (2 n v)
  have "push_bit 8 (push_bit (8 * n) acc OR take_bit (8 * n) (drop_bit 8 v)) OR ucast (ucast (v AND 0xFF) :: byte) =
      push_bit (8 * Suc n) acc OR take_bit (8 * Suc n) v"
  proof (rule bit_word_eqI)
    fix k assume "k < LENGTH(64)"
    then show "bit (push_bit 8 (push_bit (8 * n) acc OR take_bit (8 * n) (drop_bit 8 v)) OR ucast (ucast (v AND 0xFF) :: byte)) k =
        bit (push_bit (8 * Suc n) acc OR take_bit (8 * Suc n) v) k"
      unfolding masks by (auto simp: bit_simps)
  qed
  with 2 show ?case by simp
qed simp

lemma varint_bytes_Cons: "varint_bytes (Suc n) v = ucast (drop_bit (8 * n) v AND 0xFF) # varint_bytes n v"
proof (induction n arbitrary: v)
  case (Suc n)
  have "varint_bytes (Suc (Suc n)) v = varint_bytes (Suc n) (drop_bit 8 v) @ [ucast (v AND 0xFF)]"
    by (simp only: varint_bytes.simps)
  also have "\<dots> = (ucast (drop_bit (8 * n) (drop_bit 8 v) AND 0xFF) # varint_bytes n (drop_bit 8 v)) @ [ucast (v AND 0xFF)]"
    by (simp only: Suc)
  finally show ?case by (simp add: add.commute)
qed simp

lemma take_bit_self: "take_bit n w = w \<longleftrightarrow> unat (w :: 'a::len word) < 2 ^ n"
proof
  assume "take_bit n w = w"
  then have "unat w = take_bit n (unat w)" by (metis unsigned_take_bit_eq)
  then show "unat w < 2 ^ n" by (metis take_bit_nat_less_exp)
next
  assume "unat w < 2 ^ n"
  then show "take_bit n w = w" by (simp add: word_unat_eq_iff unsigned_take_bit_eq take_bit_nat_eq_self)
qed

lemma prefix_byte:
  assumes "t < 64" "p < (4 :: byte)"
  shows "(t OR push_bit 6 p) AND 0x3F = t" "drop_bit 6 (t OR push_bit 6 p) = p"
proof -
  have "take_bit 6 t = t" "take_bit 2 p = p"
    using assms by (simp_all add: take_bit_self word_less_nat_alt)
  then have b: "bit t k \<Longrightarrow> k < 6" "bit p j \<Longrightarrow> j < 2" for k j
    by (metis bit_take_bit_iff)+
  show "(t OR push_bit 6 p) AND 0x3F = t"
    unfolding masks by (rule bit_word_eqI) (auto simp: bit_and_iff bit_or_iff bit_push_bit_iff bit_mask_iff dest: b)
  show "drop_bit 6 (t OR push_bit 6 p) = p"
    by (rule bit_word_eqI) (auto simp: bit_drop_bit_eq bit_or_iff bit_push_bit_iff dest: b)
qed

text \<open>The length chosen is the least of 1, 2, 4 and 8 whose prefixed form holds the value.\<close>

lemma encoded_len_cases:
  assumes "varint_encoded_len v = len" "len \<noteq> 0"
  obtains p :: byte where "len = 2 ^ unat p" "p < 4" "unat v < 2 ^ (8 * len - 2)"
    "(if len = 1 then 0 else if len = 2 then 1 else if len = 4 then 2 else 3) = p"
proof -
  have v: "unat v < 2 ^ 62" if "v \<le> 0x3FFFFFFFFFFFFFFF" using that by (simp add: word_le_nat_alt)
  consider "len = 1" "v \<le> 0x3F" | "len = 2" "v \<le> 0x3FFF" | "len = 4" "v \<le> 0x3FFFFFFF"
    | "len = 8" "v \<le> 0x3FFFFFFFFFFFFFFF"
    using assms by (auto simp: varint_encoded_len_def split: if_splits)
  then show thesis
  proof cases
    case 1 then show ?thesis by (intro that [of 0]) (simp_all add: word_le_nat_alt)
  next
    case 2 then show ?thesis by (intro that [of 1]) (simp_all add: word_le_nat_alt)
  next
    case 3 then show ?thesis by (intro that [of 2]) (simp_all add: word_le_nat_alt)
  next
    case 4 then show ?thesis using v by (intro that [of 3]) simp_all
  qed
qed

lemma top_byte:
  fixes v :: u64
  assumes "unat v < 2 ^ (8 * Suc n - 2)"
  shows "(ucast (drop_bit (8 * n) v AND 0xFF) :: byte) < 64"
    "ucast (ucast (drop_bit (8 * n) v AND 0xFF) :: byte) = drop_bit (8 * n) v"
proof -
  have "drop_bit (8 * n) (unat v) < 2 ^ 6"
    using assms by (simp add: drop_bit_eq_div) (simp add: less_mult_imp_div_less power_add)
  then have u: "unat (drop_bit (8 * n) v) < 2 ^ 6" using unat_u64_less [of v] by (simp add: unsigned_drop_bit_eq take_bit_nat_eq_self)
  then have tb: "take_bit 6 (drop_bit (8 * n) v) = drop_bit (8 * n) v"
    by (simp add: take_bit_self)
  then have b: "bit (drop_bit (8 * n) v) k \<Longrightarrow> k < 6" for k by (metis bit_take_bit_iff)
  show e: "ucast (ucast (drop_bit (8 * n) v AND 0xFF) :: byte) = drop_bit (8 * n) v"
    unfolding masks by (rule bit_word_eqI) (auto simp: bit_unsigned_iff bit_take_bit_iff bit_and_iff bit_mask_iff dest: b)
  have "take_bit 6 (ucast (drop_bit (8 * n) v AND 0xFF) :: byte) = ucast (drop_bit (8 * n) v AND 0xFF)"
    unfolding masks by (rule bit_word_eqI) (auto simp: bit_unsigned_iff bit_take_bit_iff bit_and_iff bit_mask_iff dest: b)
  then show "(ucast (drop_bit (8 * n) v AND 0xFF) :: byte) < 64"
    by (simp add: take_bit_self word_less_nat_alt)
qed

lemma varint_decode_encode:
  assumes "varint_encode v cap = Some enc"
  shows "length enc = varint_encoded_len v" "length enc \<le> cap"
    "varint_decode (pre @ enc @ rest) (length pre) = accept (length enc, v)"
proof -
  let ?len = "varint_encoded_len v"
  have ne: "?len \<noteq> 0" using assms by (auto simp: varint_encode_def Let_def split: if_splits)
  obtain p :: byte where p: "?len = 2 ^ unat p" "p < 4" "unat v < 2 ^ (8 * ?len - 2)"
    "(if ?len = 1 then 0 else if ?len = 2 then 1 else if ?len = 4 then 2 else 3) = p"
    using encoded_len_cases [OF refl ne] by metis
  obtain n where n: "?len = Suc n" using ne by (cases ?len) auto
  let ?t = "ucast (drop_bit (8 * n) v AND 0xFF) :: byte"
  have "enc = (varint_bytes ?len v)[0 := varint_bytes ?len v ! 0 OR push_bit 6 p]" and cap: "?len \<le> cap"
    using assms ne p(4) by (auto simp: varint_encode_def Let_def split: if_splits)
  then have enc: "enc = (?t OR push_bit 6 p) # varint_bytes n v"
    unfolding n varint_bytes_Cons by simp
  note tb = top_byte [OF p(3) [unfolded n]]
  define f where "f = ?t OR push_bit 6 p"
  have pb: "f AND 0x3F = ?t" "drop_bit 6 f = p"
    unfolding f_def using prefix_byte [OF tb(1) p(2)] by auto
  show len: "length enc = ?len" "length enc \<le> cap" using enc n cap by simp_all
  have rd: "rd (pre @ enc @ rest) (length pre) = Some f"
    by (simp add: enc rd_append_skip f_def)
  have v: "push_bit (8 * n) (ucast ?t) OR take_bit (8 * n) v = v"
    unfolding tb(2) by (rule bit_word_eqI) (auto simp: bit_simps)
  have "get_loop n (pre @ enc @ rest) (length pre + 1) (ucast ?t) = Some v"
    by (simp add: get_loop_eq enc varint_fold v)
  then show "varint_decode (pre @ enc @ rest) (length pre) = accept (length enc, v)"
    using len n p(1) unfolding varint_decode_def rd by (simp add: pb Let_def)
qed

lemma safe_varint_decode [simp]: "safe (varint_decode p off)"
  by (cases "rd p off")
     (auto simp: varint_decode_def safe_def rd_def get_loop_eq Let_def)

lemma varint_decode_bounds:
  assumes "varint_decode p off = accept (n, v)"
  shows "off + n \<le> length p" "n \<in> {1, 2, 4, 8}"
proof -
  obtain first where f: "rd p off = Some first" "n = 2 ^ unat (drop_bit 6 first)" "n \<le> length p - off" "off < length p"
    using assms by (cases "rd p off") (auto simp: varint_decode_def rd_def get_loop_eq Let_def split: if_splits)
  then show "off + n \<le> length p" by simp
  have "unat first < 256" using unsigned_less [of first] by simp
  then have "unat (drop_bit 6 first) < 4" using drop_bit_eq_div [of 6 first] by (simp add: unat_div)
  then have "unat (drop_bit 6 first) \<in> {0, 1, 2, 3}" by auto
  then show "n \<in> {1, 2, 4, 8}" using f(2) by auto
qed

text \<open>
  C38: variable-length integers round-trip: every value below \<open>2^62\<close> has an encoding of 1, 2, 4
  or 8 bytes, into any buffer that holds it, and decoding it anywhere in a buffer returns the
  value and that length; larger values and short buffers are refused.
\<close>

theorem varint_round_trip:
  "(unat v < 2 ^ 62 \<longleftrightarrow> varint_encoded_len v \<in> {1, 2, 4, 8}) \<and>
   (varint_encode v cap = None \<longleftrightarrow> unat v \<ge> 2 ^ 62 \<or> cap < varint_encoded_len v) \<and>
   (\<forall>enc. varint_encode v cap = Some enc \<longrightarrow> length enc = varint_encoded_len v \<and>
      varint_decode (pre @ enc @ rest) (length pre) = accept (length enc, v))"
proof -
  have "v \<le> 0x3F \<Longrightarrow> unat v < 2 ^ 62" "v \<le> 0x3FFF \<Longrightarrow> unat v < 2 ^ 62" "v \<le> 0x3FFFFFFF \<Longrightarrow> unat v < 2 ^ 62"
    "v \<le> 0x3FFFFFFFFFFFFFFF \<longleftrightarrow> unat v < 2 ^ 62"
    by (auto simp: word_le_nat_alt)
  then have "unat v < 2 ^ 62 \<longleftrightarrow> varint_encoded_len v \<in> {1, 2, 4, 8}" "varint_encoded_len v = 0 \<longleftrightarrow> unat v \<ge> 2 ^ 62"
    by (auto simp: varint_encoded_len_def)
  moreover have "varint_encode v cap = None \<longleftrightarrow> varint_encoded_len v = 0 \<or> cap < varint_encoded_len v"
    by (simp add: varint_encode_def Let_def)
  ultimately show ?thesis
    using varint_decode_encode(1) [of v cap] varint_decode_encode(3) [of v cap _ pre rest] by simp
qed

theorem varint_round_trip_witness:
  "varint_encode 15293 100 = Some [0x7b, 0xbd] \<and> varint_decode ([9] @ [0x7b, 0xbd] @ [1]) 1 = accept (2, 15293)"
proof -
  have e: "varint_encode 15293 100 = Some [0x7b, 0xbd]" by code_simp
  show ?thesis using varint_round_trip [of 15293 100 "[9]" "[1]"] e by (metis One_nat_def length_Cons list.size(3) numeral_2_eq_2)
qed

lemma decode_cid_hit:
  assumes "unat l \<le> 20" "length bytes = unat l"
  shows "decode_cid (pre @ put_u8 l @ bytes @ rest) (length pre) cid =
    accept (length pre + 1 + unat l, store_cid bytes l cid)"
  using assms by (simp add: decode_cid_def rd_append_skip get_bytes_append_skip get_bytes_def put_u8_def)

lemma decode_cid_accepts:
  assumes "decode_cid p off cid = accept (off', c)"
  shows "off \<le> off' \<and> off' \<le> length p \<and> unat (cid_len c) \<le> 20"
  using assms
  by (cases "rd p off") (auto simp: decode_cid_def rd_def get_bytes_def store_cid_def split: if_splits)

lemma safe_decode_cid [simp]: "safe (decode_cid p off cid)"
  by (cases "rd p off") (auto simp: decode_cid_def safe_def rd_def get_bytes_def)

text \<open>What a decoded header shares with the one that was encoded.\<close>

definition same_cid :: "fuse_connection_id \<Rightarrow> fuse_connection_id \<Rightarrow> bool" where
  "same_cid a b \<longleftrightarrow> cid_len a = cid_len b \<and>
     take (unat (cid_len a)) (cid_data a) = take (unat (cid_len b)) (cid_data b)"

definition wf_cid :: "fuse_connection_id \<Rightarrow> bool" where
  "wf_cid c \<longleftrightarrow> length (cid_data c) = kConnectionIdMaxLen"

lemma long_header_round_trip_aux:
  assumes e: "long_header_encode hdr cap = Some enc" and wf: "wf_cid (lh_dst_cid hdr)" "wf_cid (lh_src_cid hdr)"
  shows "\<exists>h. long_header_decode (enc @ rest) h0 = accept (length enc, h) \<and> lh_type h = lh_type hdr \<and>
    lh_version h = lh_version hdr \<and> same_cid (lh_dst_cid h) (lh_dst_cid hdr) \<and>
    same_cid (lh_src_cid h) (lh_src_cid hdr) \<and> lh_packet_number h = lh_packet_number hdr"
proof -
  let ?dl = "unat (cid_len (lh_dst_cid hdr))" and ?sl = "unat (cid_len (lh_src_cid hdr))"
  let ?d = "take ?dl (cid_data (lh_dst_cid hdr))" and ?s = "take ?sl (cid_data (lh_src_cid hdr))"
  let ?h = "put_u8 (packet_type_byte (lh_type hdr)) @ put_u32 (lh_version hdr)"
  have l: "?dl \<le> 20" "?sl \<le> 20" using e by (auto simp: long_header_encode_def split: if_splits)
  then have ls: "length ?d = ?dl" "length ?s = ?sl" using wf by (auto simp: wf_cid_def)
  obtain pn cap' where pn: "varint_encode (lh_packet_number hdr) cap' = Some pn"
    "enc = ?h @ put_u8 (cid_len (lh_dst_cid hdr)) @ ?d @ put_u8 (cid_len (lh_src_cid hdr)) @ ?s @ pn"
    using e by (auto simp: long_header_encode_def Let_def bind_eq_Some_conv split: if_splits)
  have d: "decode_cid (enc @ rest) 5 (lh_dst_cid h0) = accept (6 + ?dl, store_cid ?d (cid_len (lh_dst_cid hdr)) (lh_dst_cid h0))"
    using decode_cid_hit [OF l(1) ls(1), of ?h "put_u8 (cid_len (lh_src_cid hdr)) @ ?s @ pn @ rest" "lh_dst_cid h0"]
    by (simp add: pn(2))
  have s: "decode_cid (enc @ rest) (6 + ?dl) (lh_src_cid h0) =
      accept (7 + ?dl + ?sl, store_cid ?s (cid_len (lh_src_cid hdr)) (lh_src_cid h0))"
    using decode_cid_hit [OF l(2) ls(2), of "?h @ put_u8 (cid_len (lh_dst_cid hdr)) @ ?d" "pn @ rest" "lh_src_cid h0"] ls
    by (simp add: pn(2))
  have v: "varint_decode (enc @ rest) (7 + ?dl + ?sl) = accept (length pn, lh_packet_number hdr)"
    using varint_decode_encode(3) [OF pn(1), of "?h @ put_u8 (cid_len (lh_dst_cid hdr)) @ ?d @ put_u8 (cid_len (lh_src_cid hdr)) @ ?s" rest] ls
    by (simp add: pn(2) add.assoc)
  have t: "decode_type (enc @ rest) = accept (lh_type hdr)"
    by (cases "lh_type hdr") (simp_all add: pn(2) decode_type_def put_u8_def packet_type_of_def)
  have g: "get_u32 (enc @ rest) 1 = Some (lh_version hdr)"
    by (simp add: pn(2) put_u8_def) (simp add: get_u32_eq)
  have len: "length enc = 7 + ?dl + ?sl + length pn" using ls by (simp add: pn(2))
  have "long_header_decode (enc @ rest) h0 = accept (length enc,
      \<lparr>lh_type = lh_type hdr, lh_version = lh_version hdr,
       lh_dst_cid = store_cid ?d (cid_len (lh_dst_cid hdr)) (lh_dst_cid h0),
       lh_src_cid = store_cid ?s (cid_len (lh_src_cid hdr)) (lh_src_cid h0),
       lh_packet_number = lh_packet_number hdr\<rparr>)"
    unfolding long_header_decode_def t bind.bind_lunit option.case g d prod.case s v
    by (simp add: len)
  moreover have "same_cid (store_cid ?d (cid_len (lh_dst_cid hdr)) c) (lh_dst_cid hdr)"
    "same_cid (store_cid ?s (cid_len (lh_src_cid hdr)) c) (lh_src_cid hdr)" for c
    using ls by (simp_all add: same_cid_def store_cid_def)
  ultimately show ?thesis by auto
qed

lemma safe_long_header_decode [simp]: "safe (long_header_decode p h0)"
proof (cases "decode_type p")
  case None
  then show ?thesis by (cases p) (auto simp: decode_type_def rd_def split: if_splits)
next
  case (Some t)
  have cid: "\<exists>r. decode_cid p off c = Some r" for off c using safe_decode_cid [of p off c] by (auto simp: safe_def)
  have var: "\<exists>r. varint_decode p off = Some r" for off using safe_varint_decode [of p off] by (auto simp: safe_def)
  obtain d where d: "decode_cid p 5 (lh_dst_cid h0) = Some d" using cid by blast
  show ?thesis
  proof (cases "t = None \<or> length p < 5 \<or> d = None")
    case True
    with Some d show ?thesis by (auto simp: long_header_decode_def safe_def get_u32_eq split: option.split)
  next
    case False
    then obtain t' off dst where td: "t = Some t'" "d = Some (off, dst)" "5 \<le> length p" by auto
    obtain s where s: "decode_cid p off (lh_src_cid h0) = Some s" using cid by blast
    show ?thesis
    proof (cases s)
      case None
      with Some td d s show ?thesis by (simp add: long_header_decode_def safe_def get_u32_eq)
    next
      case (Some q)
      obtain off' src where q: "q = (off', src)" by (cases q)
      obtain v where "varint_decode p off' = Some v" using var by blast
      with \<open>decode_type p = Some t\<close> td d s Some q show ?thesis
        by (auto simp: long_header_decode_def safe_def get_u32_eq split: option.split)
    qed
  qed
qed

text \<open>
  Long packet headers round-trip: encoding succeeds exactly when both connection ids have at
  most 20 bytes, the packet number is below \<open>2^62\<close> and the buffer holds the result, and decoding
  an encoded header followed by anything consumes exactly its bytes and returns the same type,
  version, connection ids and packet number. Decoding any input never reads outside it.
\<close>

theorem long_header_round_trip:
  assumes "wf_cid (lh_dst_cid hdr)" "wf_cid (lh_src_cid hdr)"
  shows "safe (long_header_decode p h0) \<and>
    (long_header_encode hdr cap \<noteq> None \<longleftrightarrow>
       unat (cid_len (lh_dst_cid hdr)) \<le> 20 \<and> unat (cid_len (lh_src_cid hdr)) \<le> 20 \<and>
       unat (lh_packet_number hdr) < 2 ^ 62 \<and>
       7 + unat (cid_len (lh_dst_cid hdr)) + unat (cid_len (lh_src_cid hdr)) +
         varint_encoded_len (lh_packet_number hdr) \<le> cap) \<and>
    (\<forall>enc. long_header_encode hdr cap = Some enc \<longrightarrow>
       (\<exists>h. long_header_decode (enc @ rest) h0 = accept (length enc, h) \<and> lh_type h = lh_type hdr \<and>
          lh_version h = lh_version hdr \<and> same_cid (lh_dst_cid h) (lh_dst_cid hdr) \<and>
          same_cid (lh_src_cid h) (lh_src_cid hdr) \<and> lh_packet_number h = lh_packet_number hdr))"
proof (intro conjI allI impI)
  let ?pn = "lh_packet_number hdr"
  have z: "varint_encoded_len ?pn = 0 \<longleftrightarrow> \<not> unat ?pn < 2 ^ 62"
    by (auto simp: varint_encoded_len_def word_le_nat_alt)
  have "varint_encode ?pn c = None \<longleftrightarrow> varint_encoded_len ?pn = 0 \<or> c < varint_encoded_len ?pn" for c
    by (simp add: varint_encode_def Let_def)
  then show "long_header_encode hdr cap \<noteq> None \<longleftrightarrow>
       unat (cid_len (lh_dst_cid hdr)) \<le> 20 \<and> unat (cid_len (lh_src_cid hdr)) \<le> 20 \<and>
       unat ?pn < 2 ^ 62 \<and>
       7 + unat (cid_len (lh_dst_cid hdr)) + unat (cid_len (lh_src_cid hdr)) + varint_encoded_len ?pn \<le> cap"
    using assms z by (auto simp: long_header_encode_def Let_def wf_cid_def bind_eq_None_conv)
qed (use assms long_header_round_trip_aux in \<open>simp_all\<close>)

definition demo_header :: fuse_long_header where
  "demo_header = \<lparr>lh_type = PacketHandshake, lh_version = 1,
     lh_dst_cid = \<lparr>cid_data = replicate 20 7, cid_len = 4\<rparr>, lh_src_cid = \<lparr>cid_data = replicate 20 9, cid_len = 0\<rparr>,
     lh_packet_number = 300\<rparr>"

theorem long_header_round_trip_witness:
  "wf_cid (lh_dst_cid demo_header) \<and> wf_cid (lh_src_cid demo_header) \<and> long_header_encode demo_header 100 \<noteq> None"
  using long_header_round_trip [of demo_header "[]" demo_header 100 "[]"]
  by (simp add: demo_header_def wf_cid_def varint_encoded_len_def)

end
