(* ===== verification/Http.thy ===== *)
theory Http
  imports Fuse_Prelude "HOL-Library.Monad_Syntax"
begin

text \<open>
  HTTP over the message SDK (\<^verbatim>\<open>include/fuse/http.h\<close>, \<^verbatim>\<open>src/proto/http.cpp\<close>): building and parsing
  messages, header lookup, one client exchange and one served connection. What the SDK calls
  return (the connection, the status of sending, the received message) are arguments here, and
  what was sent is part of the result. A null pointer is \<^term>\<open>None\<close>; \<open>cstr\<close> is what a C string
  function sees of a \<^verbatim>\<open>std::string\<close>. Memory allocation does not fail.
\<close>

section \<open>Messages\<close>

datatype fuse_status = FuseOk | FuseErrConfig | FuseErrSocket | FuseErrTimeout | FuseErrClosed | FuseErrAuth
  | FuseErrTooLarge | FuseErrBuffer | FuseErrUnsupported | FuseErrInternal

abbreviation CR :: char where "CR \<equiv> CHR 0x0D"
abbreviation LF :: char where "LF \<equiv> CHR 0x0A"

definition crlf :: string where [simp]: "crlf = [CR, LF]"

definition cstr :: "string \<Rightarrow> string" where
  "cstr s = takeWhile (\<lambda>c. c \<noteq> CHR 0x00) s"

text \<open>\<^verbatim>\<open>memchr\<close> and \<^verbatim>\<open>strchr\<close>: the position of the first occurrence.\<close>

definition memchr :: "char \<Rightarrow> string \<Rightarrow> nat option" where
  "memchr c s = (let n = length (takeWhile (\<lambda>x. x \<noteq> c) s) in if n < length s then Some n else None)"

definition ascii_lower :: "char \<Rightarrow> char" where
  "ascii_lower c =
     (let n = (of_char c :: nat) in if 65 \<le> n \<and> n \<le> 90 then char_of (n - 65 + 97) else c)"

definition EqualsIgnoreCase :: "string \<Rightarrow> string \<Rightarrow> bool" where
  "EqualsIgnoreCase a b \<longleftrightarrow> length a = length b \<and> list_all2 (\<lambda>x y. ascii_lower x = ascii_lower y) a b"

record ParsedMessage =
  pm_first_line :: string
  pm_headers :: string
  pm_body :: string

text \<open>The search for the blank line, from the front of what is left of the message.\<close>

fun find_blank :: "string \<Rightarrow> nat option" where
  "find_blank (a # b # c # d # rest) =
     (if a = CR \<and> b = LF \<and> c = CR \<and> d = LF then Some 0
      else map_option Suc (find_blank (b # c # d # rest)))"
| "find_blank _ = None"

definition ParseMessage :: "string \<Rightarrow> ParsedMessage option" where
  "ParseMessage data =
     do {
       blank \<leftarrow> find_blank data;
       let prefix_end = blank + 2;
       line_end \<leftarrow> memchr LF (take prefix_end data);
       if line_end = 0 \<or> data ! (line_end - 1) \<noteq> CR then None
       else Some \<lparr>pm_first_line = take (line_end - 1) data,
                  pm_headers = take (prefix_end - (line_end + 1)) (drop (line_end + 1) data),
                  pm_body = drop (blank + 4) data\<rparr>
     }"

definition AppendHeadersAndBody :: "string \<Rightarrow> string option \<Rightarrow> string option \<Rightarrow> string" where
  "AppendHeadersAndBody out headers_block body =
     out @ (case headers_block of Some h \<Rightarrow> h | None \<Rightarrow> []) @ crlf @ (case body of Some b \<Rightarrow> b | None \<Rightarrow> [])"

definition DefaultReason :: "int \<Rightarrow> string" where
  "DefaultReason status =
     (if status = 200 then ''OK'' else if status = 201 then ''Created'' else if status = 204 then ''No Content''
      else if status = 301 then ''Moved Permanently'' else if status = 302 then ''Found''
      else if status = 304 then ''Not Modified'' else if status = 400 then ''Bad Request''
      else if status = 401 then ''Unauthorized'' else if status = 403 then ''Forbidden''
      else if status = 404 then ''Not Found'' else if status = 405 then ''Method Not Allowed''
      else if status = 500 then ''Internal Server Error'' else if status = 501 then ''Not Implemented''
      else if status = 503 then ''Service Unavailable'' else ''Unknown'')"

section \<open>Requests and responses\<close>

record fuse_http_request =
  rq_method :: string
  rq_path :: string
  rq_headers :: "string option"
  rq_body :: "string option"

record fuse_http_response =
  rp_status :: int
  rp_reason :: "string option"
  rp_headers :: "string option"
  rp_body :: "string option"

definition http_response_init :: fuse_http_response where
  "http_response_init = \<lparr>rp_status = 0, rp_reason = None, rp_headers = None, rp_body = None\<rparr>"

text \<open>
  Header lookup over what is left of the block. A line that is a bare line feed makes
  \<^verbatim>\<open>line_stop\<close> precede the line; the length of the colon search then wraps to the largest
  \<^verbatim>\<open>size_t\<close>, a read outside the block (\<^term>\<open>None\<close>).
\<close>

function get_header_loop :: "string \<Rightarrow> string \<Rightarrow> string decoded" where
  "get_header_loop name p =
     (if p = [] then refuse
      else
        let line_end = memchr LF p in
        if line_end = Some 0 then None
        else
          let line = (case line_end of Some e \<Rightarrow> take (e - 1) p | None \<Rightarrow> p);
              colon = memchr (CHR '':'') line
          in if (case colon of Some k \<Rightarrow> EqualsIgnoreCase (take k line) name | None \<Rightarrow> False)
             then accept (dropWhile (\<lambda>c. c = CHR '' '') (drop (the colon + 1) line))
             else (case line_end of None \<Rightarrow> refuse | Some e \<Rightarrow> get_header_loop name (drop (e + 1) p)))"
  by pat_completeness auto
termination
  by (relation "measure (\<lambda>(name, p). length p)") auto

declare get_header_loop.simps [simp del]

definition http_get_header :: "string option \<Rightarrow> string option \<Rightarrow> string decoded" where
  "http_get_header headers name =
     (case (headers, name) of
        (Some h, Some n) \<Rightarrow> get_header_loop (cstr n) (cstr h)
      | _ \<Rightarrow> refuse)"

text \<open>\<^verbatim>\<open>atoi\<close>: optional white space and sign, then digits; the value must fit an \<^verbatim>\<open>int\<close>.\<close>

definition is_digit :: "char \<Rightarrow> bool" where
  "is_digit c \<longleftrightarrow> 48 \<le> (of_char c :: nat) \<and> (of_char c :: nat) \<le> 57"

definition digits_value :: "string \<Rightarrow> int" where
  "digits_value ds = foldl (\<lambda>acc c. acc * 10 + (int (of_char c) - 48)) 0 ds"

definition atoi :: "string \<Rightarrow> int" where
  "atoi s =
     (let s = dropWhile (\<lambda>c. c \<in> {CHR '' '', CHR 0x09, LF, CHR 0x0B, CHR 0x0C, CR}) s in
      case s of
        [] \<Rightarrow> 0
      | c # r \<Rightarrow> if c = CHR ''-'' then - digits_value (takeWhile is_digit r)
                 else if c = CHR ''+'' then digits_value (takeWhile is_digit r)
                 else digits_value (takeWhile is_digit s))"

text \<open>
  The client exchange. \<open>conn\<close>, \<open>sent\<close> and \<open>received\<close> are what \<^verbatim>\<open>fuse_connect\<close>, \<^verbatim>\<open>fuse_send\<close> and
  \<^verbatim>\<open>fuse_recv_alloc\<close> return; the middle component of the result is what was handed to
  \<^verbatim>\<open>fuse_send\<close>.
\<close>

definition request_wire :: "fuse_http_request \<Rightarrow> string" where
  "request_wire req =
     AppendHeadersAndBody (rq_method req @ '' '' @ rq_path req @ '' HTTP/1.1'' @ crlf) (rq_headers req) (rq_body req)"

definition response_of :: "ParsedMessage \<Rightarrow> fuse_http_response" where
  "response_of m =
     (let line = cstr (pm_first_line m);
          sp1 = memchr (CHR '' '') line;
          after = (case sp1 of Some k \<Rightarrow> drop (k + 1) line | None \<Rightarrow> []);
          status = (case sp1 of Some k \<Rightarrow> atoi after | None \<Rightarrow> 0);
          reason = (case sp1 of None \<Rightarrow> None
                    | Some k \<Rightarrow> (case memchr (CHR '' '') after of None \<Rightarrow> None
                        | Some j \<Rightarrow> Some (dropWhile (\<lambda>c. c = CHR '' '') (drop j after))))
      in \<lparr>rp_status = status, rp_reason = Some (case reason of Some r \<Rightarrow> r | None \<Rightarrow> []),
          rp_headers = Some (pm_headers m), rp_body = Some (pm_body m)\<rparr>)"

definition http_fetch ::
  "bool \<Rightarrow> fuse_http_request option \<Rightarrow> fuse_status \<Rightarrow> fuse_status \<Rightarrow> fuse_status \<times> string
     \<Rightarrow> fuse_status \<times> string option \<times> fuse_http_response" where
  "http_fetch cfg_ok req conn sent received =
     (case req of
        None \<Rightarrow> (FuseErrConfig, None, http_response_init)
      | Some req \<Rightarrow>
          if \<not> cfg_ok then (FuseErrConfig, None, http_response_init)
          else if conn \<noteq> FuseOk then (conn, None, http_response_init)
          else
            let wire = request_wire req in
            if sent \<noteq> FuseOk then (sent, Some wire, http_response_init)
            else if fst received \<noteq> FuseOk then (fst received, Some wire, http_response_init)
            else case ParseMessage (snd received) of
                   None \<Rightarrow> (FuseErrInternal, Some wire, http_response_init)
                 | Some m \<Rightarrow> (FuseOk, Some wire, response_of m))"

text \<open>\<^verbatim>\<open>strstr(s, " HTTP/")\<close>: the first occurrence.\<close>

fun find_version :: "string \<Rightarrow> nat option" where
  "find_version s =
     (if take 6 s = '' HTTP/'' then Some 0
      else case s of [] \<Rightarrow> None | c # r \<Rightarrow> map_option Suc (find_version r))"

declare find_version.simps [simp del]

definition request_of :: "ParsedMessage \<Rightarrow> fuse_http_request" where
  "request_of m =
     (let line = cstr (pm_first_line m);
          sp1 = memchr (CHR '' '') line;
          meth = (case sp1 of Some k \<Rightarrow> take k line | None \<Rightarrow> line);
          path = (case sp1 of None \<Rightarrow> []
                  | Some k \<Rightarrow> let after = drop (k + 1) line in
                      (case find_version after of Some j \<Rightarrow> take j after | None \<Rightarrow> after))
      in \<lparr>rq_method = meth, rq_path = path, rq_headers = Some (cstr (pm_headers m)),
          rq_body = (if pm_body m = [] then None else Some (pm_body m))\<rparr>)"

text \<open>Decimal rendering by \<^verbatim>\<open>%d\<close>.\<close>

fun nat_digits :: "nat \<Rightarrow> string" where
  "nat_digits n = (if n < 10 then [char_of (48 + n)] else nat_digits (n div 10) @ [char_of (48 + n mod 10)])"

declare nat_digits.simps [simp del]

definition int_digits :: "int \<Rightarrow> string" where
  "int_digits i = (if i < 0 then ''-'' @ nat_digits (nat (- i)) else nat_digits (nat i))"

definition response_wire :: "fuse_http_response \<Rightarrow> string" where
  "response_wire resp =
     (let reason = (case rp_reason resp of Some r \<Rightarrow> r | None \<Rightarrow> DefaultReason (rp_status resp));
          status_line = take 63 (''HTTP/1.1 '' @ int_digits (rp_status resp) @ '' '' @ reason @ crlf)
      in AppendHeadersAndBody status_line (rp_headers resp) (rp_body resp))"

text \<open>
  One accepted connection: what \<^verbatim>\<open>fuse_recv_alloc\<close> returned, and the handler as a function from
  the request to its status and response. The result is the message sent back, if any.
\<close>

definition ServeOneConnection ::
  "fuse_status \<times> string \<Rightarrow> (fuse_http_request \<Rightarrow> fuse_status \<times> fuse_http_response) \<Rightarrow> string option" where
  "ServeOneConnection received handler =
     (if fst received \<noteq> FuseOk then None
      else case ParseMessage (snd received) of
             None \<Rightarrow> None
           | Some m \<Rightarrow>
               let (st, resp) = handler (request_of m) in
               if st = FuseOk then Some (response_wire resp) else None)"

text \<open>
  The accept loop: the outcomes of the successive accepts (a connection, or an error), each with
  the stop flag as read before it. It returns the connections handed to worker threads.
\<close>

fun serve_loop :: "(int \<times> (fuse_status + 'c)) list \<Rightarrow> 'c list" where
  "serve_loop [] = []"
| "serve_loop ((stop, outcome) # rest) =
     (if stop \<noteq> 0 then []
      else case outcome of
             Inl err \<Rightarrow> if err = FuseErrTimeout then serve_loop rest else []
           | Inr c \<Rightarrow> c # serve_loop rest)"

section \<open>Parsing what was built\<close>

definition line_ok :: "string \<Rightarrow> bool" where
  "line_ok l \<longleftrightarrow> l \<noteq> [] \<and> CR \<notin> set l \<and> LF \<notin> set l \<and> CHR 0x00 \<notin> set l"

definition block :: "string list \<Rightarrow> string" where
  "block ls = concat (map (\<lambda>l. l @ crlf) ls)"

lemma block_simps [simp]: "block [] = []" "block (l # ls) = l @ CR # LF # block ls"
  by (simp_all add: block_def)

lemma find_blank_skip: "c \<noteq> CR \<Longrightarrow> find_blank (c # xs) = map_option Suc (find_blank xs)"
  by (cases xs rule: find_blank.cases) auto

lemma find_blank_skips: "CR \<notin> set l \<Longrightarrow> find_blank (l @ xs) = map_option ((+) (length l)) (find_blank xs)"
proof (induction l)
  case (Cons c l)
  then show ?case using find_blank_skip [of c "l @ xs"] by (cases "find_blank xs") auto
qed (cases "find_blank xs"; simp)

lemma find_blank_break: "x \<noteq> CR \<Longrightarrow> find_blank (CR # LF # x # xs) = map_option (\<lambda>n. n + 2) (find_blank (x # xs))"
proof -
  assume x: "x \<noteq> CR"
  have "find_blank (CR # LF # x # xs) = map_option Suc (find_blank (LF # x # xs))"
    using x by (cases xs) simp_all
  also have "find_blank (LF # x # xs) = map_option Suc (find_blank (x # xs))"
    by (rule find_blank_skip) simp
  finally show ?thesis by (cases "find_blank (x # xs)") simp_all
qed

lemma find_blank_block:
  assumes "\<forall>l \<in> set (f # ls). line_ok l"
  shows "find_blank (block (f # ls) @ crlf @ body) = Some (length (block (f # ls)) - 2)"
  using assms
proof (induction ls arbitrary: f)
  case Nil
  then show ?case by (simp add: line_ok_def find_blank_skips)
next
  case (Cons m ms)
  obtain c cs where m: "m = c # cs" "c \<noteq> CR" using Cons.prems by (cases m) (auto simp: line_ok_def)
  have "find_blank (block (m # ms) @ crlf @ body) = Some (length (block (m # ms)) - 2)"
    using Cons by simp
  then show ?case
    using Cons.prems m by (simp add: line_ok_def find_blank_skips find_blank_break)
qed

lemma memchr_hit: "c \<notin> set l \<Longrightarrow> memchr c (l @ c # r) = Some (length l)"
proof -
  assume "c \<notin> set l"
  then have "takeWhile (\<lambda>x. x \<noteq> c) (l @ c # r) = l" by (subst takeWhile_append2) auto
  then show ?thesis by (simp add: memchr_def)
qed

lemma memchr_miss: "c \<notin> set l \<Longrightarrow> memchr c l = None"
proof -
  assume "c \<notin> set l"
  then have t: "takeWhile (\<lambda>x. x \<noteq> c) l = l" by (subst takeWhile_eq_all_conv) auto
  show ?thesis unfolding memchr_def t by simp
qed

lemma parse_block:
  assumes "\<forall>l \<in> set (f # ls). line_ok l"
  shows "ParseMessage (block (f # ls) @ crlf @ body) =
    Some \<lparr>pm_first_line = f, pm_headers = block ls, pm_body = body\<rparr>"
proof -
  let ?data = "block (f # ls) @ crlf @ body"
  let ?n = "length (block (f # ls))"
  have fb: "find_blank ?data = Some (?n - 2)" by (rule find_blank_block [OF assms])
  have n: "?n - 2 + 2 = ?n" "?n - 2 + 4 = ?n + 2" by simp_all
  have lf: "memchr LF (take ?n ?data) = Some (length f + 1)"
    using assms memchr_hit [of LF "f @ [CR]" "block ls"] by (simp add: line_ok_def)
  have cr: "?data ! (length f) = CR" by (simp add: nth_append)
  have d: "drop (length f + 1 + 1) ?data = block ls @ crlf @ body" by simp
  have b: "drop (length xs + 2) (xs @ crlf @ body) = body" for xs by simp
  have l: "?n - (length f + 1 + 1) = length (block ls)" by simp
  show ?thesis
    unfolding ParseMessage_def fb bind.bind_lunit Let_def n lf d b l using cr by simp
qed

lemma cstr_id: "CHR 0x00 \<notin> set s \<Longrightarrow> cstr s = s"
  unfolding cstr_def by (subst takeWhile_eq_all_conv) auto

lemma cstr_block: "\<forall>l \<in> set ls. line_ok l \<Longrightarrow> cstr (block ls) = block ls"
  by (rule cstr_id) (auto simp: block_def line_ok_def)

lemma find_version_hit: "CHR '' '' \<notin> set p \<Longrightarrow> find_version (p @ '' HTTP/1.1'') = Some (length p)"
proof (induction p)
  case (Cons c p)
  then show ?case by (subst find_version.simps) auto
qed (simp add: find_version.simps)

lemma digit_char: "k < 10 \<Longrightarrow> (of_char (char_of (48 + k) :: char) :: nat) = 48 + k"
  by (simp add: of_char_mod_256)

lemma nat_digits_props:
  "nat_digits n \<noteq> [] \<and> (\<forall>c \<in> set (nat_digits n). is_digit c) \<and> digits_value (nat_digits n) = int n"
proof (induction n rule: nat_digits.induct)
  case (1 n)
  show ?case
  proof (cases "n < 10")
    case True
    then show ?thesis by (subst (1 2 3) nat_digits.simps) (simp add: is_digit_def digits_value_def digit_char)
  next
    case False
    have "int (n div 10) * 10 + int (n mod 10) = int n" by presburger
    then show ?thesis
      using 1 [OF False] digit_char [of "n mod 10"] False
      by (subst (1 2 3) nat_digits.simps) (simp add: digits_value_def is_digit_def)
  qed
qed

lemma atoi_digits:
  assumes "r = [] \<or> \<not> is_digit (hd r)"
  shows "atoi (nat_digits n @ r) = int n"
proof -
  obtain d ds where d: "nat_digits n = d # ds" using nat_digits_props [of n] by (cases "nat_digits n") auto
  have dig: "is_digit d" "\<forall>c \<in> set (nat_digits n). is_digit c" "digits_value (nat_digits n) = int n"
    using nat_digits_props [of n] d by auto
  then have nd: "d \<notin> {CHR '' '', CHR 0x09, LF, CHR 0x0B, CHR 0x0C, CR, CHR ''-'', CHR ''+''}"
    by (auto simp: is_digit_def)
  have tw: "takeWhile is_digit (nat_digits n @ r) = nat_digits n"
    using dig(2) assms by (cases r) (auto simp: takeWhile_append2 takeWhile_eq_all_conv)
  have dw: "dropWhile (\<lambda>c. c \<in> {CHR '' '', CHR 0x09, LF, CHR 0x0B, CHR 0x0C, CR}) (nat_digits n @ r) = nat_digits n @ r"
    using nd by (simp add: d)
  show ?thesis
    unfolding atoi_def dw Let_def using nd tw dig(3) by (simp add: d)
qed

definition reason_ok :: "string \<Rightarrow> bool" where
  "reason_ok r \<longleftrightarrow> line_ok r \<and> hd r \<noteq> CHR '' ''"

lemma status_line_parse:
  assumes "0 \<le> st" "reason_ok reason"
  shows "line_ok (''HTTP/1.1 '' @ int_digits st @ '' '' @ reason)"
    "response_of \<lparr>pm_first_line = ''HTTP/1.1 '' @ int_digits st @ '' '' @ reason, pm_headers = h, pm_body = b\<rparr> =
     \<lparr>rp_status = st, rp_reason = Some reason, rp_headers = Some h, rp_body = Some b\<rparr>"
proof -
  let ?d = "nat_digits (nat st)" and ?after = "nat_digits (nat st) @ '' '' @ reason"
  let ?line = "''HTTP/1.1 '' @ ?after"
  have i: "int_digits st = ?d" using assms(1) by (simp add: int_digits_def)
  have dig: "\<forall>c \<in> set ?d. is_digit c" using nat_digits_props by blast
  have nd: "\<not> is_digit CR" "\<not> is_digit LF" "\<not> is_digit (CHR 0x00)" "\<not> is_digit (CHR '' '')"
    by (simp_all add: is_digit_def)
  have sp: "CHR '' '' \<notin> set ?d" using dig nd(4) by auto
  show ok: "line_ok (''HTTP/1.1 '' @ int_digits st @ '' '' @ reason)"
    unfolding i using assms(2) dig nd by (auto simp: line_ok_def reason_ok_def)
  then have c: "cstr ?line = ?line" unfolding i by (intro cstr_id) (simp add: line_ok_def)
  have m1: "memchr (CHR '' '') ?line = Some 8"
    using memchr_hit [of "CHR '' ''" "''HTTP/1.1''" ?after] by simp
  have m2: "memchr (CHR '' '') ?after = Some (length ?d)"
    using memchr_hit [OF sp, of reason] by simp
  have a: "atoi ?after = st" using atoi_digits [of "'' '' @ reason" "nat st"] assms(1) by (simp add: is_digit_def)
  have r: "dropWhile (\<lambda>c. c = CHR '' '') ('' '' @ reason) = reason"
    using assms(2) by (cases reason) (auto simp: reason_ok_def line_ok_def)
  have dr: "drop (8 + 1) ?line = ?after" by simp
  have dd: "drop (length ?d) ?after = '' '' @ reason" by simp
  show "response_of \<lparr>pm_first_line = ''HTTP/1.1 '' @ int_digits st @ '' '' @ reason, pm_headers = h, pm_body = b\<rparr> =
     \<lparr>rp_status = st, rp_reason = Some reason, rp_headers = Some h, rp_body = Some b\<rparr>"
    unfolding i response_of_def Let_def ParsedMessage.select_convs c m1 option.case dr m2 a dd r by (rule refl)
qed

definition token_ok :: "string \<Rightarrow> bool" where
  "token_ok t \<longleftrightarrow> CHR '' '' \<notin> set t \<and> CR \<notin> set t \<and> LF \<notin> set t \<and> CHR 0x00 \<notin> set t"

lemma request_parse:
  fixes body :: string
  assumes "token_ok meth" "token_ok path" "\<forall>l \<in> set lines. line_ok l"
  defines "req \<equiv> \<lparr>rq_method = meth, rq_path = path, rq_headers = Some (block lines), rq_body = Some body\<rparr>"
  shows "\<exists>m. ParseMessage (request_wire req) = Some m \<and>
    request_of m = req\<lparr>rq_body := (if body = [] then None else Some body)\<rparr>"
proof -
  let ?f = "meth @ '' '' @ path @ '' HTTP/1.1''"
  have f: "line_ok ?f" using assms(1,2) by (auto simp: line_ok_def token_ok_def)
  have "request_wire req = block (?f # lines) @ crlf @ body"
    by (simp add: request_wire_def AppendHeadersAndBody_def req_def)
  then have p: "ParseMessage (request_wire req) = Some \<lparr>pm_first_line = ?f, pm_headers = block lines, pm_body = body\<rparr>"
    using parse_block [of ?f lines body] f assms(3) by simp
  have c: "cstr ?f = ?f" using f by (intro cstr_id) (simp add: line_ok_def)
  have m: "memchr (CHR '' '') ?f = Some (length meth)"
    using memchr_hit [of "CHR '' ''" meth "path @ '' HTTP/1.1''"] assms(1) by (simp add: token_ok_def)
  have d: "drop (length meth + 1) ?f = path @ '' HTTP/1.1''" by simp
  have v: "find_version (path @ '' HTTP/1.1'') = Some (length path)"
    using find_version_hit assms(2) by (simp add: token_ok_def)
  have t: "take (length meth) ?f = meth" "take (length path) (path @ '' HTTP/1.1'') = path" by simp_all
  have "request_of \<lparr>pm_first_line = ?f, pm_headers = block lines, pm_body = body\<rparr> =
      req\<lparr>rq_body := (if body = [] then None else Some body)\<rparr>"
    unfolding request_of_def Let_def ParsedMessage.select_convs c m option.case d v t cstr_block [OF assms(3)]
    by (simp add: req_def)
  with p show ?thesis by blast
qed



section \<open>Header lookup\<close>

text \<open>What a lookup should return: the value of the first line whose name matches.\<close>

fun spec_header :: "string \<Rightarrow> (string \<times> string) list \<Rightarrow> string option" where
  "spec_header name [] = None"
| "spec_header name ((n, v) # hs) = (if EqualsIgnoreCase n name then Some v else spec_header name hs)"

definition header_line :: "string \<times> string \<Rightarrow> string" where
  "header_line h = fst h @ '': '' @ snd h"

definition header_ok :: "string \<times> string \<Rightarrow> bool" where
  "header_ok h \<longleftrightarrow> line_ok (header_line h) \<and> CHR '':'' \<notin> set (fst h) \<and> (snd h = [] \<or> hd (snd h) \<noteq> CHR '' '')"

lemma get_header_line:
  assumes "header_ok h"
  shows "get_header_loop name (header_line h @ CR # LF # rest) =
    (if EqualsIgnoreCase (fst h) name then accept (snd h) else get_header_loop name rest)"
proof -
  let ?l = "header_line h"
  let ?p = "?l @ CR # LF # rest"
  have e: "memchr LF ?p = Some (length ?l + 1)"
    using memchr_hit [of LF "?l @ [CR]" rest] assms by (simp add: header_ok_def line_ok_def)
  have c: "memchr (CHR '':'') ?l = Some (length (fst h))"
    using memchr_hit [of "CHR '':''" "fst h" "CHR '' '' # snd h"] assms by (simp add: header_ok_def header_line_def)
  have v: "dropWhile (\<lambda>c. c = CHR '' '') (drop (length (fst h) + 1) ?l) = snd h"
    using assms by (cases "snd h") (auto simp: header_ok_def header_line_def)
  have t: "take (length ?l + 1 - 1) ?p = ?l" "drop (length ?l + 1 + 1) ?p = rest" by simp_all
  have f: "take (length (fst h)) ?l = fst h" by (simp add: header_line_def)
  show ?thesis
    by (subst get_header_loop.simps) (simp only: e t f c v Let_def option.case option.sel option.inject if_False
        append_is_Nil_conv list.distinct simp_thms add_is_0 one_neq_zero)
qed

text \<open>
  Looking a header up in a block of \<^verbatim>\<open>Name: value\<close> lines never reads outside the block and returns
  the value of the first line whose name equals the wanted one up to ASCII case, without its
  leading spaces, and nothing when no line has that name.
\<close>

theorem header_lookup:
  assumes "\<forall>h \<in> set hs. header_ok h" "CHR 0x00 \<notin> set name"
  shows "http_get_header (Some (block (map header_line hs))) (Some name) = Some (spec_header name hs)"
proof -
  have "get_header_loop name (block (map header_line hs)) = Some (spec_header name hs)"
    using assms(1)
  proof (induction hs)
    case Nil
    then show ?case by (simp add: get_header_loop.simps)
  next
    case (Cons h hs)
    then show ?case using get_header_line [of h name "block (map header_line hs)"] by (cases h) simp
  qed
  moreover have "cstr (block (map header_line hs)) = block (map header_line hs)"
    using assms(1) by (intro cstr_block) (auto simp: header_ok_def)
  ultimately show ?thesis using assms(2) by (simp add: http_get_header_def cstr_id)
qed

theorem header_lookup_witness:
  "http_get_header (Some (block (map header_line [(''Host'', ''x''), (''Content-Type'', ''text'')]))) (Some ''content-type'') =
     Some (Some ''text'')"
proof -
  have e: "\<not> EqualsIgnoreCase ''Host'' ''content-type''" "EqualsIgnoreCase ''Content-Type'' ''content-type''"
    by (simp add: EqualsIgnoreCase_def, code_simp)
  show ?thesis
    using header_lookup [of "[(''Host'', ''x''), (''Content-Type'', ''text'')]" "''content-type''"] e
    by (simp add: header_ok_def header_line_def line_ok_def)
qed

section \<open>Two faults of the implementation\<close>

text \<open>A block with a bare line feed at the start of a line makes the lookup read outside it.\<close>

lemma header_lookup_bare_line_feed: "http_get_header (Some [LF]) (Some ''Host'') = None"
  by (simp add: http_get_header_def cstr_def get_header_loop.simps memchr_def)

text \<open>A long reason phrase truncates the status line, and the client cannot parse the reply.\<close>

lemma long_reason_unparsable:
  "http_fetch True (Some req) FuseOk FuseOk
     (FuseOk, response_wire \<lparr>rp_status = 200, rp_reason = Some (replicate 60 (CHR ''x'')), rp_headers = None, rp_body = None\<rparr>) =
   (FuseErrInternal, Some (request_wire req), http_response_init)"
proof -
  have "ParseMessage (response_wire \<lparr>rp_status = 200, rp_reason = Some (replicate 60 (CHR ''x'')),
      rp_headers = None, rp_body = None\<rparr>) = None"
    by code_simp
  then show ?thesis by (simp add: http_fetch_def Let_def)
qed

end
