(* ===== verification/Udp.thy ===== *)
theory Udp
  imports Fuse_Prelude
begin

text \<open>
  Peer addresses and the portable half of the UDP socket
  (\<^verbatim>\<open>src/include/fuse/proto/udp.hpp\<close>, \<^verbatim>\<open>src/src/proto/udp_common.cpp\<close>).

  A \<^verbatim>\<open>PeerAddr\<close> wraps a \<^verbatim>\<open>sockaddr_storage\<close>: an IPv4 address, an IPv6 address (whose flow label and
  scope the comparison ignores), or storage of another family, as a default-constructed
  \<^verbatim>\<open>PeerAddr\<close> has. Ports are kept in host order. The operating system is a parameter: \<open>inet_pton\<close>
  and \<open>inet_ntop\<close> translate literals, and \<open>Os\<close> answers the socket calls.
\<close>

section \<open>Addresses\<close>

datatype PeerAddr =
    Inet u16 "byte list"
  | Inet6 u16 "byte list" u32
  | OtherFamily u16 "byte list"

definition AF_INET :: u16 where [simp]: "AF_INET = 2"
definition AF_INET6 :: u16 where [simp]: "AF_INET6 = 10"

fun ss_family :: "PeerAddr \<Rightarrow> u16" where
  "ss_family (Inet port ip) = AF_INET"
| "ss_family (Inet6 port ip scope) = AF_INET6"
| "ss_family (OtherFamily f raw) = f"

text \<open>\<^verbatim>\<open>PeerAddr{}\<close>: zeroed storage.\<close>

definition no_peer :: PeerAddr where
  "no_peer = OtherFamily 0 (replicate 4 0)"

fun peer_eq :: "PeerAddr \<Rightarrow> PeerAddr \<Rightarrow> bool" where
  "peer_eq (Inet p ip) (Inet q jp) \<longleftrightarrow> p = q \<and> ip = jp"
| "peer_eq (Inet6 p ip _) (Inet6 q jp _) \<longleftrightarrow> p = q \<and> ip = jp"
| "peer_eq _ _ \<longleftrightarrow> False"

fun peer_port :: "PeerAddr \<Rightarrow> u16" where
  "peer_port (Inet p _) = p"
| "peer_port (Inet6 p _ _) = p"
| "peer_port (OtherFamily _ _) = 0"

definition wildcard_for :: "PeerAddr \<Rightarrow> string" where
  "wildcard_for dst = (if ss_family dst = AF_INET6 then ''::'' else ''0.0.0.0'')"

definition ip_udp_overhead :: "PeerAddr \<Rightarrow> nat" where
  "ip_udp_overhead dst = (if ss_family dst = AF_INET6 then 40 + 8 else 20 + 8)"

text \<open>\<open>inet_pton four lit\<close> parses an IPv4 (\<open>four\<close>) or IPv6 literal.\<close>

definition parse_sockaddr ::
  "(bool \<Rightarrow> string \<Rightarrow> byte list option) \<Rightarrow> string option \<Rightarrow> u16 \<Rightarrow> PeerAddr option" where
  "parse_sockaddr inet_pton addr port =
     (case addr of
        None \<Rightarrow> Some (Inet port (replicate 4 0))
      | Some a \<Rightarrow>
          if a = ''0.0.0.0'' then Some (Inet port (replicate 4 0))
          else if a = ''::'' then Some (Inet6 port (replicate 16 0) 0)
          else case inet_pton True a of
                 Some ip \<Rightarrow> Some (Inet port ip)
               | None \<Rightarrow> (case inet_pton False a of
                            Some ip \<Rightarrow> Some (Inet6 port ip 0)
                          | None \<Rightarrow> None))"

text \<open>\<open>inet_ntop four ip\<close> is the literal; it must fit the caller's buffer with its NUL.\<close>

definition peer_to_string ::
  "(bool \<Rightarrow> byte list \<Rightarrow> string) \<Rightarrow> PeerAddr \<Rightarrow> nat \<Rightarrow> string option" where
  "peer_to_string inet_ntop p buf_cap =
     (case p of
        Inet _ ip \<Rightarrow> if length (inet_ntop True ip) < buf_cap then Some (inet_ntop True ip) else None
      | Inet6 _ ip _ \<Rightarrow> if length (inet_ntop False ip) < buf_cap then Some (inet_ntop False ip) else None
      | OtherFamily _ _ \<Rightarrow> None)"

section \<open>The socket\<close>

record Os =
  os_pton :: "bool \<Rightarrow> string \<Rightarrow> byte list option"
  os_socket :: "u16 \<Rightarrow> nat option"
  os_bind :: "nat \<Rightarrow> PeerAddr \<Rightarrow> bool"
  os_getsockname :: "nat \<Rightarrow> PeerAddr option"
  os_sendto :: "nat \<Rightarrow> byte list \<Rightarrow> PeerAddr \<Rightarrow> nat option"
  os_recvfrom :: "nat \<Rightarrow> (byte list \<times> PeerAddr) option"

text \<open>The descriptor \<^verbatim>\<open>fd_\<close>, \<^term>\<open>None\<close> for \<open>-1\<close>. \<open>os_sendto\<close> answers the bytes sent.\<close>

record UdpSocket =
  us_fd :: "nat option"

definition udp_close :: "UdpSocket \<Rightarrow> UdpSocket" where
  "udp_close s = s\<lparr>us_fd := None\<rparr>"

definition udp_open :: "Os \<Rightarrow> string option \<Rightarrow> u16 \<Rightarrow> UdpSocket \<Rightarrow> bool \<times> UdpSocket" where
  "udp_open os addr port s =
     (let s = udp_close s in
      case parse_sockaddr (os_pton os) addr port of
        None \<Rightarrow> (False, s)
      | Some local \<Rightarrow>
          (case os_socket os (ss_family local) of
             None \<Rightarrow> (False, s)
           | Some fd \<Rightarrow>
               let s = s\<lparr>us_fd := Some fd\<rparr> in
               if os_bind os fd local then (True, s) else (False, udp_close s)))"

definition udp_local_port :: "Os \<Rightarrow> UdpSocket \<Rightarrow> u16" where
  "udp_local_port os s =
     (case us_fd s of
        None \<Rightarrow> 0
      | Some fd \<Rightarrow> (case os_getsockname os fd of None \<Rightarrow> 0 | Some b \<Rightarrow> peer_port b))"

definition udp_resolve :: "Os \<Rightarrow> string option \<Rightarrow> u16 \<Rightarrow> PeerAddr option" where
  "udp_resolve os addr port = parse_sockaddr (os_pton os) addr port"

definition udp_send_to :: "Os \<Rightarrow> byte list \<Rightarrow> PeerAddr \<Rightarrow> UdpSocket \<Rightarrow> bool" where
  "udp_send_to os dg dst s =
     (case us_fd s of
        None \<Rightarrow> False
      | Some fd \<Rightarrow> os_sendto os fd dg dst = Some (length dg))"

definition udp_recv_from :: "Os \<Rightarrow> nat \<Rightarrow> UdpSocket \<Rightarrow> (byte list \<times> PeerAddr) option" where
  "udp_recv_from os buf_cap s =
     (case us_fd s of
        None \<Rightarrow> None
      | Some fd \<Rightarrow> map_option (\<lambda>(dg, src). (take buf_cap dg, src)) (os_recvfrom os fd))"

section \<open>Lemmas\<close>

lemma peer_eq_sym: "peer_eq a b \<Longrightarrow> peer_eq b a"
  by (cases a; cases b) auto

lemma peer_eq_trans: "peer_eq a b \<Longrightarrow> peer_eq b c \<Longrightarrow> peer_eq a c"
  by (cases a; cases b; cases c) auto

lemma peer_eq_refl_iff: "peer_eq a a \<longleftrightarrow> (\<forall>f raw. a \<noteq> OtherFamily f raw)"
  by (cases a) auto

lemma no_peer_never_equal [simp]: "\<not> peer_eq no_peer a" "\<not> peer_eq a no_peer"
  by (simp_all add: no_peer_def)

lemma peer_eq_family: "peer_eq a b \<Longrightarrow> ss_family a = ss_family b \<and> peer_port a = peer_port b"
  by (cases a; cases b) auto

text \<open>A socket opened on the wildcard of a destination has the destination's family.\<close>

lemma wildcard_family:
  assumes "parse_sockaddr pton (Some (wildcard_for dst)) 0 = Some local"
    and "ss_family dst = AF_INET \<or> ss_family dst = AF_INET6"
  shows "ss_family local = ss_family dst"
  using assms by (auto simp: parse_sockaddr_def wildcard_for_def)

lemma udp_open_fails_closed: "udp_open os addr port s = (False, s') \<Longrightarrow> us_fd s' = None"
  by (auto simp: udp_open_def udp_close_def Let_def split: option.splits if_splits)

end
