(* ===== verification/Session_Crypto.thy ===== *)
theory Session_Crypto
  imports Wire
begin

text \<open>
  Session keying and the AEAD layers over it (\<^verbatim>\<open>include/fuse/proto/session_crypto.hpp\<close>,
  \<^verbatim>\<open>src/proto/session_crypto.cpp\<close>): nonce construction, lane ciphers, control-datagram
  authentication and the per-epoch key schedule.

  wolfSSL is the parameter \<open>Crypto\<close>: one field per call the source makes, \<^term>\<open>None\<close> or \<^term>\<open>False\<close>
  where the call fails. \<open>aead_ok\<close> states what the library documents of AES-GCM: decryption with the
  same key, nonce and associated data returns the plaintext.
\<close>

section \<open>The crypto library\<close>

record Crypto =
  cr_available :: bool
  cr_extract :: "byte list \<Rightarrow> byte list \<Rightarrow> byte list option"
  cr_expand_label :: "byte list \<Rightarrow> byte list \<Rightarrow> byte list \<Rightarrow> byte list \<Rightarrow> byte list option"
  cr_aes_init :: bool
  cr_set_key :: "byte list \<Rightarrow> bool"
  cr_encrypt :: "byte list \<Rightarrow> byte list \<Rightarrow> byte list \<Rightarrow> byte list \<Rightarrow> (byte list \<times> byte list) option"
  cr_decrypt :: "byte list \<Rightarrow> byte list \<Rightarrow> byte list \<Rightarrow> byte list \<Rightarrow> byte list \<Rightarrow> byte list option"

definition kAeadTagLen :: nat where [simp]: "kAeadTagLen = 16"
definition kControlTrailerLen :: nat where [simp]: "kControlTrailerLen = 8 + kAeadTagLen"
definition kKeyEpochShift :: nat where [simp]: "kKeyEpochShift = 22"

definition aead_ok :: "Crypto \<Rightarrow> bool" where
  "aead_ok cr \<longleftrightarrow> (\<forall>key nonce aad pt ct tag. cr_encrypt cr key nonce aad pt = Some (ct, tag) \<longrightarrow>
     length ct = length pt \<and> length tag = kAeadTagLen \<and> cr_decrypt cr key nonce aad ct tag = Some pt)"

text \<open>The HKDF labels, as the bytes of the C strings without their terminator.\<close>

definition ascii :: "string \<Rightarrow> byte list" where
  "ascii s = map (\<lambda>c. of_nat (of_char c)) s"

section \<open>Keys and nonces\<close>

definition derive_session_key ::
  "Crypto \<Rightarrow> byte list option \<Rightarrow> byte list option \<Rightarrow> byte list option" where
  "derive_session_key cr psk salt =
     (case (psk, salt) of
        (Some psk, Some salt) \<Rightarrow>
          if length psk = 0 \<or> length salt = 0 then None
          else if length psk > 0xFFFFFFFF \<or> length salt > 0xFFFFFFFF then None
          else do {
            prk \<leftarrow> cr_extract cr salt psk;
            cr_expand_label cr prk (ascii ''fuse2 '') (ascii ''session key'')  []
          }
      | _ \<Rightarrow> None)"

definition build_nonce :: "u16 \<Rightarrow> u64 \<Rightarrow> byte list" where
  "build_nonce lane seq =
     [ucast (drop_bit 8 lane), ucast lane] @
     map (\<lambda>i. ucast (drop_bit (56 - 8 * i) seq)) [0..<8] @ [0, 0]"

definition control_nonce :: "u16 \<Rightarrow> u64 \<Rightarrow> u8 \<Rightarrow> byte list" where
  "control_nonce lane ctr dir = put_u16 lane @ put_u64 ctr @ [dir, 1]"

definition derive_lane_epoch_key :: "Crypto \<Rightarrow> byte list option \<Rightarrow> u16 \<Rightarrow> u64 \<Rightarrow> byte list option" where
  "derive_lane_epoch_key cr session_key lane epoch =
     (case session_key of
        None \<Rightarrow> None
      | Some k \<Rightarrow> cr_expand_label cr k (ascii ''fuse2 '') (ascii ''lane key'') (put_u16 lane @ put_u64 epoch))"

section \<open>Lane ciphers\<close>

record LaneCipher =
  lc_aes :: bool
  lc_key :: "byte list"
  lc_initialized :: bool

definition new_lane_cipher :: LaneCipher where
  "new_lane_cipher = \<lparr>lc_aes = False, lc_key = [], lc_initialized = False\<rparr>"

definition lane_cipher_init :: "Crypto \<Rightarrow> byte list \<Rightarrow> LaneCipher \<Rightarrow> bool \<times> LaneCipher" where
  "lane_cipher_init cr key c =
     (if lc_initialized c then (False, c)
      else if \<not> lc_aes c \<and> \<not> cr_aes_init cr then (False, c)
      else let ok = cr_set_key cr key in
           (ok, c\<lparr>lc_aes := True, lc_key := (if ok then key else lc_key c), lc_initialized := ok\<rparr>))"

definition lane_seal ::
  "Crypto \<Rightarrow> LaneCipher \<Rightarrow> u16 \<Rightarrow> u64 \<Rightarrow> byte list \<Rightarrow> byte list \<Rightarrow> byte list option" where
  "lane_seal cr c lane seq aad pt =
     (if \<not> lc_initialized c then None
      else do {
        (ct, tag) \<leftarrow> cr_encrypt cr (lc_key c) (build_nonce lane seq) aad pt;
        Some (ct @ tag)
      })"

definition lane_open ::
  "Crypto \<Rightarrow> LaneCipher \<Rightarrow> u16 \<Rightarrow> u64 \<Rightarrow> byte list \<Rightarrow> byte list \<Rightarrow> byte list option" where
  "lane_open cr c lane seq aad inp =
     (if \<not> lc_initialized c \<or> length inp < kAeadTagLen then None
      else let ct_len = length inp - kAeadTagLen in
           cr_decrypt cr (lc_key c) (build_nonce lane seq) aad (take ct_len inp) (drop ct_len inp))"

section \<open>Control authentication\<close>

record ControlAuth =
  ca_cipher :: "LaneCipher option"
  ca_lane :: u16
  ca_dir :: u8
  ca_next_ctr :: u64

definition new_control_auth :: ControlAuth where
  "new_control_auth = \<lparr>ca_cipher = None, ca_lane = 0, ca_dir = 0, ca_next_ctr = 1\<rparr>"

definition control_auth_init ::
  "Crypto \<Rightarrow> byte list option \<Rightarrow> u16 \<Rightarrow> u8 \<Rightarrow> ControlAuth \<Rightarrow> bool \<times> ControlAuth" where
  "control_auth_init cr session_key lane local_dir a =
     (case session_key of
        None \<Rightarrow> (False, a)
      | Some sk \<Rightarrow>
          if ca_cipher a \<noteq> None \<or> local_dir > 1 then (False, a)
          else
            case cr_expand_label cr sk (ascii ''fuse2 '') (ascii ''control key'') [] of
              None \<Rightarrow> (False, a)
            | Some k \<Rightarrow>
                let (ok, c) = lane_cipher_init cr k new_lane_cipher in
                if \<not> ok then (False, a)
                else (True, a\<lparr>ca_cipher := Some c, ca_lane := lane, ca_dir := local_dir\<rparr>))"

text \<open>\<open>cap\<close> is the room in the caller's buffer; the result is the extended datagram.\<close>

definition control_seal :: "Crypto \<Rightarrow> byte list \<Rightarrow> nat \<Rightarrow> ControlAuth \<Rightarrow> byte list option \<times> ControlAuth" where
  "control_seal cr dg cap a =
     (case ca_cipher a of
        None \<Rightarrow> (None, a)
      | Some c \<Rightarrow>
          if cap < length dg \<or> cap - length dg < kControlTrailerLen \<or> length dg > 0xFFFFFFFF
          then (None, a)
          else
            let ctr = ca_next_ctr a;
                a = a\<lparr>ca_next_ctr := ca_next_ctr a + 1\<rparr>;
                body = dg @ put_u64 ctr
            in case cr_encrypt cr (lc_key c) (control_nonce (ca_lane a) ctr (ca_dir a)) body [] of
                 None \<Rightarrow> (None, a)
               | Some (ct, tag) \<Rightarrow> (Some (body @ tag), a))"

definition control_open :: "Crypto \<Rightarrow> byte list \<Rightarrow> ControlAuth \<Rightarrow> nat option" where
  "control_open cr dg a =
     (case ca_cipher a of
        None \<Rightarrow> None
      | Some c \<Rightarrow>
          if length dg < kControlTrailerLen \<or> length dg > 0xFFFFFFFF then None
          else do {
            let body = length dg - kControlTrailerLen;
            ctr \<leftarrow> get_u64 dg body;
            cr_decrypt cr (lc_key c) (control_nonce (ca_lane a) ctr (ca_dir a XOR 1))
              (take (body + 8) dg) [] (drop (body + 8) dg);
            Some body
          })"

section \<open>The key schedule\<close>

record LaneKeySchedule =
  ks_key :: "byte list"
  ks_lane :: u16
  ks_ready :: bool
  ks_slots :: "(u64 \<times> LaneCipher option) list"
  ks_next :: nat

definition new_key_schedule :: LaneKeySchedule where
  "new_key_schedule = \<lparr>ks_key = replicate 32 0, ks_lane = 0, ks_ready = False,
     ks_slots = [(- 1, None), (- 1, None)], ks_next = 0\<rparr>"

definition key_schedule_init ::
  "Crypto \<Rightarrow> byte list option \<Rightarrow> u16 \<Rightarrow> LaneKeySchedule \<Rightarrow> bool \<times> LaneKeySchedule" where
  "key_schedule_init cr session_key lane s =
     (case session_key of
        None \<Rightarrow> (False, s)
      | Some k \<Rightarrow>
          if ks_ready s \<or> \<not> cr_available cr then (False, s)
          else (True, s\<lparr>ks_key := k, ks_lane := lane, ks_ready := True\<rparr>))"

definition cached_cipher :: "u64 \<Rightarrow> (u64 \<times> LaneCipher option) list \<Rightarrow> LaneCipher option" where
  "cached_cipher epoch slots =
     (case filter (\<lambda>(e, c). c \<noteq> None \<and> e = epoch) slots of [] \<Rightarrow> None | (e, c) # _ \<Rightarrow> c)"

definition cipher_for :: "Crypto \<Rightarrow> u64 \<Rightarrow> LaneKeySchedule \<Rightarrow> LaneCipher option \<times> LaneKeySchedule" where
  "cipher_for cr seq s =
     (if \<not> ks_ready s then (None, s)
      else
        let epoch = drop_bit kKeyEpochShift seq in
        case cached_cipher epoch (ks_slots s) of
          Some c \<Rightarrow> (Some c, s)
        | None \<Rightarrow>
            (case derive_lane_epoch_key cr (Some (ks_key s)) (ks_lane s) epoch of
               None \<Rightarrow> (None, s)
             | Some k \<Rightarrow>
                 let (ok, c) = lane_cipher_init cr k new_lane_cipher in
                 if \<not> ok then (None, s)
                 else (Some c, s\<lparr>ks_slots := (ks_slots s)[ks_next s := (epoch, Some c)],
                                 ks_next := (ks_next s + 1) mod 2\<rparr>)))"

section \<open>No nonce repeats\<close>

lemma build_nonce_eq: "build_nonce lane seq = put_u16 lane @ put_u64 seq @ [0, 0]"
  by (simp add: build_nonce_def put_u16_def put_u64_def)

lemma build_nonce_inj: "build_nonce l s = build_nonce l' s' \<longleftrightarrow> l = l' \<and> s = s'"
  by (auto simp: build_nonce_eq append_eq_append_conv)

lemma control_nonce_inj: "control_nonce l c d = control_nonce l' c' d' \<longleftrightarrow> l = l' \<and> c = c' \<and> d = d'"
  by (auto simp: control_nonce_def append_eq_append_conv)

lemma data_control_nonce: "build_nonce l s \<noteq> control_nonce l' c d"
  by (simp add: build_nonce_eq control_nonce_def append_eq_append_conv)

text \<open>The nonces the successive calls of \<^verbatim>\<open>ControlAuth::seal\<close> hand to the cipher.\<close>

fun seal_nonces :: "Crypto \<Rightarrow> ControlAuth \<Rightarrow> (byte list \<times> nat) list \<Rightarrow> byte list list" where
  "seal_nonces cr a [] = []"
| "seal_nonces cr a ((dg, cap) # dgs) =
     (let a' = snd (control_seal cr dg cap a) in
      (if ca_next_ctr a' \<noteq> ca_next_ctr a then [control_nonce (ca_lane a) (ca_next_ctr a) (ca_dir a)] else [])
      @ seal_nonces cr a' dgs)"

lemma control_seal_state:
  "ca_lane (snd (control_seal cr dg cap a)) = ca_lane a \<and> ca_dir (snd (control_seal cr dg cap a)) = ca_dir a \<and>
   ca_cipher (snd (control_seal cr dg cap a)) = ca_cipher a \<and>
   (snd (control_seal cr dg cap a) = a \<or> ca_next_ctr (snd (control_seal cr dg cap a)) = ca_next_ctr a + 1)"
  by (simp add: control_seal_def Let_def split: option.split prod.split)

lemma seal_nonces_range:
  "\<exists>n \<le> length dgs. seal_nonces cr a dgs =
     map (\<lambda>i. control_nonce (ca_lane a) (ca_next_ctr a + of_nat i) (ca_dir a)) [0..<n]"
proof (induction dgs arbitrary: a)
  case (Cons d dgs)
  obtain dg cap where d: "d = (dg, cap)" by (cases d)
  let ?a = "snd (control_seal cr dg cap a)"
  note st = control_seal_state [of cr dg cap a]
  obtain n where n: "n \<le> length dgs" "seal_nonces cr ?a dgs =
      map (\<lambda>i. control_nonce (ca_lane a) (ca_next_ctr ?a + of_nat i) (ca_dir a)) [0..<n]"
    using Cons [of ?a] st by auto
  show ?case
  proof (cases "?a = a")
    case True
    then show ?thesis using n by (intro exI [of _ n]) (simp add: d)
  next
    case False
    then have c: "ca_next_ctr ?a = ca_next_ctr a + 1" using st by blast
    have "map (\<lambda>i. control_nonce (ca_lane a) (ca_next_ctr a + of_nat i) (ca_dir a)) [0..<Suc n] =
        control_nonce (ca_lane a) (ca_next_ctr a) (ca_dir a) #
        map (\<lambda>i. control_nonce (ca_lane a) (ca_next_ctr a + 1 + of_nat i) (ca_dir a)) [0..<n]"
      by (simp add: upt_conv_Cons map_Suc_upt [symmetric] add.assoc del: upt_Suc)
    then show ?thesis using n c by (intro exI [of _ "Suc n"]) (simp add: d del: upt_Suc)
  qed
qed simp

lemma seal_nonces_distinct:
  assumes "length dgs < 2 ^ 64"
  shows "distinct (seal_nonces cr a dgs)"
proof -
  obtain n where n: "n \<le> length dgs" "seal_nonces cr a dgs =
      map (\<lambda>i. control_nonce (ca_lane a) (ca_next_ctr a + of_nat i) (ca_dir a)) [0..<n]"
    using seal_nonces_range by blast
  have "i = j" if "i < n" "j < n" "(of_nat i :: u64) = of_nat j" for i j
  proof -
    have "unat (of_nat i :: u64) = i" "unat (of_nat j :: u64) = j"
      using that(1,2) n(1) assms by (simp_all add: unat_of_nat)
    then show ?thesis unfolding that(3) by (rule trans [OF sym])
  qed
  then show ?thesis
    unfolding n(2) by (auto simp: distinct_map control_nonce_inj intro!: inj_onI)
qed


definition demo_tag :: "byte list \<Rightarrow> byte list \<Rightarrow> byte list" where
  "demo_tag n a = take 16 (n @ a @ replicate 16 0)"

definition demo_key :: "byte list \<Rightarrow> byte list \<Rightarrow> byte list" where
  "demo_key k x = take 32 (x @ k @ replicate 32 0)"

definition demo_crypto :: Crypto where
  "demo_crypto = \<lparr>cr_available = True, cr_extract = (\<lambda>salt ikm. Some (demo_key ikm salt)),
     cr_expand_label = (\<lambda>prk proto label ctx. Some (demo_key prk (ctx @ label))),
     cr_aes_init = True, cr_set_key = (\<lambda>k. length k = 32),
     cr_encrypt = (\<lambda>k n a p. Some (p, demo_tag n a)),
     cr_decrypt = (\<lambda>k n a c t. if t = demo_tag n a then Some c else None)\<rparr>"

lemma demo_crypto_simps [simp]:
  "cr_available demo_crypto" "cr_expand_label demo_crypto prk proto label ctx = Some (demo_key prk (ctx @ label))"
  "cr_aes_init demo_crypto" "cr_set_key demo_crypto k \<longleftrightarrow> length k = 32"
  "cr_encrypt demo_crypto k n a p = Some (p, demo_tag n a)"
  "cr_decrypt demo_crypto k n a c t = (if t = demo_tag n a then Some c else None)"
  by (simp_all add: demo_crypto_def)

lemma length_demo [simp]: "length (demo_tag n a) = 16" "length (demo_key k x) = 32"
  by (simp_all add: demo_tag_def demo_key_def del: take_append)


section \<open>Sealed control datagrams open at the other end\<close>

text \<open>Two ends keyed alike: same control key and lane, opposite directions.\<close>

lemma control_auth_init_ready:
  assumes "control_auth_init cr sk lane dir new_control_auth = (True, a)"
  obtains k where "cr_expand_label cr (the sk) (ascii ''fuse2 '') (ascii ''control key'') [] = Some k"
    "ca_cipher a = Some \<lparr>lc_aes = True, lc_key = k, lc_initialized = True\<rparr>"
    "ca_lane a = lane" "ca_dir a = dir" "dir \<le> 1"
  using assms
  by (auto simp: control_auth_init_def lane_cipher_init_def new_lane_cipher_def new_control_auth_def Let_def not_less
      split: option.splits if_splits)

fun seal_run :: "Crypto \<Rightarrow> (byte list \<times> nat) list \<Rightarrow> ControlAuth \<Rightarrow> ControlAuth" where
  "seal_run cr [] a = a"
| "seal_run cr ((dg, cap) # dgs) a = seal_run cr dgs (snd (control_seal cr dg cap a))"

lemma seal_run_keeps: "ca_lane (seal_run cr dgs a) = ca_lane a \<and> ca_dir (seal_run cr dgs a) = ca_dir a \<and>
    ca_cipher (seal_run cr dgs a) = ca_cipher a"
  by (induction cr dgs a rule: seal_run.induct) (simp_all add: control_seal_state)

lemma control_seal_open:
  assumes ok: "aead_ok cr" and ca: "ca_cipher a = Some c" "ca_cipher b = Some c" "ca_lane a = ca_lane b"
    "ca_dir a = ca_dir b XOR 1" and s: "fst (control_seal cr dg cap a) = Some out" and len: "length out \<le> 0xFFFFFFFF"
  shows "out = dg @ put_u64 (ca_next_ctr a) @ drop (length dg + 8) out \<and> length out = length dg + 24 \<and>
    length out \<le> cap \<and> control_open cr out b = Some (length dg)"
proof -
  let ?n = "control_nonce (ca_lane a) (ca_next_ctr a) (ca_dir a)" and ?body = "dg @ put_u64 (ca_next_ctr a)"
  obtain ct tag where e: "cr_encrypt cr (lc_key c) ?n ?body [] = Some (ct, tag)" "out = ?body @ tag"
    "cap \<ge> length dg + 24"
    using s ca(1) by (auto simp: control_seal_def Let_def split: option.splits if_splits)
  then have d: "cr_decrypt cr (lc_key c) ?n ?body ct tag = Some []" "length tag = 16" "ct = []"
    using ok unfolding aead_ok_def by fastforce+
  have g: "get_u64 out (length dg) = Some (ca_next_ctr a)"
    by (simp add: e(2) wire_simps)
  show ?thesis
    using ca d len e(2,3) g by (simp add: control_open_def Let_def)
qed

text \<open>
  C33: two ends initialised with the same session key and lane and opposite directions
  understand each other: whatever was sealed before, a datagram one end seals is extended by
  exactly the 24-byte trailer carrying a fresh counter, and the other end accepts it and
  recovers the length of the original datagram.
\<close>

theorem control_auth_round_trip:
  assumes "aead_ok cr"
    "control_auth_init cr sk lane dir new_control_auth = (True, a0)"
    "control_auth_init cr sk lane (dir XOR 1) new_control_auth = (True, b0)"
    "a = seal_run cr before a0" "b = seal_run cr before' b0"
    "fst (control_seal cr dg cap a) = Some out" "length out \<le> 0xFFFFFFFF"
  shows "control_open cr out b = Some (length dg) \<and> take (length dg) out = dg \<and>
    length out = length dg + 24 \<and> length out \<le> cap"
proof -
  obtain k where k: "cr_expand_label cr (the sk) (ascii ''fuse2 '') (ascii ''control key'') [] = Some k"
    "ca_cipher a0 = Some \<lparr>lc_aes = True, lc_key = k, lc_initialized = True\<rparr>" "ca_lane a0 = lane" "ca_dir a0 = dir"
    using control_auth_init_ready [OF assms(2)] by metis
  obtain k' where k': "cr_expand_label cr (the sk) (ascii ''fuse2 '') (ascii ''control key'') [] = Some k'"
    "ca_cipher b0 = Some \<lparr>lc_aes = True, lc_key = k', lc_initialized = True\<rparr>" "ca_lane b0 = lane"
    "ca_dir b0 = dir XOR 1"
    using control_auth_init_ready [OF assms(3)] by metis
  have "k' = k" using k(1) k'(1) by simp
  with control_seal_open [OF assms(1), of a "\<lparr>lc_aes = True, lc_key = k, lc_initialized = True\<rparr>" b dg cap out]
    k k' assms(4-7) seal_run_keeps [of cr before a0] seal_run_keeps [of cr before' b0]
  show ?thesis by (simp add: xor.assoc) (metis append_eq_conv_conj)
qed

lemma demo_crypto_aead: "aead_ok demo_crypto"
  by (simp add: aead_ok_def)

lemma demo_control_init:
  "dir \<le> 1 \<Longrightarrow> control_auth_init demo_crypto (Some sk) lane dir new_control_auth =
     (True, \<lparr>ca_cipher = Some \<lparr>lc_aes = True, lc_key = demo_key sk (ascii ''control key''), lc_initialized = True\<rparr>,
             ca_lane = lane, ca_dir = dir, ca_next_ctr = 1\<rparr>)"
  by (simp add: control_auth_init_def lane_cipher_init_def new_lane_cipher_def new_control_auth_def not_less)

theorem control_auth_round_trip_witness:
  "aead_ok demo_crypto \<and>
   (let a = seal_run demo_crypto [([9], 100)] (snd (control_auth_init demo_crypto (Some (replicate 32 7)) 3 0 new_control_auth));
        b = snd (control_auth_init demo_crypto (Some (replicate 32 7)) 3 1 new_control_auth);
        out = the (fst (control_seal demo_crypto [1, 2, 3] 100 a))
    in control_open demo_crypto out b = Some 3)"
proof -
  let ?i = "\<lambda>d. control_auth_init demo_crypto (Some (replicate 32 7)) 3 d new_control_auth"
  let ?a = "seal_run demo_crypto [([9], 100)] (snd (?i 0))"
  have i: "?i 0 = (True, snd (?i 0))" "?i (0 XOR 1) = (True, snd (?i 1))" by (simp_all add: demo_control_init)
  obtain out where o: "fst (control_seal demo_crypto [1, 2, 3] 100 ?a) = Some out" "length out \<le> 0xFFFFFFFF"
    by (simp add: demo_control_init control_seal_def)
  show ?thesis
    using control_auth_round_trip [OF demo_crypto_aead i refl refl o, of "[]"] o demo_crypto_aead by (simp add: Let_def)
qed

section \<open>The key schedule is a cache\<close>

text \<open>What a schedule without slots would return.\<close>

definition epoch_cipher :: "Crypto \<Rightarrow> byte list \<Rightarrow> u16 \<Rightarrow> u64 \<Rightarrow> LaneCipher option" where
  "epoch_cipher cr key lane epoch =
     (case derive_lane_epoch_key cr (Some key) lane epoch of
        None \<Rightarrow> None
      | Some k \<Rightarrow> if cr_aes_init cr \<and> cr_set_key cr k
                  then Some \<lparr>lc_aes = True, lc_key = k, lc_initialized = True\<rparr> else None)"

definition ks_ok :: "Crypto \<Rightarrow> LaneKeySchedule \<Rightarrow> bool" where
  "ks_ok cr s \<longleftrightarrow> length (ks_slots s) = 2 \<and> ks_next s < 2 \<and>
     (\<forall>(e, c) \<in> set (ks_slots s). c = None \<or> c = epoch_cipher cr (ks_key s) (ks_lane s) e)"

lemma lane_cipher_init_new:
  "lane_cipher_init cr k new_lane_cipher =
     (if cr_aes_init cr \<and> cr_set_key cr k then (True, \<lparr>lc_aes = True, lc_key = k, lc_initialized = True\<rparr>)
      else (False, snd (lane_cipher_init cr k new_lane_cipher)))"
  by (simp add: lane_cipher_init_def new_lane_cipher_def Let_def)

lemma cached_cipher_ok:
  assumes "ks_ok cr s" "cached_cipher e (ks_slots s) = Some c"
  shows "epoch_cipher cr (ks_key s) (ks_lane s) e = Some c"
proof -
  obtain xs where "filter (\<lambda>(e', c). c \<noteq> None \<and> e' = e) (ks_slots s) = (e, Some c) # xs"
    using assms(2) by (auto simp: cached_cipher_def split: list.splits dest!: filter_eq_ConsD)
  then have "(e, Some c) \<in> set (ks_slots s)" by (metis filter_is_subset list.set_intros(1) subsetD)
  then show ?thesis using assms(1) by (auto simp: ks_ok_def)
qed

lemma cipher_for_correct:
  assumes "ks_ok cr s" "ks_ready s" "cipher_for cr seq s = (c, s')"
  shows "c = epoch_cipher cr (ks_key s) (ks_lane s) (drop_bit 22 seq)" "ks_ok cr s'" "ks_ready s'"
    "ks_key s' = ks_key s" "ks_lane s' = ks_lane s"
proof -
  let ?e = "drop_bit 22 seq"
  have "c = epoch_cipher cr (ks_key s) (ks_lane s) ?e \<and> ks_ok cr s' \<and> ks_ready s' \<and>
    ks_key s' = ks_key s \<and> ks_lane s' = ks_lane s"
  proof (cases "cached_cipher ?e (ks_slots s)")
    case (Some c0)
    with assms show ?thesis using cached_cipher_ok [OF assms(1) Some] by (simp add: cipher_for_def)
  next
    case None
    show ?thesis
    proof (cases "epoch_cipher cr (ks_key s) (ks_lane s) ?e")
      case e: None
      with None assms show ?thesis
        by (auto simp: cipher_for_def epoch_cipher_def lane_cipher_init_new split: option.splits if_splits)
    next
      case e: (Some c1)
      then have c: "c = Some c1" and s': "s' = s\<lparr>ks_slots := (ks_slots s)[ks_next s := (?e, Some c1)],
          ks_next := (ks_next s + 1) mod 2\<rparr>"
        using None assms
        by (auto simp: cipher_for_def epoch_cipher_def lane_cipher_init_new split: option.splits if_splits)
      have "set (ks_slots s') \<subseteq> insert (?e, Some c1) (set (ks_slots s))"
        unfolding s' using set_update_subset_insert by fastforce
      with assms e c s' show ?thesis by (auto simp: ks_ok_def)
    qed
  qed
  then show "c = epoch_cipher cr (ks_key s) (ks_lane s) ?e" "ks_ok cr s'" "ks_ready s'"
    "ks_key s' = ks_key s" "ks_lane s' = ks_lane s" by auto
qed

definition use_keys :: "Crypto \<Rightarrow> u64 list \<Rightarrow> LaneKeySchedule \<Rightarrow> LaneKeySchedule" where
  "use_keys cr seqs s = fold (\<lambda>seq s. snd (cipher_for cr seq s)) seqs s"

lemma use_keys_ok:
  "ks_ok cr s \<Longrightarrow> ks_ready s \<Longrightarrow> ks_ok cr (use_keys cr seqs s) \<and> ks_ready (use_keys cr seqs s) \<and>
     ks_key (use_keys cr seqs s) = ks_key s \<and> ks_lane (use_keys cr seqs s) = ks_lane s"
proof (induction seqs arbitrary: s)
  case (Cons q seqs)
  obtain c s' where "cipher_for cr q s = (c, s')" by (cases "cipher_for cr q s")
  with Cons cipher_for_correct [OF Cons.prems this] show ?case by (simp add: use_keys_def)
qed (simp add: use_keys_def)

lemma init_schedule_ok:
  assumes "key_schedule_init cr (Some k) lane new_key_schedule = (True, s)"
  shows "ks_ok cr s" "ks_ready s" "ks_key s = k" "ks_lane s = lane"
  using assms by (auto simp: key_schedule_init_def new_key_schedule_def ks_ok_def split: if_splits)

text \<open>
  C34: sender and receiver of a lane switch keys in step. Whatever sequence numbers each side
  asked for before, in any order and across any epoch boundaries, both get for a sequence
  number the cipher of its epoch; so a block the sender seals under its cipher opens under the
  receiver's, with the plaintext intact, when lane, sequence number and associated data agree.
\<close>

theorem lanes_agree_on_epoch_keys:
  assumes "aead_ok cr"
    "key_schedule_init cr (Some key) lane new_key_schedule = (True, s0)"
    "key_schedule_init cr (Some key) lane new_key_schedule = (True, r0)"
    "cipher_for cr seq (use_keys cr sent s0) = (c, s)" "cipher_for cr seq (use_keys cr received r0) = (d, r)"
  shows "c = d \<and> c = epoch_cipher cr key lane (drop_bit 22 seq) \<and>
    (\<forall>e. c = Some e \<longrightarrow> lane_seal cr e lane seq aad pt = Some out \<longrightarrow>
       length out = length pt + 16 \<and> lane_open cr (the d) lane seq aad out = Some pt)"
proof -
  note i = init_schedule_ok [OF assms(2)] and j = init_schedule_ok [OF assms(3)]
  have "c = epoch_cipher cr key lane (drop_bit 22 seq)" "d = epoch_cipher cr key lane (drop_bit 22 seq)"
    using cipher_for_correct(1) [OF _ _ assms(4)] cipher_for_correct(1) [OF _ _ assms(5)]
      use_keys_ok [OF i(1,2)] use_keys_ok [OF j(1,2)] i j by simp_all
  moreover have "length out = length pt + 16 \<and> lane_open cr e lane seq aad out = Some pt"
    if sealed: "lane_seal cr e lane seq aad pt = Some out" for e
  proof -
    obtain ct tag where "cr_encrypt cr (lc_key e) (build_nonce lane seq) aad pt = Some (ct, tag)" "out = ct @ tag"
      "lc_initialized e"
      using sealed by (cases "cr_encrypt cr (lc_key e) (build_nonce lane seq) aad pt")
        (auto simp: lane_seal_def split: if_splits)
    with assms(1) show ?thesis unfolding aead_ok_def by (fastforce simp: lane_open_def)
  qed
  ultimately show ?thesis by auto
qed

theorem lanes_agree_on_epoch_keys_witness:
  "aead_ok demo_crypto \<and>
   fst (cipher_for demo_crypto 5 (use_keys demo_crypto [0, 0x400000, 0x800001] (snd (key_schedule_init demo_crypto (Some [1]) 2 new_key_schedule)))) =
   fst (cipher_for demo_crypto 5 (use_keys demo_crypto [] (snd (key_schedule_init demo_crypto (Some [1]) 2 new_key_schedule))))"
proof -
  let ?s = "snd (key_schedule_init demo_crypto (Some [1]) 2 new_key_schedule)"
  have i: "key_schedule_init demo_crypto (Some [1]) 2 new_key_schedule = (True, ?s)"
    by (simp add: key_schedule_init_def new_key_schedule_def)
  show ?thesis
    using lanes_agree_on_epoch_keys [OF demo_crypto_aead i i, of 5 "[0, 0x400000, 0x800001]"
        "fst (cipher_for demo_crypto 5 (use_keys demo_crypto [0, 0x400000, 0x800001] ?s))"
        "snd (cipher_for demo_crypto 5 (use_keys demo_crypto [0, 0x400000, 0x800001] ?s))" "[]"
        "fst (cipher_for demo_crypto 5 (use_keys demo_crypto [] ?s))"
        "snd (cipher_for demo_crypto 5 (use_keys demo_crypto [] ?s))"] demo_crypto_aead
    by (simp only: prod.collapse)
qed

end
