(* ===== verification/Transfer_Common.thy ===== *)
theory Transfer_Common
  imports Complex_Main Udp Hash Control Session_Crypto
begin

text \<open>
  The parts of the transfer engine that its lanes share
  (\<^verbatim>\<open>src/src/proto/transfer.cpp\<close>, \<^verbatim>\<open>src/include/fuse/transfer.hpp\<close>): configuration checks, the
  split of a transfer into lanes, address-validation tokens, associated data, signing of control
  datagrams, path validation, and the merging of lane results into one status.

  Random numbers, clocks and the crypto backend are arguments. A function that sends returns the
  datagrams it hands to the socket.
\<close>

section \<open>Configuration and results\<close>

datatype TransferStatus =
    Ok | ConfigError | SocketError | Timeout | AuthFailed | Incomplete | Unsupported
  | ResourceLimit | Cancelled | PeerAborted | IoError | VerifyFailed | VersionMismatch

record TransferConfig =
  tc_base_port :: u16
  tc_lanes :: u16
  tc_block_size :: u16
  tc_pre_shared_key :: "byte list"
  tc_timeout_ms :: u32
  tc_connect_timeout_ms :: u32
  tc_writer_threads :: u16
  tc_ring_slots :: u32

definition default_config :: TransferConfig where
  "default_config =
     \<lparr>tc_base_port = 4433, tc_lanes = 4, tc_block_size = 1200, tc_pre_shared_key = [],
      tc_timeout_ms = 120000, tc_connect_timeout_ms = 10000, tc_writer_threads = 2,
      tc_ring_slots = 256\<rparr>"

record LaneResult =
  lr_bytes :: u64
  lr_retransmits :: u64
  lr_auth_failures :: u64
  lr_final_block :: u32
  lr_start_ns :: u64
  lr_end_ns :: u64
  lr_status :: TransferStatus
  lr_expected :: u64
  lr_started :: bool
  lr_skipped :: u64
  lr_finished :: bool

definition new_lane_result :: LaneResult where
  "new_lane_result =
     \<lparr>lr_bytes = 0, lr_retransmits = 0, lr_auth_failures = 0, lr_final_block = 0, lr_start_ns = 0,
      lr_end_ns = 0, lr_status = Incomplete, lr_expected = 0, lr_started = False, lr_skipped = 0,
      lr_finished = False\<rparr>"

fun severity :: "TransferStatus \<Rightarrow> nat" where
  "severity Ok = 0"
| "severity Incomplete = 1"
| "severity Timeout = 2"
| "severity PeerAborted = 3"
| "severity Cancelled = 4"
| "severity AuthFailed = 5"
| "severity VerifyFailed = 6"
| "severity ResourceLimit = 7"
| "severity IoError = 8"
| "severity SocketError = 9"
| "severity VersionMismatch = 10"
| "severity ConfigError = 11"
| "severity Unsupported = 11"

definition worst :: "LaneResult list \<Rightarrow> TransferStatus" where
  "worst lanes =
     foldl (\<lambda>st l. if severity (lr_status l) > severity st then lr_status l else st) Ok lanes"

fun to_string :: "TransferStatus \<Rightarrow> string" where
  "to_string Ok = ''ok''"
| "to_string ConfigError = ''configuration error''"
| "to_string SocketError = ''socket error''"
| "to_string Timeout = ''timed out''"
| "to_string AuthFailed = ''authentication failed''"
| "to_string Incomplete = ''incomplete transfer''"
| "to_string Unsupported = ''unsupported (built without crypto)''"
| "to_string ResourceLimit = ''peer's claimed size could not be allocated''"
| "to_string Cancelled = ''cancelled''"
| "to_string PeerAborted = ''peer aborted the transfer''"
| "to_string IoError = ''could not write the output''"
| "to_string VerifyFailed =
     ''resumed file failed verification (partial copy discarded; run again)''"
| "to_string VersionMismatch = ''the peer speaks a different Fuse protocol version''"

definition kMinPreSharedKeyLen :: nat where [simp]: "kMinPreSharedKeyLen = 16"

text \<open>The sum is computed in 32 bits, so it does not wrap at the width of a port.\<close>

definition ports_overflow :: "TransferConfig \<Rightarrow> bool" where
  "ports_overflow cfg \<longleftrightarrow> (ucast (tc_base_port cfg) :: u32) + ucast (tc_lanes cfg) - 1 > 65535"

definition psk_too_short :: "TransferConfig \<Rightarrow> bool" where
  "psk_too_short cfg \<longleftrightarrow>
     tc_pre_shared_key cfg \<noteq> [] \<and> length (tc_pre_shared_key cfg) < kMinPreSharedKeyLen"

definition check_receive_config :: "Crypto \<Rightarrow> TransferConfig \<Rightarrow> TransferStatus" where
  "check_receive_config cr cfg =
     (if tc_lanes cfg = 0 \<or> tc_base_port cfg = 0 \<or> ports_overflow cfg \<or> psk_too_short cfg
      then ConfigError
      else if tc_pre_shared_key cfg \<noteq> [] \<and> \<not> cr_available cr then Unsupported
      else Ok)"

record Keys =
  ky_enabled :: bool
  ky_key :: "byte list"
  ky_salt :: "byte list"

text \<open>
  The checks and the key setup of \<^verbatim>\<open>send_impl\<close>, up to the lane threads. \<open>no_data\<close> is
  \<^verbatim>\<open>data == nullptr && len > 0\<close>, and \<open>salt\<close> is the answer of \<^verbatim>\<open>random_bytes\<close>.
\<close>

definition send_prepare :: "Crypto \<Rightarrow> TransferConfig \<Rightarrow> bool \<Rightarrow> byte list option \<Rightarrow> TransferStatus + Keys" where
  "send_prepare cr cfg no_data salt =
     (if tc_lanes cfg = 0 \<or> tc_base_port cfg = 0 \<or> ports_overflow cfg \<or> tc_block_size cfg = 0
         \<or> psk_too_short cfg \<or> no_data
      then Inl ConfigError
      else if tc_pre_shared_key cfg = []
      then Inr \<lparr>ky_enabled = False, ky_key = [], ky_salt = []\<rparr>
      else if \<not> cr_available cr then Inl Unsupported
      else case salt of
             None \<Rightarrow> Inl Unsupported
           | Some s \<Rightarrow>
               (case derive_session_key cr (Some (tc_pre_shared_key cfg)) (Some s) of
                  None \<Rightarrow> Inl Unsupported
                | Some k \<Rightarrow> Inr \<lparr>ky_enabled = True, ky_key = k, ky_salt = s\<rparr>))"

section \<open>Lanes\<close>

text \<open>Lane \<open>i\<close>'s offset and length in a transfer of \<open>len\<close> bytes.\<close>

definition shard_size :: "u16 \<Rightarrow> u64 \<Rightarrow> u64" where
  "shard_size lanes len = (len + ucast lanes - 1) div (if lanes \<noteq> 0 then ucast lanes else 1)"

definition lane_shard :: "u16 \<Rightarrow> u64 \<Rightarrow> u16 \<Rightarrow> u64 \<times> u64" where
  "lane_shard lanes len i =
     (let shard = shard_size lanes len;
          off = min (ucast i * shard) len
      in (off, min shard (len - off)))"

text \<open>What the receiver requires of a StreamStart's sizes.\<close>

definition sizes_fit :: "StreamStart \<Rightarrow> bool" where
  "sizes_fit ss \<longleftrightarrow>
     \<not> (ss_total_bytes ss > ss_file_total_bytes ss \<or>
        ss_stream_base_offset ss > ss_file_total_bytes ss - ss_total_bytes ss)"

section \<open>Signing\<close>

fun ss_address :: "PeerAddr \<Rightarrow> byte list" where
  "ss_address (Inet _ ip) = ip"
| "ss_address (Inet6 _ ip _) = ip"
| "ss_address (OtherFamily _ raw) = raw"

definition token_input :: "PeerAddr \<Rightarrow> u64 \<Rightarrow> byte list" where
  "token_input a nonce =
     put_u16 (ss_family a) @ put_u16 (peer_port a) @ ss_address a @ put_u64 nonce"

definition address_token :: "byte list \<Rightarrow> PeerAddr \<Rightarrow> u64 \<Rightarrow> u64" where
  "address_token secret a nonce =
     (let t = siphash24 secret (token_input a nonce) in if t \<noteq> 0 then t else 1)"

definition build_aad :: "u16 \<Rightarrow> u64 \<Rightarrow> u64 \<Rightarrow> u8 \<Rightarrow> byte list" where
  "build_aad lane seq offset flags =
     put_u16 lane @ put_u64 seq @ put_u64 offset @ put_u8 (flags AND NOT kFlagRetransmission)"

definition seal_ctl ::
  "Crypto \<Rightarrow> ControlAuth option \<Rightarrow> byte list option \<Rightarrow> nat \<Rightarrow> byte list option \<times> ControlAuth option" where
  "seal_ctl cr auth dg cap =
     (case (dg, auth) of
        (Some d, Some a) \<Rightarrow> (let (r, a') = control_seal cr d cap a in (r, Some a'))
      | _ \<Rightarrow> (dg, auth))"

definition ctl_authentic :: "Crypto \<Rightarrow> ControlAuth option \<Rightarrow> byte list \<Rightarrow> bool" where
  "ctl_authentic cr auth dg =
     (case auth of None \<Rightarrow> True | Some a \<Rightarrow> control_open cr dg a \<noteq> None)"

definition send_stream_close ::
  "Crypto \<Rightarrow> u16 \<Rightarrow> u64 \<Rightarrow> u8 \<Rightarrow> ControlAuth option \<Rightarrow> byte list list \<times> ControlAuth option" where
  "send_stream_close cr lane nonce reason auth =
     (let sc = \<lparr>sc_stream_id = lane, sc_nonce = nonce, sc_reason = reason\<rparr>;
          (dg, auth) = seal_ctl cr auth (encode_stream_close sc 64) 64
      in (case dg of None \<Rightarrow> [] | Some d \<Rightarrow> replicate 3 d, auth))"

definition send_path_probe ::
  "Crypto \<Rightarrow> MsgType \<Rightarrow> u16 \<Rightarrow> u64 \<Rightarrow> u64 \<Rightarrow> ControlAuth option \<Rightarrow> byte list list \<times> ControlAuth option" where
  "send_path_probe cr type lane nonce val auth =
     (let pp = \<lparr>pp_stream_id = lane, pp_nonce = nonce, pp_challenge = val\<rparr>;
          (dg, auth) = seal_ctl cr auth (encode_path_probe type pp 64) 64
      in (case dg of None \<Rightarrow> [] | Some d \<Rightarrow> [d], auth))"

section \<open>Path validation\<close>

record PathValidator =
  pv_candidate :: PeerAddr
  pv_challenge :: u64
  pv_sent_ns :: u64
  pv_active :: bool

definition new_path_validator :: PathValidator where
  "new_path_validator =
     \<lparr>pv_candidate = no_peer, pv_challenge = 0, pv_sent_ns = 0, pv_active = False\<rparr>"

text \<open>\<open>rnd\<close> is what \<^verbatim>\<open>secure_random_u64\<close> would answer.\<close>

definition want_probe ::
  "u64 \<Rightarrow> PeerAddr \<Rightarrow> u64 \<Rightarrow> PathValidator \<Rightarrow> u64 option \<times> PathValidator" where
  "want_probe rnd src now v =
     (let v = (if \<not> (pv_active v \<and> peer_eq (pv_candidate v) src)
               then \<lparr>pv_candidate = src, pv_challenge = rnd, pv_sent_ns = 0, pv_active = True\<rparr>
               else v)
      in if pv_sent_ns v \<noteq> 0 \<and> now - pv_sent_ns v < 50000000 then (None, v)
         else (Some (pv_challenge v), v\<lparr>pv_sent_ns := now\<rparr>))"

definition validated :: "PeerAddr \<Rightarrow> u64 \<Rightarrow> PathValidator \<Rightarrow> bool \<times> PathValidator" where
  "validated src val v =
     (if \<not> pv_active v \<or> \<not> peer_eq src (pv_candidate v) \<or> val \<noteq> pv_challenge v then (False, v)
      else (True, v\<lparr>pv_active := False\<rparr>))"

text \<open>
  How a lane uses it: traffic of the session from a source other than the peer is probed
  (\<^verbatim>\<open>probe_path\<close>), and a \<^verbatim>\<open>PathResponse\<close> that validates its source makes it the peer. The state is
  the peer, the validator and the challenges sent so far.
\<close>

datatype path_event = Traffic PeerAddr u64 u64 | Response PeerAddr u64

type_synonym path_state = "PeerAddr \<times> PathValidator \<times> (PeerAddr \<times> u64) list"

fun path_step :: "path_event \<Rightarrow> path_state \<Rightarrow> path_state" where
  "path_step (Traffic src now rnd) (peer, v, sent) =
     (if \<not> peer_eq src peer then
        case want_probe rnd src now v of
          (None, v') \<Rightarrow> (peer, v', sent)
        | (Some c, v') \<Rightarrow> (peer, v', sent @ [(src, c)])
      else (peer, v, sent))"
| "path_step (Response src val) (peer, v, sent) =
     (case validated src val v of
        (True, v') \<Rightarrow> (src, v', sent)
      | (False, v') \<Rightarrow> (peer, v', sent))"

section \<open>Statistics\<close>

record TransferStats =
  st_bytes :: u64
  st_retransmits :: u64
  st_auth_failures :: u64
  st_seconds :: rat
  st_final_block_size :: u16
  st_resumed_bytes :: u64

text \<open>The running minimum, maxima and sums of \<^verbatim>\<open>fill_stats\<close>: first, last, rtx, auth, blk.\<close>

definition stats_step ::
  "u64 \<times> u64 \<times> u64 \<times> u64 \<times> u32 \<Rightarrow> LaneResult \<Rightarrow> u64 \<times> u64 \<times> u64 \<times> u64 \<times> u32" where
  "stats_step acc l =
     (case acc of (first_ns, last_ns, rtx, auth, blk) \<Rightarrow>
        (if lr_start_ns l \<noteq> 0 then min first_ns (lr_start_ns l) else first_ns,
         max last_ns (lr_end_ns l), rtx + lr_retransmits l, auth + lr_auth_failures l,
         max blk (lr_final_block l)))"

definition fill_stats :: "LaneResult list \<Rightarrow> u64 \<Rightarrow> u64 \<Rightarrow> TransferStats" where
  "fill_stats lanes bytes resumed_bytes =
     (case foldl stats_step (-1, 0, 0, 0, 0) lanes of (first_ns, last_ns, rtx, auth, blk) \<Rightarrow>
        \<lparr>st_bytes = bytes, st_retransmits = rtx, st_auth_failures = auth,
         st_seconds = (if first_ns \<noteq> -1 \<and> last_ns > first_ns
                       then of_nat (unat (last_ns - first_ns)) / 1000000000 else 0),
         st_final_block_size = ucast blk, st_resumed_bytes = resumed_bytes\<rparr>)"

record TransferProgress =
  tp_bytes_done :: u64
  tp_bytes_total :: u64
  tp_retransmits :: u64
  tp_lanes_done :: u16
  tp_lanes_total :: u16

text \<open>
  The snapshot of \<^verbatim>\<open>wait_for_lanes\<close>. \<open>sender_total\<close> is given by a sender, \<open>receiver_total\<close> by a receiver
  (\<open>-1\<close>, that is \<^verbatim>\<open>UINT64_MAX\<close>, until known).
\<close>

definition snapshot :: "LaneResult list \<Rightarrow> u64 option \<Rightarrow> u64 option \<Rightarrow> TransferProgress" where
  "snapshot results sender_total receiver_total =
     \<lparr>tp_bytes_done = (\<Sum>r \<leftarrow> results. lr_bytes r),
      tp_bytes_total =
        (if list_all lr_started results then (\<Sum>r \<leftarrow> results. lr_expected r)
         else case sender_total of
                Some t \<Rightarrow> t
              | None \<Rightarrow> (case receiver_total of
                           Some t \<Rightarrow> if t \<noteq> -1 then t else 0
                         | None \<Rightarrow> 0)),
      tp_retransmits = (\<Sum>r \<leftarrow> results. lr_retransmits r),
      tp_lanes_done = of_nat (length (filter lr_finished results)),
      tp_lanes_total = of_nat (length results)\<rparr>"

section \<open>File identity\<close>

record file_stat =
  fst_size :: u64
  fst_mtime_sec :: u64
  fst_mtime_nsec :: u64
  fst_ctime_sec :: u64
  fst_ctime_nsec :: u64
  fst_ino :: u64
  fst_dev :: u64

text \<open>\<^verbatim>\<open>path.substr(path.find_last_of('/') + 1)\<close>: all of the path where there is no slash.\<close>

definition base_name :: "string \<Rightarrow> string" where
  "base_name path = rev (takeWhile (\<lambda>c. c \<noteq> CHR ''/'') (rev path))"

definition identity_input :: "string \<Rightarrow> file_stat \<Rightarrow> byte list" where
  "identity_input path st =
     ascii (base_name path)
     @ put_u64 (fst_size st) @ put_u64 (fst_mtime_sec st) @ put_u64 (fst_mtime_nsec st)
     @ put_u64 (fst_ctime_sec st) @ put_u64 (fst_ctime_nsec st) @ put_u64 (fst_ino st)
     @ put_u64 (fst_dev st)"

definition file_identity :: "string \<Rightarrow> file_stat \<Rightarrow> u64" where
  "file_identity path st =
     (let id = hash64 (identity_input path st) in if id \<noteq> 0 then id else 1)"

section \<open>Lemmas\<close>

subsection \<open>Statuses\<close>

lemma worst_fold:
  "severity (foldl (\<lambda>st l. if severity (lr_status l) > severity st then lr_status l else st) st lanes) =
     Max (insert (severity st) (severity ` lr_status ` set lanes))"
proof (induction lanes arbitrary: st)
  case Nil
  then show ?case by simp
next
  case (Cons l lanes)
  have "insert (severity st) (severity ` lr_status ` set (l # lanes)) =
      {severity st, severity (lr_status l)} \<union> severity ` lr_status ` set lanes" by auto
  moreover have "Max ({a, b} \<union> S) = Max (insert (max a b) S)" if "finite S" for a b :: nat and S
    using that by (cases "S = {}") (simp_all add: max.assoc)
  ultimately show ?case by (simp add: Cons.IH max_def)
qed

lemma worst_source:
  "foldl (\<lambda>st l. if severity (lr_status l) > severity st then lr_status l else st) st lanes
     \<in> insert st (lr_status ` set lanes)"
proof (induction lanes arbitrary: st)
  case (Cons l lanes)
  then show ?case using Cons.IH [of st] Cons.IH [of "lr_status l"] by auto
qed simp

lemma severity_0 [simp]: "severity s = 0 \<longleftrightarrow> s = Ok"
  by (cases s) auto

subsection \<open>Ports\<close>

text \<open>With an accepted configuration every lane's port is the sum, not a wrapped one.\<close>

lemma lane_port:
  assumes "\<not> ports_overflow cfg" "i < tc_lanes cfg"
  shows "unat (tc_base_port cfg + i) = unat (tc_base_port cfg) + unat i"
proof -
  have b: "unat (tc_base_port cfg) < 65536" "unat (tc_lanes cfg) < 65536"
    using unsigned_less [of "tc_base_port cfg", where 'a = nat]
      unsigned_less [of "tc_lanes cfg", where 'a = nat] by simp_all
  have i: "unat i < unat (tc_lanes cfg)" using assms(2) by (simp add: word_less_nat_alt)
  have sum: "unat ((ucast (tc_base_port cfg) :: u32) + ucast (tc_lanes cfg)) =
      unat (tc_base_port cfg) + unat (tc_lanes cfg)"
    using b by (simp add: unat_word_ariths unat_ucast_up)
  then have "unat ((ucast (tc_base_port cfg) :: u32) + ucast (tc_lanes cfg) - 1) =
      unat (tc_base_port cfg) + unat (tc_lanes cfg) - 1"
    using i by (subst unat_minus_one) auto
  then have "unat (tc_base_port cfg) + unat (tc_lanes cfg) - 1 \<le> 65535"
    using assms(1) by (simp add: ports_overflow_def word_less_nat_alt)
  with i b show ?thesis by (simp add: unat_word_ariths)
qed

subsection \<open>Shards\<close>

lemma concat_slices: "concat (map (\<lambda>i. take s (drop (i * s) xs)) [0..<k]) = take (k * s) xs"
proof (induction k)
  case (Suc k)
  then show ?case by (simp add: take_add [symmetric] add.commute)
qed simp

lemma slice_clamp:
  "take (min s (length xs - min (i * s) (length xs))) (drop (min (i * s) (length xs)) xs) =
     take s (drop (i * s) xs)"
  by (cases "i * s \<le> length xs") (auto simp: min_def)

lemma unat_shard_size:
  assumes "lanes \<noteq> 0" "unat len + unat lanes \<le> 2 ^ 64"
  shows "unat (shard_size lanes len) = (unat len + unat lanes - 1) div unat lanes"
proof -
  have l: "0 < unat lanes" using assms(1) by (simp add: unat_gt_0)
  have z: "(ucast lanes :: u64) \<noteq> 0"
    using l unat_ucast_up [of lanes, where 'b = 64] by (auto simp: word_unat_eq_iff)
  have "unat (len + (ucast lanes - 1)) = unat len + (unat lanes - 1)"
    using assms l by (subst unat_add_lem [THEN iffD1])
      (simp_all add: unat_minus_one [OF z] unat_ucast_up)
  then have "unat (len + ucast lanes - 1) = unat len + unat lanes - 1" using l by (simp add: algebra_simps)
  then show ?thesis using assms(1) by (simp add: shard_size_def unat_div unat_ucast_up)
qed

lemma lane_shard_nat:
  assumes "lanes \<noteq> 0" "unat len + unat lanes \<le> 2 ^ 64" "i < unat lanes"
  defines "s \<equiv> (unat len + unat lanes - 1) div unat lanes"
  shows "unat (fst (lane_shard lanes len (of_nat i))) = min (i * s) (unat len)"
    and "unat (snd (lane_shard lanes len (of_nat i))) = min s (unat len - min (i * s) (unat len))"
proof -
  have sz: "unat (shard_size lanes len) = s" using unat_shard_size [OF assms(1,2)] by (simp add: s_def)
  have i16: "i < 65536" using assms(3) unsigned_less [of lanes, where 'a = nat] by simp
  have "i * s \<le> unat lanes * s" using assms(3) by simp
  also have "\<dots> \<le> unat len + unat lanes - 1" unfolding s_def by (rule times_div_less_eq_dividend)
  also have "\<dots> < 2 ^ 64" using assms(2,3) by simp
  finally have m: "unat ((of_nat i :: u64) * shard_size lanes len) = i * s"
    using i16 by (simp add: unat_word_ariths unat_of_nat sz)
  have c: "ucast (of_nat i :: u16) = (of_nat i :: u64)"
    using i16 by (simp add: word_unat_eq_iff unat_ucast_up unat_of_nat)
  have min: "unat (min (a :: u64) b) = min (unat a) (unat b)" for a b
    by (simp add: min_def word_le_nat_alt)
  show o: "unat (fst (lane_shard lanes len (of_nat i))) = min (i * s) (unat len)"
    by (simp add: lane_shard_def Let_def c min m)
  have "unat (len - min (of_nat i * shard_size lanes len) len) = unat len - min (i * s) (unat len)"
    by (subst unat_sub) (simp_all add: min m)
  then show "unat (snd (lane_shard lanes len (of_nat i))) = min s (unat len - min (i * s) (unat len))"
    by (simp add: lane_shard_def Let_def c min sz)
qed

subsection \<open>Tokens and associated data\<close>

lemma address_token_nonzero: "address_token secret a nonce \<noteq> 0"
  by (simp add: address_token_def Let_def)

text \<open>A retransmission is sealed with the associated data of the original.\<close>

lemma build_aad_retransmission:
  "build_aad lane seq offset (flags OR kFlagRetransmission) = build_aad lane seq offset flags"
proof -
  have "(flags OR 1) AND NOT (1 :: u8) = flags AND NOT 1"
    by (rule bit_word_eqI) (auto simp: bit_simps)
  then show ?thesis by (simp add: build_aad_def)
qed

lemma build_aad_length: "length (build_aad lane seq offset flags) = 19"
  by (simp add: build_aad_def wire_len)

subsection \<open>Path validation\<close>

definition path_inv :: "path_state \<Rightarrow> bool" where
  "path_inv s = (case s of (peer, v, sent) \<Rightarrow>
     pv_active v \<longrightarrow> (pv_candidate v, pv_challenge v) \<in> set sent)"

definition path_run :: "path_event list \<Rightarrow> PeerAddr \<Rightarrow> path_state" where
  "path_run evs peer = fold path_step evs (peer, new_path_validator, [])"

lemma path_inv_step: "path_inv s \<Longrightarrow> path_inv (path_step e s)"
  by (cases e; cases s)
     (auto simp: path_inv_def want_probe_def validated_def Let_def split: if_splits)

lemma path_run_snoc: "path_run (evs @ [e]) peer = path_step e (path_run evs peer)"
  by (simp add: path_run_def)

lemma path_run_inv: "path_inv (path_run evs peer)"
proof (induction evs rule: rev_induct)
  case Nil
  show ?case by (simp add: path_run_def path_inv_def new_path_validator_def)
qed (simp add: path_run_snoc path_inv_step)

lemma path_sent_traffic:
  "(src, c) \<in> set (snd (snd (path_run evs peer))) \<Longrightarrow> \<exists>now rnd. Traffic src now rnd \<in> set evs"
proof (induction evs rule: rev_induct)
  case Nil
  then show ?case by (simp add: path_run_def)
next
  case (snoc e evs)
  obtain p v sent where r: "path_run evs peer = (p, v, sent)" by (cases "path_run evs peer") auto
  from snoc show ?case
    by (cases e) (auto simp: path_run_snoc r split: if_splits prod.splits option.splits bool.splits)
qed

lemma lane_start_fits:
  assumes "unat len + unat lanes \<le> 2 ^ 64" "i < lanes"
    and ss: "ss_stream_base_offset ss = fst (lane_shard lanes len i)"
      "ss_total_bytes ss = snd (lane_shard lanes len i)" "ss_file_total_bytes ss = len"
  shows "sizes_fit ss"
proof -
  have "lanes \<noteq> 0" "unat i < unat lanes" using assms(2) by (auto simp: word_less_nat_alt)
  note n = lane_shard_nat [OF this(1) assms(1) this(2)]
  have "min a L + min c (L - min a L) \<le> L" for a c L :: nat by linarith
  with n have sum: "unat (fst (lane_shard lanes len i)) + unat (snd (lane_shard lanes len i)) \<le> unat len"
    by (simp only: of_nat_unat ucast_id)
  then have le: "snd (lane_shard lanes len i) \<le> len" by (simp add: word_le_nat_alt)
  show ?thesis using sum le by (simp add: sizes_fit_def ss not_less word_le_nat_alt unat_sub)
qed

section \<open>Properties\<close>

text \<open>
  C40: the lanes of a transfer tile it. For any number of lanes and any length (the rounding sum
  \<^verbatim>\<open>len + lanes - 1\<close> not wrapping), the lanes' shards laid end to end are the data, and the
  offset, length and total that each lane announces pass the receiver's size check.
\<close>

theorem lanes_tile_transfer:
  assumes "lanes \<noteq> 0" "unat len + unat lanes \<le> 2 ^ 64" "length data = unat len"
  shows "concat (map (\<lambda>i. case lane_shard lanes len (of_nat i) of
             (off, n) \<Rightarrow> take (unat n) (drop (unat off) data)) [0..<unat lanes]) = data \<and>
         (\<forall>i < lanes. \<forall>ss. ss_stream_base_offset ss = fst (lane_shard lanes len i) \<longrightarrow>
            ss_total_bytes ss = snd (lane_shard lanes len i) \<longrightarrow> ss_file_total_bytes ss = len \<longrightarrow>
            sizes_fit ss)"
proof -
  define s where "s = (unat len + unat lanes - 1) div unat lanes"
  let ?cut = "\<lambda>i. case lane_shard lanes len (of_nat i) of (off, n) \<Rightarrow> take (unat n) (drop (unat off) data)"
  have pos: "0 < unat lanes" using assms(1) by (simp add: unat_gt_0)
  have le: "length data \<le> unat lanes * s"
    using pos dividend_less_div_times [OF pos, of "unat len + unat lanes - 1"] assms(3)
    by (simp add: algebra_simps s_def)
  have "?cut i = take s (drop (i * s) data)" if "i < unat lanes" for i
    unfolding split_beta lane_shard_nat [OF assms(1,2) that, folded s_def] assms(3) [symmetric]
    by (rule slice_clamp)
  then have "map ?cut [0..<unat lanes] = map (\<lambda>i. take s (drop (i * s) data)) [0..<unat lanes]"
    by (intro map_cong) auto
  then have "concat (map ?cut [0..<unat lanes]) = take (unat lanes * s) data"
    by (simp only: concat_slices)
  with le have "concat (map ?cut [0..<unat lanes]) = data" by (metis take_all)
  then show ?thesis using lane_start_fits [OF assms(2)] by blast
qed

theorem lanes_tile_transfer_witness:
  "concat (map (\<lambda>i. case lane_shard 3 5 (of_nat i) of
       (off, n) \<Rightarrow> take (unat n) (drop (unat off) [1, 2, 3, 4, 5 :: byte])) [0..<unat (3 :: u16)]) =
     [1, 2, 3, 4, 5 :: byte]"
  using lanes_tile_transfer [of 3 5 "[1, 2, 3, 4, 5 :: byte]"] by simp



text \<open>
  The status of a transfer is the most severe status of its lanes: it is the status of a lane
  (or Ok), no lane's status outranks it, and it is Ok exactly when every lane's is.
\<close>

theorem worst_is_most_severe:
  "worst lanes \<in> insert Ok (lr_status ` set lanes) \<and>
   severity (worst lanes) = Max (insert 0 (severity ` lr_status ` set lanes)) \<and>
   (worst lanes = Ok \<longleftrightarrow> lr_status ` set lanes \<subseteq> {Ok})"
proof -
  have m: "severity (worst lanes) = Max (insert 0 (severity ` lr_status ` set lanes))"
    using worst_fold [of Ok lanes] by (simp add: worst_def)
  have "worst lanes = Ok \<longleftrightarrow> Max (insert 0 (severity ` lr_status ` set lanes)) = 0"
    using m by (metis severity_0)
  also have "\<dots> \<longleftrightarrow> lr_status ` set lanes \<subseteq> {Ok}" by (auto simp: Max_eq_iff)
  finally show ?thesis using m worst_source [of Ok lanes] by (simp add: worst_def)
qed

end
