(* ===== verification/Resume.thy ===== *)
theory Resume
  imports Transfer_Common
begin

text \<open>
  Resume negotiation (\<^verbatim>\<open>src/src/proto/transfer.cpp\<close>). The receiver lists the byte ranges of a lane it
  still needs, merges the closest ones until the list fits its bound (\<open>coarsen_ranges\<close>) and sends
  it in parts (\<open>encode_resume_answer\<close>); the sender collects the parts (\<open>collect_part\<close>) and turns
  them into the ranges it will send (\<open>session_plan\<close>).

  A list of ranges is \<open>ranges_ok lo hi\<close> when it is ordered, without overlap or empty ranges, and
  inside \<open>[lo, hi)\<close>; \<open>bytes_of\<close> is the set of positions it covers.
\<close>

definition kMaxResumeRanges :: nat where [simp]: "kMaxResumeRanges = 4096"

section \<open>The receiver's list\<close>

text \<open>The first loop of a round: the smallest gap between neighbours.\<close>

fun min_gap :: "u64 \<Rightarrow> ResumeRange list \<Rightarrow> u64" where
  "min_gap g (a # b # rs) = min_gap (min g (fst b - (fst a + snd a))) (b # rs)"
| "min_gap g rs = g"

text \<open>The second: a range at most \<open>merge_below\<close> behind the last one is merged into it.\<close>

fun merge_pass :: "u64 \<Rightarrow> ResumeRange \<Rightarrow> ResumeRange list \<Rightarrow> ResumeRange list" where
  "merge_pass merge_below prev [] = [prev]"
| "merge_pass merge_below prev (cur # rs) =
     (if fst cur - (fst prev + snd prev) \<le> merge_below
      then merge_pass merge_below (fst prev, fst cur + snd cur - fst prev) rs
      else prev # merge_pass merge_below cur rs)"

definition coarsen_round :: "ResumeRange list \<Rightarrow> ResumeRange list" where
  "coarsen_round r = (case r of [] \<Rightarrow> [] | a # rs \<Rightarrow> merge_pass (min_gap (-1) r * 2 + 1) a rs)"

partial_function (option) coarsen_ranges :: "nat \<Rightarrow> ResumeRange list \<Rightarrow> ResumeRange list option" where
  "coarsen_ranges limit r =
     (if length r > limit then coarsen_ranges limit (coarsen_round r) else Some r)"

declare coarsen_ranges.simps [code]

declare coarsen_ranges.simps [code]

text \<open>From the sink's missing ranges to the list on the wire, and the bytes it asks for.\<close>

definition wanted_ranges :: "u64 \<Rightarrow> ResumeRange list \<Rightarrow> (ResumeRange list \<times> u64) option" where
  "wanted_ranges lane_base missing =
     do {
       want \<leftarrow> coarsen_ranges kMaxResumeRanges (map (\<lambda>r. (fst r - lane_base, snd r)) missing);
       Some (want, \<Sum>r \<leftarrow> want. snd r)
     }"

definition answer_parts :: "nat \<Rightarrow> nat" where
  "answer_parts n = max 1 ((n + kMaxResumeRangesPerMsg - 1) div kMaxResumeRangesPerMsg)"

definition answer_part :: "u16 \<Rightarrow> u64 \<Rightarrow> bool \<Rightarrow> ResumeRange list \<Rightarrow> nat \<Rightarrow> ResumeRanges" where
  "answer_part lane nonce resumed want part =
     (let first_range = part * kMaxResumeRangesPerMsg;
          count = min kMaxResumeRangesPerMsg (length want - min first_range (length want))
      in \<lparr>rr_stream_id = lane, rr_nonce = nonce,
          rr_flags = (if resumed then kResumeFlagResumed else 0),
          rr_part = of_nat part, rr_parts = of_nat (answer_parts (length want)),
          rr_count = of_nat count,
          rr_ranges = pad kMaxResumeRangesPerMsg (0, 0) (take count (drop first_range want))\<rparr>)"

text \<open>A part that could not be encoded or signed stays an empty buffer.\<close>

fun encode_parts ::
  "Crypto \<Rightarrow> ResumeRanges list \<Rightarrow> ControlAuth option \<Rightarrow> byte list list \<times> ControlAuth option" where
  "encode_parts cr [] auth = ([], auth)"
| "encode_parts cr (rr # rrs) auth =
     (let (dg, auth) = seal_ctl cr auth (encode_resume_ranges rr 2048) 2048;
          (dgs, auth) = encode_parts cr rrs auth
      in (case_option [] id dg # dgs, auth))"

definition encode_resume_answer ::
  "Crypto \<Rightarrow> u16 \<Rightarrow> u64 \<Rightarrow> bool \<Rightarrow> ResumeRange list \<Rightarrow> ControlAuth option \<Rightarrow> byte list list \<times> ControlAuth option" where
  "encode_resume_answer cr lane nonce resumed want auth =
     encode_parts cr (map (answer_part lane nonce resumed want) [0..<answer_parts (length want)]) auth"

section \<open>The sender's plan\<close>

record resume_answer =
  ra_parts_expected :: u16
  ra_parts_seen :: u16
  ra_answer :: "ResumeRange list list"
  ra_have_part :: "bool list"
  ra_resumed :: bool

definition no_answer :: resume_answer where
  "no_answer = \<lparr>ra_parts_expected = 0, ra_parts_seen = 0, ra_answer = [], ra_have_part = [], ra_resumed = False\<rparr>"

definition collect_part :: "ResumeRanges \<Rightarrow> resume_answer \<Rightarrow> resume_answer" where
  "collect_part rr s =
     (let s = (if ra_parts_expected s = 0
               then s\<lparr>ra_parts_expected := rr_parts rr,
                      ra_answer := replicate (unat (rr_parts rr)) [],
                      ra_have_part := replicate (unat (rr_parts rr)) False\<rparr>
               else s)
      in if rr_parts rr = ra_parts_expected s \<and> \<not> ra_have_part s ! unat (rr_part rr)
         then s\<lparr>ra_answer := (ra_answer s)[unat (rr_part rr) := take (unat (rr_count rr)) (rr_ranges rr)],
                ra_have_part := (ra_have_part s)[unat (rr_part rr) := True],
                ra_parts_seen := ra_parts_seen s + 1,
                ra_resumed := ra_resumed s \<or> rr_flags rr AND kResumeFlagResumed \<noteq> 0\<rparr>
         else s)"

definition on_resume_ranges :: "u64 \<Rightarrow> byte list \<Rightarrow> resume_answer \<Rightarrow> resume_answer" where
  "on_resume_ranges nonce dg s =
     (case decode_resume_ranges dg of
        accept rr \<Rightarrow> if rr_nonce rr = nonce then collect_part rr s else s
      | _ \<Rightarrow> s)"

definition answer_complete :: "resume_answer \<Rightarrow> bool" where
  "answer_complete s \<longleftrightarrow> ra_parts_expected s \<noteq> 0 \<and> ra_parts_seen s = ra_parts_expected s"

text \<open>
  The validation loop: \<^term>\<open>None\<close> when a range overlaps its predecessor or leaves the shard, else
  the bytes of the session. \<^verbatim>\<open>std::sort\<close> by offset may order equal offsets either way; two
  non-empty ranges at one offset overlap, so the plan does not depend on it.
\<close>

fun check_ranges :: "u64 \<Rightarrow> u64 \<Rightarrow> ResumeRange list \<Rightarrow> u64 \<Rightarrow> u64 option" where
  "check_ranges shard prev_end [] bytes = Some bytes"
| "check_ranges shard prev_end (r # rs) bytes =
     (if fst r < prev_end \<or> fst r > shard \<or> snd r > shard - fst r then None
      else check_ranges shard (fst r + snd r) rs (bytes + snd r))"

definition session_plan :: "u64 \<Rightarrow> ResumeRange list list \<Rightarrow> ResumeRange list \<times> u64" where
  "session_plan shard answer =
     (let ranges = sort_key fst (filter (\<lambda>r. snd r \<noteq> 0) (concat answer)) in
      case check_ranges shard 0 ranges 0 of
        Some bytes \<Rightarrow> (ranges, bytes)
      | None \<Rightarrow> (if shard > 0 then [(0, shard)] else [], shard))"

section \<open>Ordered ranges\<close>

fun ranges_ok :: "nat \<Rightarrow> nat \<Rightarrow> ResumeRange list \<Rightarrow> bool" where
  "ranges_ok lo hi [] \<longleftrightarrow> lo \<le> hi"
| "ranges_ok lo hi (r # rs) \<longleftrightarrow>
     lo \<le> unat (fst r) \<and> 0 < unat (snd r) \<and> ranges_ok (unat (fst r) + unat (snd r)) hi rs"

definition bytes_of :: "ResumeRange list \<Rightarrow> nat set" where
  "bytes_of rs = (\<Union>r \<in> set rs. {unat (fst r)..<unat (fst r) + unat (snd r)})"

definition range_sum :: "ResumeRange list \<Rightarrow> nat" where
  "range_sum rs = (\<Sum>r \<leftarrow> rs. unat (snd r))"

lemma bytes_of_simps [simp]:
  "bytes_of [] = {}"
  "bytes_of (r # rs) = {unat (fst r)..<unat (fst r) + unat (snd r)} \<union> bytes_of rs"
  by (simp_all add: bytes_of_def)

lemma range_sum_simps [simp]: "range_sum [] = 0" "range_sum (r # rs) = unat (snd r) + range_sum rs"
  by (simp_all add: range_sum_def)

lemma ranges_ok_le: "ranges_ok lo hi rs \<Longrightarrow> lo + range_sum rs \<le> hi"
  by (induction rs arbitrary: lo) fastforce+

lemma ranges_ok_mono: "ranges_ok lo hi rs \<Longrightarrow> lo' \<le> lo \<Longrightarrow> ranges_ok lo' hi rs"
  by (cases rs) auto

lemma ranges_ok_bytes: "ranges_ok lo hi rs \<Longrightarrow> bytes_of rs \<subseteq> {lo..<hi}"
proof (induction rs arbitrary: lo)
  case (Cons r rs)
  then have "bytes_of rs \<subseteq> {unat (fst r) + unat (snd r)..<hi}" "unat (fst r) + unat (snd r) \<le> hi"
    using ranges_ok_le [of "unat (fst r) + unat (snd r)" hi rs] by auto
  with Cons.prems show ?case by fastforce
qed simp

lemma card_bytes_of: "ranges_ok lo hi rs \<Longrightarrow> card (bytes_of rs) = range_sum rs"
proof (induction rs arbitrary: lo)
  case (Cons r rs)
  then have sub: "bytes_of rs \<subseteq> {unat (fst r) + unat (snd r)..<hi}" and c: "card (bytes_of rs) = range_sum rs"
    using ranges_ok_bytes by auto
  then have "finite (bytes_of rs)" "{unat (fst r)..<unat (fst r) + unat (snd r)} \<inter> bytes_of rs = {}"
    by (auto intro: finite_subset)
  with c show ?case by (simp add: card_Un_disjoint)
qed simp

lemma word_range_sum: "(\<Sum>r \<leftarrow> rs. snd r) = of_nat (range_sum rs)"
  by (induction rs) simp_all

section \<open>Coarsening\<close>

fun has_gap :: "u64 \<Rightarrow> ResumeRange \<Rightarrow> ResumeRange list \<Rightarrow> bool" where
  "has_gap m p [] \<longleftrightarrow> False"
| "has_gap m p (c # rs) \<longleftrightarrow> fst c - (fst p + snd p) \<le> m \<or> has_gap m c rs"

lemma has_gap_end: "fst p + snd p = fst q + snd q \<Longrightarrow> has_gap m p rs = has_gap m q rs"
  by (cases rs) simp_all

lemma merge_pass_length: "length (merge_pass m p rs) \<le> Suc (length rs)"
  by (induction m p rs rule: merge_pass.induct) auto

lemma merge_pass_shrinks: "has_gap m p rs \<Longrightarrow> length (merge_pass m p rs) \<le> length rs"
proof (induction m p rs rule: merge_pass.induct)
  case (2 m p c rs)
  then show ?case using merge_pass_length [of m "(fst p, fst c + snd c - fst p)" rs] by auto
qed simp

lemma min_gap_le: "min_gap g rs \<le> g"
  by (induction g rs rule: min_gap.induct) (auto intro: order_trans)

lemma min_gap_first: "min_gap g (p # c # rs) \<le> fst c - (fst p + snd p)"
  using min_gap_le [of "min g (fst c - (fst p + snd p))" "c # rs"] by simp

lemma has_gap_min: "min_gap g (p # rs) \<le> m \<Longrightarrow> g \<le> m \<or> has_gap m p rs"
proof (induction rs arbitrary: g p)
  case (Cons c rs)
  from Cons.IH [of "min g (fst c - (fst p + snd p))" c] Cons.prems show ?case
    by (auto simp: min_le_iff_disj)
qed simp

text \<open>On ordered ranges the 64-bit arithmetic is exact.\<close>

lemma range_end: "ranges_ok lo hi (p # rs) \<Longrightarrow> hi < 2 ^ 64 \<Longrightarrow>
    unat (fst p + snd p) = unat (fst p) + unat (snd p)"
  using ranges_ok_le [of "unat (fst p) + unat (snd p)" hi rs] by (simp add: unat_word_ariths)

lemma range_gap:
  assumes "ranges_ok lo hi (p # c # rs)" "hi < 2 ^ 64"
  shows "unat (fst c - (fst p + snd p)) = unat (fst c) - (unat (fst p) + unat (snd p))"
proof -
  have "fst p + snd p \<le> fst c"
    using range_end [OF assms] assms(1) by (simp add: word_le_nat_alt)
  then show ?thesis using range_end [OF assms] by (simp add: unat_sub)
qed

lemma range_merge:
  assumes "ranges_ok lo hi (p # c # rs)" "hi < 2 ^ 64"
  shows "unat (fst c + snd c - fst p) = unat (fst c) + unat (snd c) - unat (fst p)"
proof -
  have e: "unat (fst c + snd c) = unat (fst c) + unat (snd c)"
    using range_end [of _ hi c rs] assms by auto
  have "fst p \<le> fst c + snd c" using e assms(1) by (simp add: word_le_nat_alt)
  then show ?thesis using e by (simp add: unat_sub)
qed

lemma merge_pass_ok:
  "ranges_ok lo hi (p # rs) \<Longrightarrow> hi < 2 ^ 64 \<Longrightarrow>
     ranges_ok lo hi (merge_pass m p rs) \<and> bytes_of (p # rs) \<subseteq> bytes_of (merge_pass m p rs)"
proof (induction m p rs arbitrary: lo rule: merge_pass.induct)
  case (2 m p c rs)
  note ok = "2.prems"
  let ?q = "(fst p, fst c + snd c - fst p)"
  have l: "unat (snd ?q) = unat (fst c) + unat (snd c) - unat (fst p)"
    unfolding snd_conv by (rule range_merge [OF ok])
  have o: "lo \<le> unat (fst p)" "0 < unat (snd p)" "unat (fst p) + unat (snd p) \<le> unat (fst c)"
    "0 < unat (snd c)" "ranges_ok (unat (fst c) + unat (snd c)) hi rs" using ok(1) by simp_all
  then have q: "ranges_ok lo hi (?q # rs)"
    unfolding ranges_ok.simps l fst_conv by simp
  have cov: "bytes_of (p # c # rs) \<subseteq> bytes_of (?q # rs)"
    unfolding bytes_of_simps l fst_conv using o(1-4) by auto
  show ?case
  proof (cases "fst c - (fst p + snd p) \<le> m")
    case True
    with "2.IH"(1) [OF True q ok(2)] cov show ?thesis by (simp only: merge_pass.simps if_True) blast
  next
    case False
    have "ranges_ok (unat (fst p) + unat (snd p)) hi (c # rs)" using ok(1) by simp
    from "2.IH"(2) [OF False this ok(2)] have
      "ranges_ok lo hi (p # merge_pass m c rs)" "bytes_of (c # rs) \<subseteq> bytes_of (merge_pass m c rs)"
      using o(1,2) by simp_all
    then show ?thesis using False by (simp only: merge_pass.simps if_False bytes_of_simps) blast
  qed
qed simp_all

lemma coarsen_round_shrinks:
  assumes "ranges_ok lo hi rs" "hi < 2 ^ 63" "2 \<le> length rs"
  shows "length (coarsen_round rs) < length rs"
proof -
  obtain p c rest where rs: "rs = p # c # rest" using assms(3) by (auto simp: numeral_2_eq_2 Suc_le_length_iff)
  let ?g = "min_gap (-1) rs"
  have "unat ?g \<le> unat (fst c - (fst p + snd p))"
    using min_gap_first [of "-1" p c rest] by (simp add: rs word_le_nat_alt)
  also have "\<dots> \<le> unat (fst c)" using range_gap [of lo hi p c rest] assms by (simp add: rs)
  also have "\<dots> < 2 ^ 63" using ranges_ok_le [of "unat (fst c) + unat (snd c)" hi rest] assms by (simp add: rs)
  finally have "unat (?g * 2 + 1) = unat ?g * 2 + 1" by (simp add: unat_word_ariths)
  then have "?g \<le> ?g * 2 + 1" unfolding word_le_nat_alt by simp
  then have "-1 \<le> ?g * 2 + 1 \<or> has_gap (?g * 2 + 1) p (c # rest)"
    unfolding rs by (rule has_gap_min)
  moreover have "has_gap m p (c # rest)" if "-1 \<le> m" for m
    unfolding has_gap.simps(2) by (rule disjI1) (rule order_trans [OF word_n1_ge that])
  ultimately have "has_gap (?g * 2 + 1) p (c # rest)" by blast
  from merge_pass_shrinks [OF this] show ?thesis by (simp add: coarsen_round_def rs)
qed

lemma coarsen_round_ok:
  "ranges_ok lo hi rs \<Longrightarrow> hi < 2 ^ 64 \<Longrightarrow>
     ranges_ok lo hi (coarsen_round rs) \<and> bytes_of rs \<subseteq> bytes_of (coarsen_round rs)"
  by (cases rs) (simp_all only: coarsen_round_def list.case merge_pass_ok, simp_all)

lemma coarsen_ranges_returns:
  assumes "ranges_ok lo hi rs" "hi < 2 ^ 63" "1 \<le> limit"
  shows "\<exists>rs'. coarsen_ranges limit rs = Some rs' \<and> length rs' \<le> limit \<and>
           ranges_ok lo hi rs' \<and> bytes_of rs \<subseteq> bytes_of rs'"
  using assms(1)
proof (induction rs rule: length_induct)
  case (1 rs)
  show ?case
  proof (cases "length rs > limit")
    case True
    then have "length (coarsen_round rs) < length rs"
      using coarsen_round_shrinks [OF 1(2) assms(2)] assms(3) by simp
    moreover note coarsen_round_ok [OF 1(2)]
    ultimately show ?thesis
      using 1(1) True assms(2) by (subst coarsen_ranges.simps) (simp, blast)
  next
    case False
    then show ?thesis using 1(2) by (subst coarsen_ranges.simps) simp
  qed
qed

section \<open>The plan is always inside the shard\<close>

lemma check_ranges_iff:
  "unat prev \<le> unat shard \<Longrightarrow> \<forall>r \<in> set rs. snd r \<noteq> 0 \<Longrightarrow>
     check_ranges shard prev rs b =
       (if ranges_ok (unat prev) (unat shard) rs then Some (b + of_nat (range_sum rs)) else None)"
proof (induction rs arbitrary: prev b)
  case (Cons r rs)
  have pos: "0 < unat (snd r)" using Cons.prems(2) by (simp add: unat_gt_0)
  show ?case
  proof (cases "fst r < prev \<or> fst r > shard \<or> snd r > shard - fst r")
    case True
    then have "\<not> ranges_ok (unat prev) (unat shard) (r # rs)"
      using ranges_ok_le [of "unat (fst r) + unat (snd r)" "unat shard" rs]
      by (auto simp: word_less_nat_alt unat_sub word_le_nat_alt not_less)
    then show ?thesis using True by (simp only: check_ranges.simps if_True if_False)
  next
    case False
    then have le: "prev \<le> fst r" "fst r \<le> shard" "snd r \<le> shard - fst r" by auto
    then have s: "unat (fst r) + unat (snd r) \<le> unat shard"
      by (auto simp: word_le_nat_alt unat_sub)
    then have e: "unat (fst r + snd r) = unat (fst r) + unat (snd r)"
      using unat_u64_less [of shard] by (simp add: unat_word_ariths)
    have "check_ranges shard (fst r + snd r) rs (b + snd r) =
        (if ranges_ok (unat (fst r) + unat (snd r)) (unat shard) rs
         then Some (b + snd r + of_nat (range_sum rs)) else None)"
      using Cons.IH [of "fst r + snd r" "b + snd r"] s e Cons.prems(2) by simp
    then show ?thesis
      using False le pos by (simp add: word_le_nat_alt add.assoc)
  qed
qed simp

lemma ranges_ok_nonzero: "ranges_ok lo hi rs \<Longrightarrow> r \<in> set rs \<Longrightarrow> snd r \<noteq> 0"
  by (induction rs arbitrary: lo) auto

lemma ranges_ok_sorted: "ranges_ok lo hi rs \<Longrightarrow> sorted (map fst rs)"
proof (induction rs arbitrary: lo)
  case (Cons r rs)
  have "fst r \<le> fst q" if "q \<in> set rs" for q
  proof -
    have "unat (fst q) \<in> bytes_of rs"
      using that ranges_ok_nonzero [of _ hi rs q] Cons.prems
      by (auto simp: bytes_of_def unat_gt_0 intro!: bexI [of _ q])
    then show ?thesis
      using ranges_ok_bytes [of "unat (fst r) + unat (snd r)" hi rs] Cons.prems
      by (auto simp: word_le_nat_alt)
  qed
  with Cons show ?case by auto
qed simp

lemma range_sum_word:
  "ranges_ok 0 (unat (shard :: u64)) rs \<Longrightarrow> unat (of_nat (range_sum rs) :: u64) = range_sum rs"
  using ranges_ok_le [of 0 "unat shard" rs] unat_u64_less [of shard]
  by (simp add: unat_of_nat)

lemma session_plan_ok:
  assumes "session_plan shard answer = (rs, n)"
  shows "ranges_ok 0 (unat shard) rs \<and> unat n = range_sum rs"
proof -
  let ?rs = "sort_key fst (filter (\<lambda>r. snd r \<noteq> 0) (concat answer))"
  have c: "check_ranges shard 0 ?rs 0 =
      (if ranges_ok 0 (unat shard) ?rs then Some (of_nat (range_sum ?rs)) else None)"
    using check_ranges_iff [of 0 shard ?rs 0] by simp
  show ?thesis
  proof (cases "ranges_ok 0 (unat shard) ?rs")
    case True
    then have "rs = ?rs" "n = of_nat (range_sum ?rs)" using assms c by (auto simp: session_plan_def Let_def)
    with True range_sum_word show ?thesis by simp
  next
    case False
    then have "rs = (if shard > 0 then [(0, shard)] else [])" "n = shard"
      using assms c by (auto simp: session_plan_def Let_def)
    then show ?thesis by (auto simp: unat_gt_0 word_gt_0)
  qed
qed

lemma session_plan_exact:
  assumes "ranges_ok 0 (unat shard) want" "concat answer = want"
  shows "session_plan shard answer = (want, of_nat (range_sum want))"
proof -
  have "filter (\<lambda>r. snd r \<noteq> 0) want = want"
    using ranges_ok_nonzero [OF assms(1)] by (simp add: filter_id_conv)
  then have "sort_key fst (filter (\<lambda>r. snd r \<noteq> 0) (concat answer)) = want"
    using ranges_ok_sorted [OF assms(1)] assms(2) by (simp add: sort_key_id_if_sorted)
  moreover have "check_ranges shard 0 want 0 = Some (of_nat (range_sum want))"
    using check_ranges_iff [of 0 shard want 0] assms(1) ranges_ok_nonzero [OF assms(1)] by auto
  ultimately show ?thesis by (simp add: session_plan_def)
qed

section \<open>Parts\<close>

definition part_ranges :: "ResumeRange list \<Rightarrow> nat \<Rightarrow> ResumeRange list" where
  "part_ranges want k = take 64 (drop (k * 64) want)"

lemma answer_parts_bound: "n \<le> kMaxResumeRanges \<Longrightarrow> answer_parts n \<le> 64 \<and> 0 < answer_parts n"
  by (auto simp: answer_parts_def)

lemma parts_cover: "concat (map (part_ranges want) [0..<answer_parts (length want)]) = want"
proof -
  have "length want \<le> answer_parts (length want) * 64" by (auto simp: answer_parts_def)
  then show ?thesis
    using concat_slices [of 64 want "answer_parts (length want)"]
    by (simp add: part_ranges_def [abs_def])
qed

lemma answer_part_fields:
  assumes "length want \<le> kMaxResumeRanges" "k < answer_parts (length want)"
    and rr_def: "rr = answer_part lane nonce resumed want k"
  shows "unat (rr_part rr) = k" "rr_parts rr = of_nat (answer_parts (length want))"
    "unat (rr_parts rr) = answer_parts (length want)"
    "take (unat (rr_count rr)) (rr_ranges rr) = part_ranges want k"
    "rr_nonce rr = nonce" "wf_resume_ranges rr" "(rr_flags rr AND 1 \<noteq> 0) = resumed"
proof -
  let ?n = "min 64 (length want - min (k * 64) (length want))"
  note p = answer_parts_bound [OF assms(1)]
  have c: "unat (rr_count rr) = ?n"
    by (simp add: rr_def answer_part_def Let_def unat_of_nat)
  have t: "take ?n (drop (k * 64) want) = part_ranges want k"
    by (auto simp: part_ranges_def min_def)
  have l: "length (part_ranges want k) = ?n" by (auto simp: part_ranges_def min_def)
  have r: "rr_ranges rr = pad 64 (0, 0) (part_ranges want k)"
    by (simp add: rr_def answer_part_def Let_def t)
  show u: "unat (rr_part rr) = k" "unat (rr_parts rr) = answer_parts (length want)"
    using assms(2) p by (simp_all add: rr_def answer_part_def Let_def unat_of_nat)
  show "rr_parts rr = of_nat (answer_parts (length want))" "rr_nonce rr = nonce"
    "(rr_flags rr AND 1 \<noteq> 0) = resumed"
    by (simp_all add: rr_def answer_part_def Let_def)
  show "take (unat (rr_count rr)) (rr_ranges rr) = part_ranges want k"
    using c r l by simp
  show "wf_resume_ranges rr"
    using c r l u assms(2) by (simp add: wf_resume_ranges_def pad_def word_less_nat_alt)
qed

text \<open>The sender's state once it has seen exactly the parts in \<open>S\<close>.\<close>

definition seen_parts :: "ResumeRange list \<Rightarrow> bool \<Rightarrow> nat set \<Rightarrow> resume_answer" where
  "seen_parts want resumed S =
     (let P = answer_parts (length want) in
      \<lparr>ra_parts_expected = of_nat P, ra_parts_seen = of_nat (card S),
       ra_answer = map (\<lambda>i. if i \<in> S then part_ranges want i else []) [0..<P],
       ra_have_part = map (\<lambda>i. i \<in> S) [0..<P], ra_resumed = (S \<noteq> {} \<and> resumed)\<rparr>)"

lemma map_upt_update:
  "k < n \<Longrightarrow> (map f [0..<n])[k := v] = map (f(k := v)) [0..<n]"
  by (rule nth_equalityI) (auto simp: nth_list_update)

lemma collect_next:
  assumes "length want \<le> kMaxResumeRanges" "k < answer_parts (length want)" "finite S"
  shows "collect_part (answer_part lane nonce resumed want k) (seen_parts want resumed S) =
           seen_parts want resumed (insert k S)"
proof -
  note f = answer_part_fields [OF assms(1,2) refl, where lane = lane and nonce = nonce and resumed = resumed]
  have z: "of_nat (answer_parts (length want)) \<noteq> (0 :: u16)"
    using answer_parts_bound [OF assms(1)] by (simp add: word_unat_eq_iff unat_of_nat)
  have "(\<lambda>i. if i \<in> S then part_ranges want i else [])(k := part_ranges want k) =
      (\<lambda>i. if i \<in> insert k S then part_ranges want i else [])"
    "(\<lambda>i. i \<in> S)(k := True) = (\<lambda>i. i \<in> insert k S)" by (auto simp: fun_eq_iff)
  with assms(2,3) show ?thesis
    by (simp add: collect_part_def seen_parts_def Let_def f z map_upt_update insert_absorb
        del: fun_upd_apply) auto
qed

lemma collect_first:
  assumes "length want \<le> kMaxResumeRanges" "k < answer_parts (length want)"
  shows "collect_part (answer_part lane nonce resumed want k) no_answer = seen_parts want resumed {k}"
proof -
  note f = answer_part_fields [OF assms refl, where lane = lane and nonce = nonce and resumed = resumed]
  have "collect_part (answer_part lane nonce resumed want k) no_answer =
      collect_part (answer_part lane nonce resumed want k) (seen_parts want resumed {})"
    using answer_parts_bound [OF assms(1)]
    by (simp add: collect_part_def seen_parts_def no_answer_def Let_def f map_replicate_trivial
        word_unat_eq_iff unat_of_nat)
  also have "\<dots> = seen_parts want resumed {k}" using collect_next [OF assms, of "{}"] by simp
  finally show ?thesis .
qed

text \<open>What a datagram of the answer means to the sender, with or without a control trailer.\<close>

definition carries :: "ResumeRanges \<Rightarrow> byte list \<Rightarrow> bool" where
  "carries rr m \<longleftrightarrow> (\<exists>e t. encode_resume_ranges rr 2048 = Some e \<and> m = e @ t)"

lemma seal_ctl_extends:
  "seal_ctl cr auth (Some e) cap = (Some m, auth') \<Longrightarrow> \<exists>t. m = e @ t"
  by (auto simp: seal_ctl_def control_seal_def Let_def split: option.splits prod.splits if_splits)

lemma encode_parts_carry:
  "encode_parts cr rrs auth = (ms, auth') \<Longrightarrow> [] \<notin> set ms \<Longrightarrow> list_all2 carries rrs ms"
proof (induction rrs arbitrary: auth ms auth')
  case (Cons rr rrs)
  obtain dg a1 where s: "seal_ctl cr auth (encode_resume_ranges rr 2048) 2048 = (dg, a1)" by force
  obtain ds a2 where r: "encode_parts cr rrs a1 = (ds, a2)" by force
  have ms: "ms = case_option [] id dg # ds" using Cons.prems(1) by (simp add: s r)
  then obtain m where dg: "dg = Some m" using Cons.prems(2) by (cases dg) auto
  moreover obtain e where e: "encode_resume_ranges rr 2048 = Some e"
    using s dg by (cases "encode_resume_ranges rr 2048") (auto simp: seal_ctl_def)
  ultimately have "carries rr m" using seal_ctl_extends [of cr auth e 2048 m a1] s by (auto simp: carries_def)
  with Cons.IH [OF r] Cons.prems(2) ms dg show ?case by simp
qed simp

lemma carried_decodes:
  assumes "length want \<le> kMaxResumeRanges" "k < answer_parts (length want)"
    "carries (answer_part lane nonce resumed want k) m"
  shows "decode_resume_ranges m = accept (answer_part lane nonce resumed want k)"
proof -
  from assms(3) obtain e t where "encode_resume_ranges (answer_part lane nonce resumed want k) 2048 = Some e"
    "m = e @ t" by (auto simp: carries_def)
  then show ?thesis
    using resume_ranges_codec.dec_enc_rest answer_part_fields(6) [OF assms(1,2) refl] by blast
qed

lemma on_carried:
  assumes "length want \<le> kMaxResumeRanges" "k < answer_parts (length want)"
    "carries (answer_part lane nonce resumed want k) m"
  shows "on_resume_ranges nonce m s = collect_part (answer_part lane nonce resumed want k) s"
  using answer_part_fields(5) [OF assms(1,2) refl]
  by (simp add: on_resume_ranges_def carried_decodes [OF assms])

lemma collect_all:
  assumes "length want \<le> kMaxResumeRanges"
    "\<forall>d \<in> set ds. \<exists>k < answer_parts (length want). carries (answer_part lane nonce resumed want k) d"
    "ds \<noteq> []"
  shows "\<exists>S. fold (on_resume_ranges nonce) ds no_answer = seen_parts want resumed S \<and> S \<noteq> {} \<and>
           S \<subseteq> {..<answer_parts (length want)} \<and>
           (\<forall>d \<in> set ds. \<exists>k \<in> S. carries (answer_part lane nonce resumed want k) d)"
  using assms(2,3)
proof (induction ds rule: rev_induct)
  case (snoc d ds)
  from snoc.prems obtain k where k: "k < answer_parts (length want)"
    "carries (answer_part lane nonce resumed want k) d" by auto
  note step = on_carried [OF assms(1) k]
  show ?case
  proof (cases "ds = []")
    case True
    then show ?thesis
      using step k collect_first [OF assms(1) k(1)] by (auto intro!: exI [of _ "{k}"])
  next
    case False
    with snoc obtain S where S: "fold (on_resume_ranges nonce) ds no_answer = seen_parts want resumed S"
      "S \<subseteq> {..<answer_parts (length want)}"
      "\<forall>d \<in> set ds. \<exists>k \<in> S. carries (answer_part lane nonce resumed want k) d" by auto
    have "finite S" using S(2) by (rule finite_subset) simp
    with S step k collect_next [OF assms(1) k(1), of S] show ?thesis
      by (intro exI [of _ "insert k S"]) auto
  qed
qed simp

lemma carries_inj:
  assumes "length want \<le> kMaxResumeRanges" "k < answer_parts (length want)" "k' < answer_parts (length want)"
    "carries (answer_part lane nonce resumed want k) d" "carries (answer_part lane nonce resumed want k') d"
  shows "k = k'"
proof -
  have "answer_part lane nonce resumed want k = answer_part lane nonce resumed want k'"
    using carried_decodes [OF assms(1,2,4)] carried_decodes [OF assms(1,3,5)] by simp
  then show ?thesis using answer_part_fields(1) [OF assms(1) _ refl] assms(2,3) by metis
qed

lemma all_parts_complete:
  assumes "length want \<le> kMaxResumeRanges"
  defines "P \<equiv> answer_parts (length want)"
  shows "answer_complete (seen_parts want resumed {..<P})" "ra_resumed (seen_parts want resumed {..<P}) = resumed"
    "concat (ra_answer (seen_parts want resumed {..<P})) = want"
proof -
  have "0 < P" "P \<le> 64" using answer_parts_bound [OF assms(1)] by (simp_all add: P_def)
  then show "answer_complete (seen_parts want resumed {..<P})"
    "ra_resumed (seen_parts want resumed {..<P}) = resumed"
    by (auto simp: answer_complete_def seen_parts_def Let_def P_def word_unat_eq_iff unat_of_nat lessThan_empty_iff)
  have "map (\<lambda>i. if i \<in> {..<P} then part_ranges want i else []) [0..<P] = map (part_ranges want) [0..<P]"
    by (intro map_cong) auto
  then show "concat (ra_answer (seen_parts want resumed {..<P})) = want"
    using parts_cover [of want] unfolding seen_parts_def Let_def P_def resume_answer.simps by (simp only:)
qed

lemma answer_delivered:
  assumes "length want \<le> kMaxResumeRanges"
    "encode_resume_answer cr lane nonce resumed want auth = (msgs, auth')" "[] \<notin> set msgs"
    "set ds = set msgs"
  shows "fold (on_resume_ranges nonce) ds no_answer = seen_parts want resumed {..<answer_parts (length want)}"
proof -
  let ?P = "answer_parts (length want)" and ?part = "answer_part lane nonce resumed want"
  have all: "list_all2 carries (map ?part [0..<?P]) msgs"
    using encode_parts_carry assms(2,3) by (simp add: encode_resume_answer_def)
  then have len: "length msgs = ?P" and at: "k < ?P \<Longrightarrow> carries (?part k) (msgs ! k)" for k
    by (auto simp: list_all2_conv_all_nth)
  have "\<forall>d \<in> set ds. \<exists>k < ?P. carries (?part k) d"
    using at len assms(4) by (metis in_set_conv_nth)
  moreover have "ds \<noteq> []" using len answer_parts_bound [OF assms(1)] assms(4) by auto
  ultimately obtain S where S: "fold (on_resume_ranges nonce) ds no_answer = seen_parts want resumed S"
    "S \<subseteq> {..<?P}" "\<forall>d \<in> set ds. \<exists>k \<in> S. carries (?part k) d"
    using collect_all [OF assms(1), of ds lane nonce resumed] by auto
  have "k \<in> S" if "k < ?P" for k
  proof -
    have "msgs ! k \<in> set ds" using that len assms(4) by simp
    then obtain j where "j \<in> S" "carries (?part j) (msgs ! k)" using S(3) by blast
    then show ?thesis using carries_inj [OF assms(1) that _ at [OF that]] S(2) by blast
  qed
  then have "S = {..<?P}" using S(2) by auto
  with S(1) show ?thesis by simp
qed

text \<open>The list on the wire is relative to the lane.\<close>

lemma relative_ranges:
  "ranges_ok lo hi miss \<Longrightarrow> unat base \<le> lo \<Longrightarrow>
     ranges_ok (lo - unat base) (hi - unat base) (map (\<lambda>r. (fst r - base, snd r)) miss) \<and>
     bytes_of (map (\<lambda>r. (fst r - base, snd r)) miss) = (\<lambda>x. x - unat base) ` bytes_of miss"
proof (induction miss arbitrary: lo)
  case (Cons r miss)
  let ?e = "unat (fst r) + unat (snd r)"
  have le: "unat base \<le> unat (fst r)" using Cons.prems by simp
  then have u: "unat (fst r - base) = unat (fst r) - unat base"
    by (simp add: unat_sub word_le_nat_alt)
  have ih: "ranges_ok (?e - unat base) (hi - unat base) (map (\<lambda>r. (fst r - base, snd r)) miss)"
    "bytes_of (map (\<lambda>r. (fst r - base, snd r)) miss) = (\<lambda>x. x - unat base) ` bytes_of miss"
    using Cons.IH [of ?e] Cons.prems le by simp_all
  have "(\<lambda>x. x - unat base) ` {unat (fst r)..<?e} = {unat (fst r) - unat base..<?e - unat base}"
    using le Cons.prems by (simp add: image_minus_const_atLeastLessThan_nat)
  then show ?case using ih Cons.prems le by (simp add: u image_Un diff_le_mono)
qed (simp add: diff_le_mono)

section \<open>Properties\<close>

text \<open>
  C15: resume negotiation delivers the receiver's list. Take any ordered list of ranges a lane's
  receiver is missing, inside the lane and below \<open>2 ^ 63\<close>: merging terminates, leaves at most 4096
  ranges and asks for every missing byte; and when the answer's datagrams (none of which failed to
  be signed) reach the sender in any order and with any repetition, the sender has the complete
  answer and plans to send exactly the ranges and the number of bytes the receiver expects.
\<close>

theorem resume_negotiation:
  assumes "ranges_ok (unat lane_base) (unat lane_base + unat shard) missing"
    "unat lane_base + unat shard < 2 ^ 63"
  shows "\<exists>want n. wanted_ranges lane_base missing = Some (want, n) \<and> length want \<le> kMaxResumeRanges \<and>
    (\<lambda>x. x - unat lane_base) ` bytes_of missing \<subseteq> bytes_of want \<and>
    (\<forall>msgs auth' ds. encode_resume_answer cr lane nonce resumed want auth = (msgs, auth') \<longrightarrow>
       [] \<notin> set msgs \<longrightarrow> set ds = set msgs \<longrightarrow>
       (let s = fold (on_resume_ranges nonce) ds no_answer in
        answer_complete s \<and> ra_resumed s = resumed \<and> session_plan shard (ra_answer s) = (want, n)))"
proof -
  let ?rel = "map (\<lambda>r. (fst r - lane_base, snd r)) missing"
  have rel: "ranges_ok 0 (unat shard) ?rel" "bytes_of ?rel = (\<lambda>x. x - unat lane_base) ` bytes_of missing"
    using relative_ranges [OF assms(1), of lane_base] by simp_all
  from coarsen_ranges_returns [OF rel(1), of kMaxResumeRanges] assms(2)
  obtain want where w: "coarsen_ranges kMaxResumeRanges ?rel = Some want" "length want \<le> kMaxResumeRanges"
    "ranges_ok 0 (unat shard) want" "bytes_of ?rel \<subseteq> bytes_of want" by auto
  have n: "wanted_ranges lane_base missing = Some (want, of_nat (range_sum want))"
    using w(1) by (simp add: wanted_ranges_def word_range_sum)
  show ?thesis
  proof (intro exI conjI allI impI)
    fix msgs auth' ds
    assume "encode_resume_answer cr lane nonce resumed want auth = (msgs, auth')" "[] \<notin> set msgs" "set ds = set msgs"
    note d = answer_delivered [OF w(2) this]
    show "let s = fold (on_resume_ranges nonce) ds no_answer in
        answer_complete s \<and> ra_resumed s = resumed \<and>
        session_plan shard (ra_answer s) = (want, of_nat (range_sum want))"
      unfolding d Let_def using all_parts_complete [OF w(2)] session_plan_exact [OF w(3)] by blast
  qed (use n w rel in simp_all)
qed

theorem resume_negotiation_witness:
  "ranges_ok (unat (100 :: u64)) (unat (100 :: u64) + unat (50 :: u64)) [(100, 10), (120, 30)] \<and>
   (\<exists>want n. wanted_ranges 100 [(100, 10), (120, 30)] = Some (want, n) \<and> length want \<le> kMaxResumeRanges)"
proof -
  have ok: "ranges_ok (unat (100 :: u64)) (unat (100 :: u64) + unat (50 :: u64)) [(100, 10), (120, 30)]"
    "unat (100 :: u64) + unat (50 :: u64) < 2 ^ 63" by simp_all
  show ?thesis using ok(1) resume_negotiation [OF ok, of demo_crypto 0 0 False None] by blast
qed

text \<open>
  C16: whatever answer a receiver sends, honest or not, a sender's plan is a list of ordered,
  non-empty, non-overlapping ranges inside its shard, and the session's byte count is their total,
  at most the shard.
\<close>

theorem session_plan_safe:
  assumes "session_plan shard answer = (rs, n)"
  shows "ranges_ok 0 (unat shard) rs \<and> bytes_of rs \<subseteq> {..<unat shard} \<and>
         unat n = card (bytes_of rs) \<and> n \<le> shard"
  using session_plan_ok [OF assms] ranges_ok_bytes [of 0 "unat shard" rs] ranges_ok_le [of 0 "unat shard" rs]
    card_bytes_of [of 0 "unat shard" rs]
  by (auto simp: word_le_nat_alt)

theorem session_plan_safe_witness:
  "session_plan 100 [[(90, 20)], [(0, 10)]] = ([(0, 100)], 100) \<and>
   ranges_ok 0 (unat (100 :: u64)) [(0, 100)] \<and> unat (100 :: u64) = card (bytes_of [(0, 100)])"
proof -
  have "session_plan 100 [[(90, 20)], [(0, 10)]] = ([(0, 100)], 100)"
    by (simp add: session_plan_def Let_def insort_key.simps)
  from session_plan_safe [OF this] this show ?thesis by blast
qed

end
