(* ===== verification/File_Sink.thy ===== *)
theory File_Sink
  imports Resume
begin

text \<open>
  Where received bytes end up (\<^verbatim>\<open>src/src/proto/transfer.cpp\<close>, \<^verbatim>\<open>Sink\<close>, \<^verbatim>\<open>MemorySink\<close>, \<^verbatim>\<open>FileSink\<close>).

  A \<open>FileSink\<close> holds the two directory entries it works on: \<open>fs_part\<close>, the content of
  \<^verbatim>\<open><path>.part\<close> (which its descriptor refers to), and \<open>fs_path\<close>, the content of \<^verbatim>\<open><path>\<close>. The kernel
  is an argument: booleans for calls that succeed or fail as a whole, and for \<^verbatim>\<open>pwrite\<close> and
  \<^verbatim>\<open>pwritev\<close> the list of their answers, each of which may be short or interrupted. A loop that
  runs out of answers has not returned (\<^term>\<open>None\<close>).
\<close>

section \<open>The file\<close>

definition pwrite_at :: "nat \<Rightarrow> byte list \<Rightarrow> byte list \<Rightarrow> byte list" where
  "pwrite_at off bs f =
     (if bs = [] then f
      else take off (f @ replicate (off - length f) 0) @ bs @ drop (off + length bs) f)"

definition ftruncate :: "nat \<Rightarrow> byte list \<Rightarrow> byte list" where
  "ftruncate n f = take n f @ replicate (n - length f) 0"

datatype kernel_write = Wrote nat | Eintr | WriteError

section \<open>State\<close>

record prior_copy =
  pr_valid :: bool
  pr_file_id :: u64
  pr_total :: u64
  pr_chunk :: u64
  pr_nchunks :: u64
  pr_bitmap :: "byte list"

definition no_prior :: prior_copy where
  "no_prior = \<lparr>pr_valid = False, pr_file_id = 0, pr_total = 0, pr_chunk = 0, pr_nchunks = 0, pr_bitmap = []\<rparr>"

record FileSink =
  fs_part :: "byte list option"
  fs_path :: "byte list option"
  fs_open :: bool
  fs_existed :: bool
  fs_prior :: prior_copy
  fs_prepared :: bool
  fs_resumed :: bool
  fs_resumed_bytes :: u64
  fs_file_id :: u64
  fs_total :: u64
  fs_chunk :: u64
  fs_nchunks :: u64
  fs_counters :: "u64 list"

text \<open>The constructor, on what the directory holds.\<close>

definition new_file_sink :: "byte list option \<Rightarrow> byte list option \<Rightarrow> FileSink" where
  "new_file_sink part path =
     \<lparr>fs_part = part, fs_path = path, fs_open = False, fs_existed = False, fs_prior = no_prior,
      fs_prepared = False, fs_resumed = False, fs_resumed_bytes = 0, fs_file_id = 0, fs_total = 0,
      fs_chunk = 1, fs_nchunks = 0, fs_counters = []\<rparr>"

definition fs_disk :: "FileSink \<Rightarrow> byte list" where
  "fs_disk s = (case fs_part s of Some d \<Rightarrow> d | None \<Rightarrow> [])"

definition kFooterLen :: nat where [simp]: "kFooterLen = 48"

definition kMagic :: "byte list" where
  "kMagic = ascii ''FUSERSM1''"

definition chunk_len :: "u64 \<Rightarrow> u64 \<Rightarrow> u64 \<Rightarrow> u64" where
  "chunk_len i chunk total_bytes = min chunk (total_bytes - i * chunk)"

section \<open>The trailer\<close>

definition chunk_complete :: "FileSink \<Rightarrow> nat \<Rightarrow> bool" where
  "chunk_complete s i \<longleftrightarrow> fs_counters s ! i \<ge> chunk_len (of_nat i) (fs_chunk s) (fs_total s)"

definition mark_chunk :: "FileSink \<Rightarrow> byte list \<Rightarrow> nat \<Rightarrow> byte list" where
  "mark_chunk s t i =
     (if chunk_complete s i then t[i div 8 := t ! (i div 8) OR push_bit (i mod 8) 1] else t)"

definition bitmap_bytes :: "u64 \<Rightarrow> u64" where
  "bitmap_bytes nchunks = (nchunks + 7) div 8"

definition chunk_bitmap :: "FileSink \<Rightarrow> byte list" where
  "chunk_bitmap s =
     foldl (mark_chunk s) (replicate (unat (bitmap_bytes (fs_nchunks s))) 0) [0..<unat (fs_nchunks s)]"

definition trailer :: "FileSink \<Rightarrow> byte list" where
  "trailer s =
     (let head = chunk_bitmap s @ put_u64 (fs_file_id s) @ put_u64 (fs_total s) @ put_u64 (fs_chunk s)
                 @ put_u64 (fs_nchunks s)
      in head @ put_u64 (hash64 head) @ kMagic)"

text \<open>\<open>reads_ok\<close>: \<^verbatim>\<open>fstat\<close> and \<^verbatim>\<open>pread\<close> did not fail. \<open>trailer_prior\<close> is what a valid trailer sets.\<close>

definition trailer_prior :: "byte list \<Rightarrow> prior_copy option" where
  "trailer_prior f =
     (if length f < kFooterLen then None
      else do {
        let size = (of_nat (length f) :: u64);
        let foot = drop (length f - kFooterLen) f;
        if drop 40 foot \<noteq> kMagic then None
        else do {
          file_id \<leftarrow> get_u64 foot 0;
          total_bytes \<leftarrow> get_u64 foot 8;
          chunk \<leftarrow> get_u64 foot 16;
          nchunks \<leftarrow> get_u64 foot 24;
          check \<leftarrow> get_u64 foot 32;
          if chunk = 0 \<or> total_bytes > size \<or> nchunks \<noteq> (total_bytes + chunk - 1) div chunk then None
          else do {
            let bitmap_len = bitmap_bytes nchunks;
            if size \<noteq> total_bytes + bitmap_len + of_nat kFooterLen then None
            else do {
              let bitmap = take (unat bitmap_len) (drop (unat total_bytes) f);
              if length bitmap \<noteq> unat bitmap_len \<or> hash64 (bitmap @ take 32 foot) \<noteq> check then None
              else Some \<lparr>pr_valid = True, pr_file_id = file_id, pr_total = total_bytes, pr_chunk = chunk,
                         pr_nchunks = nchunks, pr_bitmap = bitmap\<rparr>
            }
          }
        }
      })"

definition load_trailer :: "bool \<Rightarrow> FileSink \<Rightarrow> FileSink" where
  "load_trailer reads_ok s =
     (if \<not> reads_ok then s
      else case trailer_prior (fs_disk s) of None \<Rightarrow> s | Some p \<Rightarrow> s\<lparr>fs_prior := p\<rparr>)"

section \<open>Operations\<close>

definition fs_open_part :: "bool \<Rightarrow> bool \<Rightarrow> FileSink \<Rightarrow> bool \<times> FileSink" where
  "fs_open_part open_ok reads_ok s =
     (let s = s\<lparr>fs_existed := fs_part s \<noteq> None\<rparr> in
      if \<not> open_ok then (False, s)
      else
        let s = s\<lparr>fs_open := True, fs_part := Some (fs_disk s)\<rparr>
        in (True, if fs_existed s then load_trailer reads_ok s else s))"

lemma double_chunk_less:
  assumes "total_bytes div chunk > (0x800000 :: u64)"
  shows "unat (total_bytes div (chunk * 2)) < unat (total_bytes div chunk)"
proof -
  have d: "unat total_bytes div unat chunk > 0x800000"
    using assms by (simp add: word_less_nat_alt unat_div)
  then have pos: "0 < unat chunk" by (cases "unat chunk = 0") auto
  have "unat chunk * 0x800000 \<le> unat chunk * (unat total_bytes div unat chunk)" using d by simp
  also have "\<dots> \<le> unat total_bytes" by (rule times_div_less_eq_dividend)
  finally have "unat chunk * 2 < 2 ^ 64" using unat_u64_less [of total_bytes] by simp
  then have m: "unat (chunk * 2) = unat chunk * 2" by (simp add: unat_word_ariths)
  have "unat total_bytes div (unat chunk * 2) = unat total_bytes div unat chunk div 2" by (simp add: div_mult2_eq)
  with d show ?thesis by (simp add: unat_div m)
qed

function pick_chunk :: "u64 \<Rightarrow> u64 \<Rightarrow> u64" where
  "pick_chunk total_bytes chunk = (if total_bytes div chunk > 0x800000 then pick_chunk total_bytes (chunk * 2) else chunk)"
  by auto
termination
  by (relation "measure (\<lambda>(total_bytes, chunk). unat (total_bytes div chunk))") (simp_all add: double_chunk_less)

declare pick_chunk.simps [simp del]

definition fs_prepare :: "bool \<Rightarrow> bool \<Rightarrow> u64 \<Rightarrow> u64 \<Rightarrow> FileSink \<Rightarrow> bool \<times> FileSink" where
  "fs_prepare alloc_ok trunc_ok total_bytes file_id s =
     (if total_bytes > 0x7FFFFFFFFFFFFFFF then (False, s)
      else
        let chunk = pick_chunk total_bytes (64 * 1024);
            nchunks = (total_bytes + chunk - 1) div chunk
        in
        if \<not> alloc_ok then (False, s)
        else
          let p = fs_prior s;
              n = unat nchunks;
              held = (\<lambda>i. bit (pr_bitmap p ! (i div 8)) (i mod 8));
              s = s\<lparr>fs_counters := replicate n 0\<rparr>;
              same_file = (file_id \<noteq> 0 \<and> pr_valid p \<and> pr_file_id p = file_id \<and> pr_total p = total_bytes \<and>
                           pr_chunk p = chunk \<and> pr_nchunks p = nchunks)
          in
          if \<not> same_file \<and> \<not> trunc_ok then (False, s)
          else
            let s = (if same_file
                     then s\<lparr>fs_counters :=
                              map (\<lambda>i. if held i then chunk_len (of_nat i) chunk total_bytes else 0) [0..<n],
                            fs_resumed_bytes := fs_resumed_bytes s +
                              (\<Sum>i \<leftarrow> filter held [0..<n]. chunk_len (of_nat i) chunk total_bytes),
                            fs_resumed := True\<rparr>
                     else s\<lparr>fs_part := Some (ftruncate (unat total_bytes) (ftruncate 0 (fs_disk s)))\<rparr>)
            in (True, s\<lparr>fs_prior := p\<lparr>pr_bitmap := []\<rparr>, fs_file_id := file_id, fs_total := total_bytes,
                        fs_chunk := chunk, fs_nchunks := nchunks, fs_prepared := True\<rparr>))"

text \<open>\<^verbatim>\<open>Sink::missing\<close>, and the loop of the override over the chunks that meet \<open>[begin, end)\<close>.\<close>

definition sink_missing :: "u64 \<Rightarrow> u64 \<Rightarrow> ResumeRange list" where
  "sink_missing beg fin = (if fin > beg then [(beg, fin - beg)] else [])"

definition missing_chunk :: "u64 \<Rightarrow> u64 \<Rightarrow> FileSink \<Rightarrow> ResumeRange list \<Rightarrow> nat \<Rightarrow> ResumeRange list" where
  "missing_chunk beg fin s out c =
     (if chunk_complete s c then out
      else
        let a = max beg (of_nat c * fs_chunk s);
            b = min fin (min (fs_total s) ((of_nat c + 1) * fs_chunk s))
        in if out \<noteq> [] \<and> fst (last out) + snd (last out) = a
           then butlast out @ [(fst (last out), snd (last out) + (b - a))]
           else out @ [(a, b - a)])"

definition fs_missing :: "u64 \<Rightarrow> u64 \<Rightarrow> FileSink \<Rightarrow> ResumeRange list" where
  "fs_missing beg fin s =
     (if \<not> fs_resumed s \<or> fin \<le> beg then sink_missing beg fin
      else foldl (missing_chunk beg fin s) []
             [unat (beg div fs_chunk s)..<min (Suc (unat ((fin - 1) div fs_chunk s))) (unat (fs_nchunks s))])"

text \<open>Skipping \<open>n\<close> written bytes of the vectors.\<close>

fun advance_iov :: "nat \<Rightarrow> byte list list \<Rightarrow> byte list list" where
  "advance_iov left [] = []"
| "advance_iov left (v # vs) =
     (if left \<ge> length v then advance_iov (left - length v) vs
      else if left > 0 then drop left v # vs else v # vs)"

fun pwritev_loop ::
  "nat \<Rightarrow> byte list list \<Rightarrow> nat \<Rightarrow> kernel_write list \<Rightarrow> byte list \<Rightarrow> (bool \<times> byte list) option" where
  "pwritev_loop off iov bytes ans f =
     (if bytes = 0 then Some (True, f)
      else case ans of
             [] \<Rightarrow> None
           | Eintr # ans' \<Rightarrow> pwritev_loop off iov bytes ans' f
           | WriteError # ans' \<Rightarrow> Some (False, f)
           | Wrote n # ans' \<Rightarrow>
               if n = 0 then Some (False, f)
               else pwritev_loop (off + n) (advance_iov n iov) (bytes - n) ans'
                      (pwrite_at off (take n (concat iov)) f))"

declare pwritev_loop.simps [simp del]

partial_function (option) count_chunks ::
  "u64 \<Rightarrow> u64 \<Rightarrow> u64 \<Rightarrow> u64 \<Rightarrow> u64 list \<Rightarrow> u64 list option" where
  "count_chunks chunk nchunks off fin counters =
     (if off < fin then
        let c = off div chunk;
            stop = min fin ((c + 1) * chunk)
        in count_chunks chunk nchunks stop fin
             (if c < nchunks
              then counters[unat c := counters ! unat c + (stop - off)] else counters)
      else Some counters)"

declare count_chunks.simps [code]

definition fs_write ::
  "kernel_write list \<Rightarrow> u64 \<Rightarrow> byte list list \<Rightarrow> FileSink \<Rightarrow> (bool \<times> FileSink) option" where
  "fs_write ans off iov s =
     do {
       let len = length (concat iov);
       (ok, f) \<leftarrow> pwritev_loop (unat off) iov len ans (fs_disk s);
       let s = s\<lparr>fs_part := Some f\<rparr>;
       if \<not> ok then Some (False, s)
       else do {
         counters \<leftarrow> count_chunks (fs_chunk s) (fs_nchunks s) off (off + of_nat len) (fs_counters s);
         Some (True, s\<lparr>fs_counters := counters\<rparr>)
       }
     }"

fun pwrite_all :: "byte list \<Rightarrow> nat \<Rightarrow> kernel_write list \<Rightarrow> byte list \<Rightarrow> (bool \<times> byte list) option" where
  "pwrite_all p off ans f =
     (if p = [] then Some (True, f)
      else case ans of
             [] \<Rightarrow> None
           | Eintr # ans' \<Rightarrow> pwrite_all p off ans' f
           | WriteError # ans' \<Rightarrow> Some (False, f)
           | Wrote n # ans' \<Rightarrow>
               if n = 0 then Some (False, f)
               else pwrite_all (drop n p) (off + n) ans' (pwrite_at off (take n p) f))"

declare pwrite_all.simps [simp del]

text \<open>The second \<^verbatim>\<open>fdatasync\<close> does not change what the file holds.\<close>

definition fs_checkpoint :: "bool \<Rightarrow> kernel_write list \<Rightarrow> FileSink \<Rightarrow> FileSink option" where
  "fs_checkpoint sync_ok ans s =
     (if \<not> fs_prepared s \<or> fs_file_id s = 0 \<or> \<not> fs_open s then Some s
      else if \<not> sync_ok then Some s
      else map_option (\<lambda>(ok, f). s\<lparr>fs_part := Some f\<rparr>)
             (pwrite_all (trailer s) (unat (fs_total s)) ans (fs_disk s)))"

text \<open>\<open>fd_digest\<close> stands for \<^verbatim>\<open>segmented_digest_fd\<close> on the file's content.\<close>

definition fs_verify :: "(byte list \<Rightarrow> u64 \<Rightarrow> byte list option) \<Rightarrow> byte list \<Rightarrow> FileSink \<Rightarrow> bool" where
  "fs_verify fd_digest digest s = (fd_digest (fs_disk s) (fs_total s) = Some digest)"

datatype sink_end = Commit | KeepPartial | Discard

text \<open>What the kernel answers to \<^verbatim>\<open>ftruncate && fdatasync\<close>, \<^verbatim>\<open>close\<close> and \<^verbatim>\<open>rename\<close>.\<close>

record finish_calls =
  fc_sync :: bool
  fc_close :: bool
  fc_rename :: bool
  fc_checkpoint_sync :: bool
  fc_answers :: "kernel_write list"

definition fs_finish :: "finish_calls \<Rightarrow> sink_end \<Rightarrow> FileSink \<Rightarrow> (bool \<times> FileSink) option" where
  "fs_finish k e s =
     (if \<not> fs_open s then Some (e \<noteq> Commit, s)
      else if e = Commit then
        let s = (if fc_sync k then s\<lparr>fs_part := Some (ftruncate (unat (fs_total s)) (fs_disk s))\<rparr> else s);
            s = s\<lparr>fs_open := False\<rparr>
        in if fc_sync k \<and> fc_close k \<and> fc_rename k
           then Some (True, s\<lparr>fs_path := fs_part s, fs_part := None\<rparr>)
           else Some (False, s\<lparr>fs_part := None\<rparr>)
      else if e = KeepPartial \<and> fs_prepared s \<and> fs_file_id s \<noteq> 0 then
        map_option (\<lambda>s. (True, s\<lparr>fs_open := False\<rparr>)) (fs_checkpoint (fc_checkpoint_sync k) (fc_answers k) s)
      else
        let s = s\<lparr>fs_open := False\<rparr>
        in Some (True, if e = Discard \<or> fs_prepared s \<or> \<not> fs_existed s then s\<lparr>fs_part := None\<rparr> else s))"

section \<open>The memory sink\<close>

text \<open>The caller's vector. A write outside it is undefined behaviour (\<^term>\<open>None\<close>).\<close>

record MemorySink =
  ms_out :: "byte list"

definition ms_prepare :: "bool \<Rightarrow> u64 \<Rightarrow> MemorySink \<Rightarrow> bool \<times> MemorySink" where
  "ms_prepare alloc_ok total_bytes s =
     (if alloc_ok then (True, s\<lparr>ms_out := replicate (unat total_bytes) 0\<rparr>) else (False, s))"

definition ms_write :: "u64 \<Rightarrow> byte list list \<Rightarrow> MemorySink \<Rightarrow> (bool \<times> MemorySink) option" where
  "ms_write off iov s =
     (if unat off + length (concat iov) \<le> length (ms_out s)
      then Some (True, s\<lparr>ms_out := pwrite_at (unat off) (concat iov) (ms_out s)\<rparr>)
      else None)"

definition ms_finish :: "sink_end \<Rightarrow> MemorySink \<Rightarrow> bool \<times> MemorySink" where
  "ms_finish e s = (True, if e \<noteq> Commit then s\<lparr>ms_out := []\<rparr> else s)"

section \<open>Positional writes\<close>

lemma length_pwrite_at: "length (pwrite_at off bs f) = (if bs = [] then length f else max (length f) (off + length bs))"
  by (auto simp: pwrite_at_def)

lemma nth_pwrite_at:
  assumes "off + length bs \<le> length f" "p < length f"
  shows "pwrite_at off bs f ! p = (if off \<le> p \<and> p < off + length bs then bs ! (p - off) else f ! p)"
proof -
  have "take off (f @ replicate (off - length f) 0) = take off f" using assms by simp
  then show ?thesis using assms by (auto simp: pwrite_at_def nth_append add.commute)
qed

lemma pwrite_at_append: "pwrite_at (off + length a) b (pwrite_at off a f) = pwrite_at off (a @ b) f"
proof (cases "a = [] \<or> b = []")
  case False
  define h where "h = take off (f @ replicate (off - length f) 0)"
  define d where "d = drop (off + length a) f"
  have h: "length h = off" by (simp add: h_def)
  have 1: "pwrite_at off a f = h @ a @ d" using False by (simp add: pwrite_at_def h_def d_def)
  have 2: "pwrite_at (off + length a) b (h @ a @ d) = h @ a @ b @ drop (length b) d"
    using False h by (simp add: pwrite_at_def)
  have 3: "pwrite_at off (a @ b) f = h @ a @ b @ drop (length b) d"
    using False by (simp add: pwrite_at_def h_def d_def add.commute add.left_commute)
  show ?thesis unfolding 1 2 3 ..
qed (auto simp: pwrite_at_def)

lemma concat_advance: "concat (advance_iov n iov) = drop n (concat iov)"
  by (induction n iov rule: advance_iov.induct) auto

text \<open>The vectored loop is the flat one on the concatenation of the vectors.\<close>

lemma pwritev_loop_flat: "pwritev_loop off iov (length (concat iov)) ans f = pwrite_all (concat iov) off ans f"
proof (induction ans arbitrary: off iov f)
  case Nil
  then show ?case by (simp add: pwritev_loop.simps [of _ _ _ "[]"] pwrite_all.simps [of _ _ "[]"])
next
  case (Cons a ans)
  have "pwritev_loop (off + n) (advance_iov n iov) (length (concat iov) - n) ans g =
      pwrite_all (drop n (concat iov)) (off + n) ans g" for n g
    using Cons.IH [of "off + n" "advance_iov n iov" g] by (simp add: concat_advance)
  with Cons.IH [of off iov f] show ?case
    by (cases a) (simp_all add: pwritev_loop.simps [of _ _ _ "_ # _"] pwrite_all.simps [of _ _ "_ # _"])
qed

lemma pwrite_all_result:
  "pwrite_all p off ans f = Some (ok, f') \<Longrightarrow>
     \<exists>k. f' = pwrite_at off (take k p) f \<and> (ok \<longrightarrow> length p \<le> k)"
proof (induction ans arbitrary: p off f)
  case Nil
  then show ?case by (auto simp: pwrite_all.simps [of _ _ "[]"] pwrite_at_def split: if_splits)
next
  case (Cons a ans)
  have stop: ?case if "f' = f" "ok \<longrightarrow> p = []"
    using that by (intro exI [of _ 0]) (auto simp: pwrite_at_def)
  show ?case
  proof (cases "p = [] \<or> a = WriteError \<or> a = Wrote 0")
    case True
    then show ?thesis using Cons.prems stop by (auto simp: pwrite_all.simps [of _ _ "_ # _"] split: if_splits)
  next
    case False
    then consider "a = Eintr" | n where "a = Wrote n" "0 < n" by (cases a) auto
    then show ?thesis
    proof cases
      case 1
      with Cons.prems False have "pwrite_all p off ans f = Some (ok, f')"
        by (simp add: pwrite_all.simps [of _ _ "_ # _"])
      then show ?thesis by (rule Cons.IH)
    next
      case (2 n)
      with Cons.prems False have "pwrite_all (drop n p) (off + n) ans (pwrite_at off (take n p) f) = Some (ok, f')"
        by (simp add: pwrite_all.simps [of _ _ "_ # _"])
      from Cons.IH [OF this] obtain k where k:
        "f' = pwrite_at (off + n) (take k (drop n p)) (pwrite_at off (take n p) f)"
        "ok \<longrightarrow> length (drop n p) \<le> k" by auto
      show ?thesis
      proof (cases "n \<le> length p")
        case True
        then have "f' = pwrite_at off (take n p @ take k (drop n p)) f"
          using k(1) pwrite_at_append [of off "take n p"] by simp
        then show ?thesis using k(2) True by (auto simp: take_add [symmetric] intro!: exI [of _ "n + k"])
      next
        case False
        then show ?thesis using k by (intro exI [of _ n]) (simp add: pwrite_at_def [of "off + n"])
      qed
    qed
  qed
qed

text \<open>If every call writes something or is interrupted, enough calls complete the write.\<close>

definition progresses :: "kernel_write list \<Rightarrow> nat \<Rightarrow> bool" where
  "progresses ans n \<longleftrightarrow>
     WriteError \<notin> set ans \<and> Wrote 0 \<notin> set ans \<and> n \<le> length (filter (\<lambda>a. a \<noteq> Eintr) ans)"

lemma pwrite_all_completes:
  "progresses ans (length p) \<Longrightarrow> pwrite_all p off ans f = Some (True, pwrite_at off p f)"
proof (induction ans arbitrary: p off f)
  case Nil
  then show ?case by (simp add: progresses_def pwrite_all.simps [of _ _ "[]"] pwrite_at_def)
next
  case (Cons a ans)
  show ?case
  proof (cases "p = [] \<or> a = Eintr")
    case True
    then show ?thesis using Cons by (auto simp: progresses_def pwrite_all.simps [of _ _ "_ # _"] pwrite_at_def)
  next
    case False
    with Cons.prems obtain n where n: "a = Wrote n" "0 < n" by (cases a) (auto simp: progresses_def)
    with False Cons.prems have "progresses ans (length (drop n p))" by (auto simp: progresses_def)
    from Cons.IH [OF this] n False show ?thesis
      using pwrite_at_append [of off "take n p" "drop n p" f]
      by (cases "n \<le> length p")
         (simp_all add: pwrite_all.simps [of _ _ "_ # _"] pwrite_at_def [of "off + n" "[]"])
  qed
qed

section \<open>Chunks\<close>

text \<open>The chunk layout that \<open>fs_prepare\<close> establishes, and the positions of chunk \<open>c\<close>.\<close>

definition chunk_layout :: "u64 \<Rightarrow> u64 \<Rightarrow> u64 \<Rightarrow> bool" where
  "chunk_layout total_bytes chunk nchunks \<longleftrightarrow>
     0 < unat chunk \<and> unat chunk < 2 ^ 62 \<and> unat total_bytes < 2 ^ 63 \<and>
     nchunks = (total_bytes + chunk - 1) div chunk"

definition chunk_range :: "u64 \<Rightarrow> u64 \<Rightarrow> nat \<Rightarrow> nat set" where
  "chunk_range total_bytes chunk c = {c * unat chunk..<min (unat total_bytes) (Suc c * unat chunk)}"

lemma pick_chunk_bounds:
  "0 < unat chunk \<Longrightarrow> unat chunk < 2 ^ 62 \<Longrightarrow>
     0 < unat (pick_chunk total_bytes chunk) \<and> unat (pick_chunk total_bytes chunk) < 2 ^ 62"
proof (induction total_bytes chunk rule: pick_chunk.induct)
  case (1 total_bytes chunk)
  show ?case
  proof (cases "total_bytes div chunk > 0x800000")
    case True
    then have "unat total_bytes div unat chunk > 0x800000" by (simp add: word_less_nat_alt unat_div)
    then have "unat chunk * 0x800000 \<le> unat chunk * (unat total_bytes div unat chunk)" by simp
    also have "\<dots> \<le> unat total_bytes" by (rule times_div_less_eq_dividend)
    finally have "unat chunk * 0x800000 < 2 ^ 64" using unat_u64_less [of total_bytes] by simp
    then have "unat (chunk * 2) = unat chunk * 2" "unat chunk * 2 < 2 ^ 62"
      by (simp_all add: unat_word_ariths)
    then show ?thesis using 1 True pick_chunk.simps [of total_bytes chunk] by simp
  next
    case False
    then show ?thesis using 1(2,3) pick_chunk.simps [of total_bytes chunk] by simp
  qed
qed

lemma layout_nat:
  assumes layout: "chunk_layout total_bytes chunk nchunks"
  shows "0 < unat chunk" "unat chunk < 2 ^ 62" "unat total_bytes < 2 ^ 63"
    "unat nchunks = (unat total_bytes + unat chunk - 1) div unat chunk"
proof -
  show b: "0 < unat chunk" "unat chunk < 2 ^ 62" "unat total_bytes < 2 ^ 63"
    using layout by (simp_all add: chunk_layout_def)
  then have "unat (total_bytes + chunk - 1) = unat total_bytes + unat chunk - 1"
    by (subst unat_minus_one) (auto simp: unat_word_ariths word_unat_eq_iff)
  then show "unat nchunks = (unat total_bytes + unat chunk - 1) div unat chunk"
    using layout by (simp add: chunk_layout_def unat_div)
qed

lemma nchunks_covers:
  assumes layout: "chunk_layout total_bytes chunk nchunks"
  shows "unat total_bytes \<le> unat nchunks * unat chunk"
  using layout_nat [OF layout] dividend_less_div_times [OF layout_nat(1) [OF layout], of "unat total_bytes + unat chunk - 1"]
  by (simp add: algebra_simps)

lemma chunk_start:
  assumes layout: "chunk_layout total_bytes chunk nchunks" and "c < unat nchunks"
  shows "c * unat chunk < unat total_bytes"
proof -
  from assms(2) have "Suc c * unat chunk \<le> unat nchunks * unat chunk" by (simp only: Suc_le_eq mult_le_mono1)
  also have "\<dots> \<le> unat total_bytes + unat chunk - 1"
    unfolding layout_nat(4) [OF layout] by (rule div_times_less_eq_dividend)
  finally show ?thesis using layout_nat(1) [OF layout] by simp
qed

lemma chunk_words:
  assumes layout: "chunk_layout total_bytes chunk nchunks" and "c < unat nchunks"
  shows "unat (of_nat c * chunk) = c * unat chunk"
    "unat ((of_nat c + 1) * chunk) = Suc c * unat chunk"
    "unat (chunk_len (of_nat c) chunk total_bytes) = card (chunk_range total_bytes chunk c)"
proof -
  note s = chunk_start [OF assms] and layout_nat = layout_nat [OF layout]
  have c64: "unat (of_nat c :: u64) = c" "unat (of_nat c + 1 :: u64) = Suc c"
    using assms(2) unat_u64_less [of nchunks] by (simp_all add: unat_of_nat unat_word_ariths)
  show 1: "unat (of_nat c * chunk) = c * unat chunk"
    using s layout_nat(3) c64 by (simp add: unat_word_ariths)
  show "unat ((of_nat c + 1) * chunk) = Suc c * unat chunk"
    using s layout_nat(2,3) c64 by (simp add: unat_word_ariths del: of_nat_Suc)
  have "unat (total_bytes - of_nat c * chunk) = unat total_bytes - c * unat chunk"
    using 1 s by (subst unat_sub) (simp_all add: word_le_nat_alt)
  then have "unat (chunk_len (of_nat c) chunk total_bytes) = min (unat chunk) (unat total_bytes - c * unat chunk)"
    by (simp add: chunk_len_def min_def word_le_nat_alt)
  then show "unat (chunk_len (of_nat c) chunk total_bytes) = card (chunk_range total_bytes chunk c)"
    using s by (auto simp: chunk_range_def min_def)
qed

lemma chunk_of:
  assumes layout: "chunk_layout total_bytes chunk nchunks" and "p < unat total_bytes"
  shows "p div unat chunk < unat nchunks"
    "p \<in> chunk_range total_bytes chunk c \<longleftrightarrow> c = p div unat chunk"
proof -
  have "p < unat nchunks * unat chunk" using assms(2) nchunks_covers [OF layout] by simp
  then show "p div unat chunk < unat nchunks" by (simp add: less_mult_imp_div_less)
  have "p \<in> chunk_range total_bytes chunk c \<longleftrightarrow> c * unat chunk \<le> p \<and> p < Suc c * unat chunk"
    using assms(2) by (simp add: chunk_range_def)
  also have "\<dots> \<longleftrightarrow> c = p div unat chunk"
  proof
    assume "c * unat chunk \<le> p \<and> p < Suc c * unat chunk"
    then show "c = p div unat chunk" by (intro div_nat_eqI [symmetric]) (simp_all add: mult.commute)
  next
    assume "c = p div unat chunk"
    then show "c * unat chunk \<le> p \<and> p < Suc c * unat chunk"
      using dividend_less_div_times [OF layout_nat(1) [OF layout], of p] div_times_less_eq_dividend [of p "unat chunk"]
      by simp
  qed
  finally show "p \<in> chunk_range total_bytes chunk c \<longleftrightarrow> c = p div unat chunk" .
qed

lemma chunk_div:
  assumes layout: "chunk_layout total_bytes chunk nchunks" and "p < unat total_bytes"
    and "unat off = p" and "q = p div unat chunk"
  shows "off div chunk = of_nat q" "unat (off div chunk) = q" "q < unat nchunks" "p < Suc q * unat chunk"
proof -
  show u: "unat (off div chunk) = q" using assms(3,4) by (simp add: unat_div)
  then show "off div chunk = of_nat q" by (metis of_nat_unat ucast_id)
  show "q < unat nchunks" using chunk_of(1) [OF assms(1,2)] assms(4) by simp
  show "p < Suc q * unat chunk"
    using dividend_less_div_times [OF layout_nat(1) [OF layout], of p] assms(4) by simp
qed

lemma split_at_chunk:
  assumes layout: "chunk_layout total_bytes chunk nchunks" and "off < stop" "stop \<le> fin" "fin \<le> unat total_bytes"
    "stop \<le> Suc (off div unat chunk) * unat chunk"
  shows "card ({off..<fin} \<inter> chunk_range total_bytes chunk c) =
     (if c = off div unat chunk then stop - off else 0) + card ({stop..<fin} \<inter> chunk_range total_bytes chunk c)"
proof -
  let ?R = "chunk_range total_bytes chunk c"
  have d: "p div unat chunk = off div unat chunk" if "off \<le> p" "p < stop" for p
  proof (rule div_nat_eqI)
    show "unat chunk * (off div unat chunk) \<le> p"
      by (rule order_trans [OF times_div_less_eq_dividend that(1)])
    show "p < unat chunk * Suc (off div unat chunk)" using that assms(5) by (simp add: mult.commute)
  qed
  have "p \<in> ?R \<longleftrightarrow> c = off div unat chunk" if "off \<le> p" "p < stop" for p
    using chunk_of(2) [OF layout, of p c] d [OF that] that assms(3,4) by linarith
  then have "{off..<stop} \<inter> ?R = (if c = off div unat chunk then {off..<stop} else {})"
    by (cases "c = off div unat chunk") auto
  then have "card ({off..<stop} \<inter> ?R) = (if c = off div unat chunk then stop - off else 0)" by simp
  moreover have "{off..<fin} \<inter> ?R = ({off..<stop} \<inter> ?R) \<union> ({stop..<fin} \<inter> ?R)"
    using assms(2,3) by auto
  moreover have "card (({off..<stop} \<inter> ?R) \<union> ({stop..<fin} \<inter> ?R)) =
      card ({off..<stop} \<inter> ?R) + card ({stop..<fin} \<inter> ?R)"
    by (rule card_Un_disjoint) auto
  ultimately show ?thesis by simp
qed

lemma count_chunks_returns:
  assumes layout: "chunk_layout total_bytes chunk nchunks" and "unat fin \<le> unat total_bytes"
  shows "unat off \<le> unat fin \<Longrightarrow> length cs = unat nchunks \<Longrightarrow>
    \<exists>cs'. count_chunks chunk nchunks off fin cs = Some cs' \<and> length cs' = unat nchunks \<and>
      (\<forall>c < unat nchunks. cs' ! c =
         cs ! c + of_nat (card ({unat off..<unat fin} \<inter> chunk_range total_bytes chunk c)))"
proof (induction "unat fin - unat off" arbitrary: off cs rule: less_induct)
  case less
  show ?case
  proof (cases "off < fin")
    case False
    then have "unat off = unat fin" using less.prems by (simp add: word_less_nat_alt)
    then show ?thesis using False less.prems by (subst count_chunks.simps) simp
  next
    case True
    define q where "q = unat off div unat chunk"
    define stop where "stop = min fin ((of_nat q + 1) * chunk)"
    have lt: "unat off < unat fin" using True by (simp add: word_less_nat_alt)
    note q = chunk_div [OF layout, of "unat off" off q, OF _ refl q_def]
    have q': "off div chunk = of_nat q" "q < unat nchunks" "unat off < Suc q * unat chunk" "unat (of_nat q :: u64) = q"
      using q lt assms(2) by simp_all
    have st: "unat stop = min (unat fin) (Suc q * unat chunk)"
      using chunk_words(2) [OF layout q'(2)] by (simp add: stop_def min_def word_le_nat_alt)
    have s: "unat off < unat stop" "unat stop \<le> unat fin" using lt q'(3) st by auto
    let ?cs = "cs[q := cs ! q + (stop - off)]"
    have "unat fin - unat stop < unat fin - unat off" "length ?cs = unat nchunks"
      using s less.prems(2) by simp_all
    from less.hyps [OF this(1) s(2) this(2)] obtain cs' where r:
      "count_chunks chunk nchunks stop fin ?cs = Some cs'" "length cs' = unat nchunks"
      "\<forall>c < unat nchunks. cs' ! c =
         ?cs ! c + of_nat (card ({unat stop..<unat fin} \<inter> chunk_range total_bytes chunk c))" by blast
    have "count_chunks chunk nchunks off fin cs = Some cs'"
      using True r(1) q' by (subst count_chunks.simps) (simp add: Let_def stop_def word_less_nat_alt)
    moreover have "(stop - off :: u64) = of_nat (unat stop - unat off)"
      using s by (simp add: of_nat_diff)
    then have "cs' ! c = cs ! c + of_nat (card ({unat off..<unat fin} \<inter> chunk_range total_bytes chunk c))"
      if "c < unat nchunks" for c
      using split_at_chunk [OF layout s assms(2), of c] st r(3) that less.prems(2)
      by (simp add: q_def [symmetric])
    ultimately show ?thesis using r(2) by blast
  qed
qed

section \<open>What a sink has\<close>

definition trailer_len :: "FileSink \<Rightarrow> nat" where
  "trailer_len s = unat (bitmap_bytes (fs_nchunks s)) + kFooterLen"

definition fs_layout :: "FileSink \<Rightarrow> bool" where
  "fs_layout s \<longleftrightarrow>
     fs_total s \<le> 0x7FFFFFFFFFFFFFFF \<and> fs_chunk s = pick_chunk (fs_total s) (64 * 1024) \<and>
     fs_nchunks s = (fs_total s + fs_chunk s - 1) div fs_chunk s"

abbreviation fs_range :: "FileSink \<Rightarrow> nat \<Rightarrow> nat set" where
  "fs_range s \<equiv> chunk_range (fs_total s) (fs_chunk s)"

text \<open>
  The invariant of a prepared sink: of the file \<open>src\<close> it has the positions \<open>W\<close>, and the counter of
  each chunk is the number of its positions in \<open>W\<close>.
\<close>

definition fs_good :: "byte list \<Rightarrow> nat set \<Rightarrow> FileSink \<Rightarrow> bool" where
  "fs_good src W s \<longleftrightarrow>
     fs_prepared s \<and> fs_open s \<and> fs_part s \<noteq> None \<and> fs_layout s \<and> length src = unat (fs_total s) \<and>
     length src \<le> length (fs_disk s) \<and> length (fs_disk s) \<le> length src + trailer_len s \<and>
     W \<subseteq> {..<length src} \<and> (\<forall>p \<in> W. fs_disk s ! p = src ! p) \<and>
     length (fs_counters s) = unat (fs_nchunks s) \<and>
     (\<forall>c < unat (fs_nchunks s). fs_counters s ! c = of_nat (card (W \<inter> fs_range s c)))"

lemma layout_chunks: "fs_layout s \<Longrightarrow> chunk_layout (fs_total s) (fs_chunk s) (fs_nchunks s)"
  using pick_chunk_bounds [of "64 * 1024" "fs_total s"]
  by (simp add: fs_layout_def chunk_layout_def word_le_nat_alt)

lemma fs_disk_update [simp]: "fs_disk (s\<lparr>fs_part := Some f\<rparr>) = f"
  by (simp add: fs_disk_def)

lemma fs_static [simp]:
  "fs_layout (s\<lparr>fs_part := x\<rparr>) = fs_layout s" "fs_layout (s\<lparr>fs_counters := y\<rparr>) = fs_layout s"
  "trailer_len (s\<lparr>fs_part := x\<rparr>) = trailer_len s" "trailer_len (s\<lparr>fs_counters := y\<rparr>) = trailer_len s"
  "fs_disk (s\<lparr>fs_counters := y\<rparr>) = fs_disk s"
  by (simp_all add: fs_layout_def trailer_len_def fs_disk_def)

lemma finite_good: "fs_good src W s \<Longrightarrow> finite W"
  by (auto simp: fs_good_def intro: finite_subset)

lemma pwrite_at_slice:
  assumes "off + n \<le> length src" "length src \<le> length f"
  shows "length (pwrite_at off (take n (drop off src)) f) = length f"
    "p < length f \<Longrightarrow> pwrite_at off (take n (drop off src)) f ! p =
        (if off \<le> p \<and> p < off + n then src ! p else f ! p)"
  using assms by (auto simp: length_pwrite_at nth_pwrite_at)

lemma fs_write_flat:
  "fs_write ans off iov s =
     do {
       (ok, f) \<leftarrow> pwrite_all (concat iov) (unat off) ans (fs_disk s);
       if \<not> ok then Some (False, s\<lparr>fs_part := Some f\<rparr>)
       else do {
         counters \<leftarrow> count_chunks (fs_chunk s) (fs_nchunks s) off (off + of_nat (length (concat iov))) (fs_counters s);
         Some (True, s\<lparr>fs_part := Some f, fs_counters := counters\<rparr>)
       }
     }"
  by (cases "pwrite_all (concat iov) (unat off) ans (fs_disk s)")
     (auto simp: fs_write_def Let_def pwritev_loop_flat)

lemma fs_write_good:
  assumes good: "fs_good src W s" and iov: "concat iov = take n (drop (unat off) src)"
    and fits: "unat off + n \<le> length src" and new: "{unat off..<unat off + n} \<inter> W = {}"
    and w: "fs_write ans off iov s = Some (ok, s')"
  shows "fs_good src (if ok then W \<union> {unat off..<unat off + n} else W) s'"
proof -
  let ?A = "{unat off..<unat off + n}"
  note g = good [unfolded fs_good_def]
  have layout: "chunk_layout (fs_total s) (fs_chunk s) (fs_nchunks s)" using g layout_chunks by blast
  have len: "length (concat iov) = n" using iov fits by simp
  from w obtain f where l: "pwrite_all (concat iov) (unat off) ans (fs_disk s) = Some (ok, f)"
    by (auto simp: fs_write_flat split: Option.bind_splits if_splits)
  from pwrite_all_result [OF l] obtain k where
    k: "f = pwrite_at (unat off) (take k (concat iov)) (fs_disk s)" "ok \<longrightarrow> n \<le> k" using len by auto
  have f: "f = pwrite_at (unat off) (take (min k n) (drop (unat off) src)) (fs_disk s)"
    using k(1) iov by (simp add: min.commute)
  have sl: "unat off + min k n \<le> length src" "length src \<le> length (fs_disk s)" using fits g by auto
  have fl: "length f = length (fs_disk s)"
    and fp: "\<And>p. p < length (fs_disk s) \<Longrightarrow> f ! p = (if unat off \<le> p \<and> p < unat off + min k n then src ! p else fs_disk s ! p)"
    unfolding f by (rule pwrite_at_slice [OF sl])+
  have keep: "\<forall>p \<in> W. f ! p = src ! p"
  proof
    fix p assume p: "p \<in> W"
    then have "p < length (fs_disk s)" using g by auto
    from fp [OF this] p g show "f ! p = src ! p" by simp
  qed
  show ?thesis
  proof (cases ok)
    case False
    then have "s' = s\<lparr>fs_part := Some f\<rparr>"
      using w l by (simp add: fs_write_flat)
    then show ?thesis using g keep fl False by (auto simp: fs_good_def)
  next
    case True
    have "n < 2 ^ 64" using fits g unat_u64_less [of "fs_total s"] by simp
    then have e: "unat (off + of_nat n) = unat off + n"
      using fits g unat_u64_less [of "fs_total s"] by (intro unat_add_lt) simp
    then have "unat (off + of_nat n) \<le> unat (fs_total s)" using fits g by simp
    from count_chunks_returns [OF layout this, of off "fs_counters s"] e g obtain cs where
      cs: "count_chunks (fs_chunk s) (fs_nchunks s) off (off + of_nat n) (fs_counters s) = Some cs"
      "length cs = unat (fs_nchunks s)"
      "\<forall>c < unat (fs_nchunks s). cs ! c = fs_counters s ! c + of_nat (card (?A \<inter> fs_range s c))" by auto
    have s': "s' = s\<lparr>fs_part := Some f, fs_counters := cs\<rparr>"
      using w l cs(1) True unfolding fs_write_flat len by simp
    have "card ((W \<union> ?A) \<inter> R) = card (W \<inter> R) + card (?A \<inter> R)" for R
      using new finite_good [OF good] by (subst card_Un_disjoint [symmetric]) (auto simp: Int_Un_distrib2)
    then have "\<forall>c < unat (fs_nchunks s). cs ! c = of_nat (card ((W \<union> ?A) \<inter> fs_range s c))"
      using cs(3) g by simp
    moreover have "f ! p = src ! p" if "p \<in> ?A" for p
      using fp [of p] that k(2) True fits g by simp
    then have "\<forall>p \<in> W \<union> ?A. f ! p = src ! p" using keep by blast
    ultimately show ?thesis
      using g fl cs(2) True fits by (auto simp: s' fs_good_def)
  qed
qed

end
