(* ===== verification/File_Resume.thy ===== *)
theory File_Resume
  imports File_Sink Bits
begin

text \<open>
  Resuming a partial file (\<^verbatim>\<open>FileSink\<close> of \<^verbatim>\<open>src/src/proto/transfer.cpp\<close>): the trailer that a checkpoint
  writes is read back by the next session, the chunks it marks are exactly the complete ones, and
  what the next session does not ask for is already on disk.
\<close>

section \<open>The bitmap\<close>

lemma length_mark: "length (foldl (mark_chunk s) t is) = length t"
  by (induction "is" arbitrary: t) (auto simp: mark_chunk_def)

lemma bit_byte_power: "bit ((2 :: byte) ^ (n mod 8)) k \<longleftrightarrow> k = n mod 8"
  by (auto simp: bit_exp_iff)

lemma bit_mark:
  assumes "m div 8 < length t" "i div 8 < length t"
  shows "bit (mark_chunk s t i ! (m div 8)) (m mod 8) \<longleftrightarrow>
           bit (t ! (m div 8)) (m mod 8) \<or> (m = i \<and> chunk_complete s i)"
proof -
  have "m = i \<longleftrightarrow> m div 8 = i div 8 \<and> m mod 8 = i mod 8" by (metis div_mod_decomp)
  then show ?thesis
    using assms by (auto simp: mark_chunk_def nth_list_update bit_or_iff bit_byte_power)
qed

lemma bit_marks:
  assumes "N \<le> length t * 8" "n \<le> N" "m < N"
  shows "bit (foldl (mark_chunk s) t [0..<n] ! (m div 8)) (m mod 8) \<longleftrightarrow>
           bit (t ! (m div 8)) (m mod 8) \<or> (m < n \<and> chunk_complete s m)"
  using assms(2)
proof (induction n)
  case (Suc n)
  have "m div 8 < length t" "n div 8 < length t"
    using assms(1,3) Suc.prems by (simp_all add: div_less_iff_less_mult)
  then show ?case
    using Suc bit_mark [of m "foldl (mark_chunk s) t [0..<n]" n s] by (auto simp: length_mark less_Suc_eq)
qed simp

lemma bitmap_bytes_nat:
  assumes "unat nchunks < 2 ^ 63"
  shows "unat (bitmap_bytes nchunks) = (unat nchunks + 7) div 8"
  using assms by (simp add: bitmap_bytes_def unat_div unat_word_ariths)

lemma layout_nchunks:
  assumes "chunk_layout total_bytes chunk nchunks"
  shows "unat nchunks < 2 ^ 63"
proof -
  note l = layout_nat [OF assms]
  have "unat nchunks \<le> unat total_bytes"
  proof (cases "unat nchunks")
    case (Suc c)
    then have "c * unat chunk < unat total_bytes" using chunk_start [OF assms, of c] by simp
    moreover have "c \<le> c * unat chunk" using l(1) by simp
    ultimately show ?thesis using Suc by linarith
  qed simp
  then show ?thesis using l(3) by simp
qed

lemma chunk_bitmap_bits:
  assumes "fs_layout s"
  shows "length (chunk_bitmap s) = unat (bitmap_bytes (fs_nchunks s))"
    "m < unat (fs_nchunks s) \<Longrightarrow> bit (chunk_bitmap s ! (m div 8)) (m mod 8) \<longleftrightarrow> chunk_complete s m"
proof -
  show "length (chunk_bitmap s) = unat (bitmap_bytes (fs_nchunks s))"
    by (simp add: chunk_bitmap_def length_mark)
  let ?z = "replicate (unat (bitmap_bytes (fs_nchunks s))) (0 :: byte)"
  have "unat (fs_nchunks s) \<le> length ?z * 8"
    using bitmap_bytes_nat [OF layout_nchunks [OF layout_chunks [OF assms]]] by simp
  moreover assume m: "m < unat (fs_nchunks s)"
  ultimately show "bit (chunk_bitmap s ! (m div 8)) (m mod 8) \<longleftrightarrow> chunk_complete s m"
    using bit_marks [of "unat (fs_nchunks s)" ?z "unat (fs_nchunks s)" m s]
    by (simp add: chunk_bitmap_def div_less_iff_less_mult)
qed

section \<open>The trailer\<close>

lemma length_trailer: "fs_layout s \<Longrightarrow> length (trailer s) = trailer_len s"
  by (simp add: trailer_def Let_def trailer_len_def chunk_bitmap_bits(1) wire_len kMagic_def ascii_def)

definition prior_of :: "FileSink \<Rightarrow> prior_copy" where
  "prior_of s = \<lparr>pr_valid = True, pr_file_id = fs_file_id s, pr_total = fs_total s, pr_chunk = fs_chunk s,
     pr_nchunks = fs_nchunks s, pr_bitmap = chunk_bitmap s\<rparr>"

lemma trailer_round_trip:
  assumes layout: "fs_layout s" and "length data = unat (fs_total s)"
  shows "trailer_prior (data @ trailer s) = Some (prior_of s)"
proof -
  note cl = layout_chunks [OF layout]
  note ln = layout_nat [OF cl]
  let ?b = "chunk_bitmap s" and ?bl = "unat (bitmap_bytes (fs_nchunks s))"
  define ids where "ids = put_u64 (fs_file_id s) @ put_u64 (fs_total s) @ put_u64 (fs_chunk s) @ put_u64 (fs_nchunks s)"
  define foot where "foot = ids @ put_u64 (hash64 (?b @ ids)) @ kMagic"
  have bl: "length ?b = ?bl" "?bl < 2 ^ 61"
    using chunk_bitmap_bits(1) [OF layout] bitmap_bytes_nat [OF layout_nchunks [OF cl]] layout_nchunks [OF cl] by auto
  have lens: "length ids = 32" "length kMagic = 8" by (simp_all add: ids_def wire_len kMagic_def ascii_def)
  have f: "data @ trailer s = data @ ?b @ foot" "length foot = 48"
    using lens by (simp_all add: trailer_def Let_def foot_def ids_def wire_len)
  define F where "F = data @ ?b @ foot"
  have size: "(of_nat (length F) :: u64) = fs_total s + bitmap_bytes (fs_nchunks s) + 48" "\<not> length F < 48"
    using assms(2) bl(1) f(2) by (simp_all add: F_def)
  have "unat (fs_total s + bitmap_bytes (fs_nchunks s) + 48) = unat (fs_total s) + ?bl + 48"
    using ln(3) bl(2) by (simp add: unat_word_ariths)
  then have le: "\<not> fs_total s + bitmap_bytes (fs_nchunks s) + 48 < fs_total s" by (simp add: word_less_nat_alt)
  have d: "drop (length F - 48) F = foot" "take ?bl (drop (unat (fs_total s)) F) = ?b"
    using f(2) bl(1) assms(2) by (simp_all add: F_def)
  have d': "drop 40 foot = kMagic" "take 32 foot = ids"
    using lens by (simp_all add: foot_def wire_len)
  have g: "get_u64 foot 0 = Some (fs_file_id s)" "get_u64 foot 8 = Some (fs_total s)"
    "get_u64 foot 16 = Some (fs_chunk s)" "get_u64 foot 24 = Some (fs_nchunks s)"
    "get_u64 foot 32 = Some (hash64 (?b @ ids))"
    by (simp_all add: foot_def ids_def wire_simps wire_len)
  have n: "fs_chunk s \<noteq> 0" "(fs_total s + fs_chunk s - 1) div fs_chunk s = fs_nchunks s"
    using cl by (auto simp: chunk_layout_def)
  have "trailer_prior F = Some (prior_of s)"
    by (simp add: trailer_prior_def Let_def size d d' g n le bl(1) prior_of_def)
  then show ?thesis using f(1) by (simp add: F_def)
qed

section \<open>Checkpoints\<close>

lemma trailer_update [simp]: "trailer (s\<lparr>fs_part := x\<rparr>) = trailer s"
proof -
  have "mark_chunk (s\<lparr>fs_part := x\<rparr>) = mark_chunk s"
    by (simp add: mark_chunk_def chunk_complete_def fun_eq_iff)
  then show ?thesis by (simp add: trailer_def chunk_bitmap_def)
qed

lemma pwrite_trailer:
  assumes "T \<le> length f" "length f \<le> T + length t" "t \<noteq> []"
  shows "pwrite_at T t f = take T f @ t"
  using assms by (simp add: pwrite_at_def)

lemma fs_checkpoint_good:
  assumes good: "fs_good src W s" and c: "fs_checkpoint sync_ok ans s = Some s'"
  shows "fs_good src W s'"
proof -
  note g = good [unfolded fs_good_def]
  have id: ?thesis if "s' = s" using that good by simp
  show ?thesis
  proof (cases "fs_file_id s = 0 \<or> \<not> sync_ok")
    case True
    then show ?thesis using c id by (auto simp: fs_checkpoint_def split: if_splits)
  next
    case False
    then obtain ok f where f: "pwrite_all (trailer s) (unat (fs_total s)) ans (fs_disk s) = Some (ok, f)"
      and s': "s' = s\<lparr>fs_part := Some f\<rparr>" using c g by (auto simp: fs_checkpoint_def split: if_splits)
    from pwrite_all_result [OF f] obtain k where k:
      "f = pwrite_at (unat (fs_total s)) (take k (trailer s)) (fs_disk s)" by blast
    have len: "length f \<le> length src + trailer_len s" "length src \<le> length f"
      using g length_trailer [of s] by (auto simp: k length_pwrite_at)
    have "f ! p = fs_disk s ! p" if "p < length src" for p
      using that g by (auto simp: k pwrite_at_def nth_append)
    then show ?thesis using g len by (auto simp: s' fs_good_def subset_iff)
  qed
qed

lemma fs_checkpoint_writes:
  assumes good: "fs_good src W s" and "fs_file_id s \<noteq> 0" and "progresses ans (trailer_len s)"
  shows "fs_checkpoint True ans s = Some (s\<lparr>fs_part := Some (take (length src) (fs_disk s) @ trailer s)\<rparr>)"
proof -
  note g = good [unfolded fs_good_def]
  have len: "length (trailer s) = trailer_len s" using g length_trailer by blast
  then have "trailer s \<noteq> []" by (auto simp: trailer_len_def)
  with g len have "pwrite_at (unat (fs_total s)) (trailer s) (fs_disk s) = take (length src) (fs_disk s) @ trailer s"
    by (subst pwrite_trailer) auto
  then show ?thesis
    using pwrite_all_completes [of ans "trailer s"] assms(2,3) g len by (simp add: fs_checkpoint_def)
qed

section \<open>Preparing\<close>

lemma prepare_fields:
  assumes "fs_prepare alloc_ok trunc_ok total_bytes file_id s = (True, s')"
  shows "fs_layout s'" "fs_total s' = total_bytes" "fs_file_id s' = file_id" "fs_prepared s'"
    "fs_open s' = fs_open s" "fs_path s' = fs_path s" "total_bytes \<le> 0x7FFFFFFFFFFFFFFF"
  using assms by (auto simp: fs_prepare_def fs_layout_def Let_def split: if_splits)

text \<open>A fresh file: nothing is held yet.\<close>

lemma fs_prepare_fresh:
  assumes p: "fs_prepare alloc_ok trunc_ok total_bytes file_id s = (True, s')"
    and "fs_open s" "\<not> fs_resumed s'" "length src = unat total_bytes"
  shows "fs_good src {} s'"
proof -
  have "fs_part s' = Some (ftruncate (unat total_bytes) (ftruncate 0 (fs_disk s)))"
    "fs_counters s' = replicate (unat (fs_nchunks s')) 0"
    using p assms(3) by (auto simp: fs_prepare_def Let_def split: if_splits)
  then show ?thesis
    using prepare_fields [OF p] assms(2,4) by (simp add: fs_good_def fs_disk_def ftruncate_def)
qed

text \<open>The same file again: the chunks marked in the trailer are held, the rest are empty.\<close>

definition held_bytes :: "FileSink \<Rightarrow> nat set" where
  "held_bytes s = (\<Union>c \<in> {c. c < unat (fs_nchunks s) \<and> chunk_complete s c}. fs_range s c)"

lemma fs_prepare_resume:
  assumes layout: "fs_layout s" and "fs_file_id s \<noteq> 0" "fs_prior r = prior_of s" "\<not> fs_resumed r"
  shows "\<exists>r'. fs_prepare True trunc_ok (fs_total s) (fs_file_id s) r = (True, r') \<and> fs_resumed r' \<and>
    fs_layout r' \<and> fs_total r' = fs_total s \<and> fs_chunk r' = fs_chunk s \<and> fs_nchunks r' = fs_nchunks s \<and>
    fs_part r' = fs_part r \<and> fs_prepared r' \<and> fs_open r' = fs_open r \<and>
    fs_counters r' = map (\<lambda>i. if chunk_complete s i then chunk_len (of_nat i) (fs_chunk s) (fs_total s) else 0)
      [0..<unat (fs_nchunks s)]"
proof -
  have l: "\<not> fs_total s > 0x7FFFFFFFFFFFFFFF" "pick_chunk (fs_total s) 65536 = fs_chunk s"
    "(fs_total s + fs_chunk s - 1) div fs_chunk s = fs_nchunks s"
    using layout by (simp_all add: fs_layout_def not_less)
  have "map (\<lambda>i. if bit (chunk_bitmap s ! (i div 8)) (i mod 8) then chunk_len (of_nat i) (fs_chunk s) (fs_total s) else 0)
        [0..<unat (fs_nchunks s)] =
      map (\<lambda>i. if chunk_complete s i then chunk_len (of_nat i) (fs_chunk s) (fs_total s) else 0) [0..<unat (fs_nchunks s)]"
    using chunk_bitmap_bits(2) [OF layout] by (intro map_cong) auto
  then show ?thesis
    using assms l by (simp add: fs_prepare_def Let_def prior_of_def fs_layout_def)
qed

section \<open>What is missing\<close>

lemma ranges_ok_snoc:
  "ranges_ok lo hi (xs @ [r]) \<longleftrightarrow>
     ranges_ok lo (unat (fst r)) xs \<and> 0 < unat (snd r) \<and> unat (fst r) + unat (snd r) \<le> hi"
  by (induction xs arbitrary: lo) auto

lemma bytes_of_snoc: "bytes_of (xs @ [r]) = bytes_of xs \<union> {unat (fst r)..<unat (fst r) + unat (snd r)}"
  by (auto simp: bytes_of_def)

lemma ranges_ok_upper: "ranges_ok lo hi xs \<Longrightarrow> hi \<le> hi' \<Longrightarrow> ranges_ok lo hi' xs"
  by (induction xs arbitrary: lo) auto

text \<open>One more range at the end, merged into the last one when they touch.\<close>

lemma extend_ranges:
  assumes "ranges_ok lo hi out" "hi \<le> unat a" "unat a < unat b" "unat b < 2 ^ 63"
  defines "out' \<equiv> (if out \<noteq> [] \<and> fst (last out) + snd (last out) = a
                 then butlast out @ [(fst (last out), snd (last out) + (b - a))] else out @ [(a, b - a)])"
  shows "ranges_ok lo (unat b) out' \<and> bytes_of out' = bytes_of out \<union> {unat a..<unat b}"
proof (cases "out \<noteq> [] \<and> fst (last out) + snd (last out) = a")
  case False
  have "unat (b - a) = unat b - unat a" using assms(3) by (simp add: unat_sub word_le_nat_alt)
  with False show ?thesis
    using assms(1-3) by (auto simp: out'_def ranges_ok_snoc bytes_of_snoc intro: ranges_ok_upper)
next
  case True
  then obtain xs x l where out: "out = xs @ [(x, l)]" by (metis append_butlast_last_id surj_pair)
  have ok: "ranges_ok lo (unat x) xs" "0 < unat l" "unat x + unat l \<le> hi"
    using assms(1) by (simp_all add: out ranges_ok_snoc)
  have d: "unat (b - a) = unat b - unat a" using assms(3) by (simp add: unat_sub word_le_nat_alt)
  have e: "unat x + unat l = unat a"
    using True ok(3) assms(2-4) by (auto simp: out unat_word_ariths)
  have "unat (l + (b - a)) = unat l + (unat b - unat a)"
    using d e assms(3,4) by (subst unat_add_lem [THEN iffD1]) simp_all
  then have n: "unat x + unat (l + (b - a)) = unat b" "0 < unat (l + (b - a))" using e ok(2) assms(3) by simp_all
  have "{unat x..<unat x + unat l} \<union> {unat a..<unat b} = {unat x..<unat b}" using e assms(3) by auto
  then show ?thesis
    using True ok n by (simp add: out'_def out ranges_ok_snoc bytes_of_snoc Un_assoc)
qed

lemma missing_step:
  assumes layout: "fs_layout s" and be: "unat beg < unat fin" "unat fin \<le> unat (fs_total s)"
    and c: "unat beg div unat (fs_chunk s) \<le> c" "c \<le> (unat fin - 1) div unat (fs_chunk s)"
    and ok: "ranges_ok (unat beg) (max (unat beg) (min (unat fin) (c * unat (fs_chunk s)))) out"
  shows "ranges_ok (unat beg) (max (unat beg) (min (unat fin) (Suc c * unat (fs_chunk s)))) (missing_chunk beg fin s out c) \<and>
         bytes_of (missing_chunk beg fin s out c) =
           bytes_of out \<union> (if chunk_complete s c then {} else fs_range s c \<inter> {unat beg..<unat fin})"
proof (cases "chunk_complete s c")
  case True
  have "max (unat beg) (min (unat fin) (c * unat (fs_chunk s))) \<le> max (unat beg) (min (unat fin) (Suc c * unat (fs_chunk s)))"
    by (intro max.mono min.mono) auto
  then show ?thesis using ok True ranges_ok_upper by (simp add: missing_chunk_def)
next
  case False
  note cl = layout_chunks [OF layout]
  let ?C = "unat (fs_chunk s)"
  note pos = layout_nat(1) [OF cl] and T = layout_nat(3) [OF cl]
  have "c * ?C \<le> (unat fin - 1) div ?C * ?C" using c(2) by (rule mult_le_mono1)
  also have "\<dots> \<le> unat fin - 1" by (rule div_times_less_eq_dividend)
  finally have cf: "c * ?C < unat fin" using be by linarith
  have "unat fin - 1 < unat (fs_total s)" using be by linarith
  from chunk_of(1) [OF cl this] c(2) have cn: "c < unat (fs_nchunks s)" by linarith
  have "unat beg < Suc (unat beg div ?C) * ?C" using dividend_less_div_times [OF pos, of "unat beg"] by simp
  also have "\<dots> \<le> Suc c * ?C" using c(1) by (intro mult_le_mono1) simp
  finally have bc: "unat beg < Suc c * ?C" .
  define a where "a = max beg (of_nat c * fs_chunk s)"
  define b where "b = min fin (min (fs_total s) ((of_nat c + 1) * fs_chunk s))"
  note w = chunk_words [OF cl cn]
  have a: "unat a = max (unat beg) (c * ?C)" using w(1) by (simp add: a_def max_def word_le_nat_alt)
  have b: "unat b = min (unat fin) (Suc c * ?C)"
    using w(2) be(2) by (auto simp: b_def min_def word_le_nat_alt)
  have ab: "unat a < unat b" using a b be cf bc pos by auto
  have "max (unat beg) (min (unat fin) (c * ?C)) \<le> unat a" using a cf by simp
  from extend_ranges [OF ok this ab] b be T
  have e: "ranges_ok (unat beg) (unat b) (missing_chunk beg fin s out c)"
    "bytes_of (missing_chunk beg fin s out c) = bytes_of out \<union> {unat a..<unat b}"
    using False by (simp_all add: missing_chunk_def Let_def a_def [symmetric] b_def [symmetric])
  moreover have "max (unat beg) (min (unat fin) (Suc c * ?C)) = unat b" using b bc be by simp
  moreover have "{unat a..<unat b} = fs_range s c \<inter> {unat beg..<unat fin}"
    using a b be by (auto simp: chunk_range_def)
  ultimately show ?thesis using False by simp
qed

lemma missing_fold:
  assumes layout: "fs_layout s" and be: "unat beg < unat fin" "unat fin \<le> unat (fs_total s)"
    and n: "unat beg div unat (fs_chunk s) \<le> n" "n \<le> Suc ((unat fin - 1) div unat (fs_chunk s))"
  defines "out \<equiv> foldl (missing_chunk beg fin s) [] [unat beg div unat (fs_chunk s)..<n]"
  shows "ranges_ok (unat beg) (max (unat beg) (min (unat fin) (n * unat (fs_chunk s)))) out \<and>
         bytes_of out = (\<Union>c \<in> {c. unat beg div unat (fs_chunk s) \<le> c \<and> c < n \<and> \<not> chunk_complete s c}.
           fs_range s c \<inter> {unat beg..<unat fin})"
  unfolding out_def using n
proof (induction n rule: dec_induct)
  case base
  show ?case by auto
next
  case (step c)
  let ?lo = "unat beg div unat (fs_chunk s)"
  let ?out = "foldl (missing_chunk beg fin s) [] [?lo..<c]"
  have ih: "ranges_ok (unat beg) (max (unat beg) (min (unat fin) (c * unat (fs_chunk s)))) ?out"
    "bytes_of ?out = (\<Union>c \<in> {d. ?lo \<le> d \<and> d < c \<and> \<not> chunk_complete s d}. fs_range s c \<inter> {unat beg..<unat fin})"
    using step by auto
  have "{d. ?lo \<le> d \<and> d < Suc c \<and> \<not> chunk_complete s d} =
      {d. ?lo \<le> d \<and> d < c \<and> \<not> chunk_complete s d} \<union> (if chunk_complete s c then {} else {c})"
    using step.hyps by (auto simp: less_Suc_eq)
  then show ?case
    using missing_step [OF layout be, of c ?out] ih step
    by (simp add: upt_Suc_append Un_commute) blast
qed

lemma fs_missing_exact:
  assumes layout: "fs_layout s" and "fs_resumed s" and be: "unat beg < unat fin" "unat fin \<le> unat (fs_total s)"
  shows "ranges_ok (unat beg) (unat fin) (fs_missing beg fin s) \<and>
         bytes_of (fs_missing beg fin s) = {unat beg..<unat fin} - held_bytes s"
proof -
  note cl = layout_chunks [OF layout]
  let ?C = "unat (fs_chunk s)"
  let ?lo = "unat beg div ?C" and ?up = "Suc ((unat fin - 1) div ?C)"
  have pf: "unat fin - 1 < unat (fs_total s)" using be by linarith
  have f1: "unat (fin - 1) = unat fin - 1"
    using be(1) by (intro unat_minus_one) auto
  have up: "min ?up (unat (fs_nchunks s)) = ?up" using chunk_of(1) [OF cl pf] by simp
  have lu: "?lo \<le> ?up" using be by (intro le_SucI div_le_mono) simp
  have m: "fs_missing beg fin s = foldl (missing_chunk beg fin s) [] [?lo..<?up]"
    using assms(2) be(1) up by (simp add: fs_missing_def word_le_nat_alt not_le unat_div f1 not_less)
  note fold = missing_fold [OF layout be lu order_refl, folded m]
  have e: "max (unat beg) (min (unat fin) (?up * ?C)) \<le> unat fin" using be by simp
  have "(\<Union>c \<in> {c. ?lo \<le> c \<and> c < ?up \<and> \<not> chunk_complete s c}. fs_range s c \<inter> {unat beg..<unat fin}) =
      {unat beg..<unat fin} - held_bytes s" (is "?miss = ?rest")
  proof (intro equalityI subsetI)
    fix p assume "p \<in> ?miss"
    then obtain c where c: "\<not> chunk_complete s c" "p \<in> fs_range s c" "p \<in> {unat beg..<unat fin}" by auto
    then have "c = p div ?C" using chunk_of(2) [OF cl, of p c] be by auto
    then show "p \<in> ?rest" using c chunk_of(2) [OF cl, of p] be by (auto simp: held_bytes_def)
  next
    fix p assume p: "p \<in> ?rest"
    then have pt: "p < unat (fs_total s)" using be by auto
    let ?c = "p div ?C"
    have "?lo \<le> ?c" "?c < ?up" using p by (auto intro!: div_le_mono le_imp_less_Suc)
    moreover have r: "p \<in> fs_range s ?c" "?c < unat (fs_nchunks s)" using chunk_of [OF cl pt] by auto
    moreover have "\<not> chunk_complete s ?c" using p r by (auto simp: held_bytes_def)
    ultimately show "p \<in> ?miss" using p by blast
  qed
  with fold ranges_ok_upper [OF _ e] show ?thesis by simp
qed

text \<open>A complete chunk has all its bytes.\<close>

lemma held_bytes_subset:
  assumes good: "fs_good src W s"
  shows "held_bytes s \<subseteq> W"
proof
  note g = good [unfolded fs_good_def]
  have cl: "chunk_layout (fs_total s) (fs_chunk s) (fs_nchunks s)" using g layout_chunks by blast
  fix p assume "p \<in> held_bytes s"
  then obtain c where c: "c < unat (fs_nchunks s)" "chunk_complete s c" "p \<in> fs_range s c"
    by (auto simp: held_bytes_def)
  let ?R = "fs_range s c"
  have fin: "finite ?R" by (simp add: chunk_range_def)
  have "card (W \<inter> ?R) \<le> card ?R" by (rule card_mono [OF fin]) auto
  also have "\<dots> = unat (chunk_len (of_nat c) (fs_chunk s) (fs_total s))" using chunk_words(3) [OF cl c(1)] by simp
  finally have "card (W \<inter> ?R) < 2 ^ 64" using unat_u64_less le_less_trans by blast
  then have "unat (fs_counters s ! c) = card (W \<inter> ?R)" using g c(1) by (simp add: unat_of_nat)
  then have "card ?R \<le> card (W \<inter> ?R)"
    using c(2) chunk_words(3) [OF cl c(1)] by (simp add: chunk_complete_def word_le_nat_alt)
  then have "W \<inter> ?R = ?R" using fin by (intro card_seteq) auto
  then show "p \<in> W" using c(3) by auto
qed

lemma chunk_nonempty:
  assumes "chunk_layout total_bytes chunk nchunks" "c < unat nchunks"
  shows "0 < card (chunk_range total_bytes chunk c)"
  using chunk_start [OF assms] layout_nat(1) [OF assms(1)] by (simp add: chunk_range_def)

lemma held_in_chunk:
  assumes layout: "fs_layout s" and "c < unat (fs_nchunks s)"
  shows "held_bytes s \<inter> fs_range s c = (if chunk_complete s c then fs_range s c else {})"
proof -
  note cl = layout_chunks [OF layout]
  have "d = c" if "p \<in> fs_range s d" "p \<in> fs_range s c" for p d
  proof -
    have "p < unat (fs_total s)" using that by (simp add: chunk_range_def)
    then show ?thesis using that chunk_of(2) [OF cl] by metis
  qed
  then show ?thesis using assms(2) by (auto simp: held_bytes_def)
qed

lemma resumed_good:
  assumes good: "fs_good src W s" and "fs_file_id s \<noteq> 0" "fs_prior r = prior_of s" "\<not> fs_resumed r" "fs_open r"
    and part: "fs_part r = Some (take (length src) (fs_disk s) @ trailer s)"
    and p: "fs_prepare True trunc_ok (fs_total s) (fs_file_id s) r = (True, r')"
  shows "fs_resumed r'" "fs_good src (held_bytes s) r'" "held_bytes r' = held_bytes s"
proof -
  note g = good [unfolded fs_good_def]
  have layout: "fs_layout s" using g by blast
  note cl = layout_chunks [OF layout]
  from fs_prepare_resume [OF layout assms(2-4), of trunc_ok] p
  have f: "fs_resumed r'" "fs_layout r'" "fs_total r' = fs_total s" "fs_chunk r' = fs_chunk s"
    "fs_nchunks r' = fs_nchunks s" "fs_part r' = fs_part r" "fs_prepared r'" "fs_open r' = fs_open r"
    "fs_counters r' = map (\<lambda>i. if chunk_complete s i then chunk_len (of_nat i) (fs_chunk s) (fs_total s) else 0)
      [0..<unat (fs_nchunks s)]" by auto
  show "fs_resumed r'" by fact
  have d: "fs_disk r' = take (length src) (fs_disk s) @ trailer s" using f(6) part by (simp add: fs_disk_def)
  have tl: "trailer_len r' = trailer_len s" using f(5) by (simp add: trailer_len_def)
  have cnt: "fs_counters r' ! c = of_nat (card (held_bytes s \<inter> fs_range s c))" if "c < unat (fs_nchunks s)" for c
    using held_in_chunk [OF layout that] chunk_words(3) [OF cl that, symmetric] that by (simp add: f(9))
  have "\<forall>p \<in> held_bytes s. fs_disk r' ! p = src ! p" "held_bytes s \<subseteq> {..<length src}"
    using held_bytes_subset [OF good] g by (auto simp: d nth_append)
  then show "fs_good src (held_bytes s) r'"
    using f g d tl cnt assms(5) part length_trailer [OF layout] by (simp add: fs_good_def)
  have "chunk_complete r' c = chunk_complete s c" if "c < unat (fs_nchunks s)" for c
    using chunk_words(3) [OF cl that] chunk_nonempty [OF cl that] that
    by (auto simp: chunk_complete_def f(3,4,9) word_le_nat_alt)
  then show "held_bytes r' = held_bytes s" by (auto simp: held_bytes_def f(3-5))
qed

section \<open>Sessions\<close>

text \<open>
  What a receive call does to its file sink, up to its end: prepare a fresh file, write blocks of
  the sender's file \<open>src\<close> at their places (no position successfully written twice; failed writes
  may leave any part of their block), and save checkpoints that may themselves fail.
\<close>

inductive fs_session :: "byte list \<Rightarrow> nat set \<Rightarrow> FileSink \<Rightarrow> bool" for src where
  session_start:
    "fs_prepare alloc_ok trunc_ok total_bytes file_id s = (True, s') \<Longrightarrow> fs_open s \<Longrightarrow> \<not> fs_resumed s' \<Longrightarrow>
     length src = unat total_bytes \<Longrightarrow> fs_session src {} s'"
| session_write:
    "fs_session src W s \<Longrightarrow> concat iov = take n (drop (unat off) src) \<Longrightarrow> unat off + n \<le> length src \<Longrightarrow>
     {unat off..<unat off + n} \<inter> W = {} \<Longrightarrow> fs_write ans off iov s = Some (ok, s') \<Longrightarrow>
     fs_session src (if ok then W \<union> {unat off..<unat off + n} else W) s'"
| session_checkpoint:
    "fs_session src W s \<Longrightarrow> fs_checkpoint sync_ok ans s = Some s' \<Longrightarrow> fs_session src W s'"

lemma fs_session_good: "fs_session src W s \<Longrightarrow> fs_good src W s"
proof (induction rule: fs_session.induct)
  case (session_start alloc_ok trunc_ok total_bytes file_id s s')
  then show ?case by (intro fs_prepare_fresh)
qed (blast intro: fs_write_good fs_checkpoint_good)+

section \<open>Properties\<close>


definition demo_sink :: FileSink where
  "demo_sink = snd (fs_prepare True True 3 5 (snd (fs_open_part True True (new_file_sink None None))))"

lemma demo_sink_session: "fs_session [7, 8, 9] {} demo_sink" "fs_file_id demo_sink = 5" "fs_total demo_sink = 3"
proof -
  let ?s = "snd (fs_open_part True True (new_file_sink None None))"
  have o: "fs_open ?s" "\<not> fs_resumed ?s" "\<not> pr_valid (fs_prior ?s)"
    by (simp_all add: fs_open_part_def new_file_sink_def Let_def no_prior_def)
  then have p: "fs_prepare True True 3 5 ?s = (True, demo_sink)" "\<not> fs_resumed demo_sink"
    by (simp_all add: demo_sink_def fs_prepare_def Let_def)
  show "fs_session [7, 8, 9] {} demo_sink" by (rule session_start [OF p(1) o(1) p(2)]) simp
  show "fs_file_id demo_sink = 5" "fs_total demo_sink = 3" using prepare_fields [OF p(1)] by simp_all
qed


end
