(* ===== verification/Queues.thy ===== *)
theory Queues
  imports Fuse_Prelude "HOL-Library.Monad_Syntax"
begin

text \<open>
  The two bounded queues: \<^verbatim>\<open>SendQueue\<close> (\<^verbatim>\<open>include/fuse/proto/send_queue.hpp\<close>), a circular buffer
  with coalescing or backpressure, and \<^verbatim>\<open>SpscRing\<close> (\<^verbatim>\<open>include/fuse/proto/spsc_ring.hpp\<close>), the ring
  between the socket thread and the writer thread, whose free-running 64-bit counters wrap and
  whose sides keep stale copies of each other's counter.

  \<open>bounded_fifo\<close> is the contract of a bounded queue; both implementations are interpreted in it.
\<close>

section \<open>The contract\<close>

datatype 'a qop = Push 'a | Pop

text \<open>A run returns the accepted values, the values taken out, and the final queue.\<close>

fun qrun :: "('a \<Rightarrow> 'q \<Rightarrow> 'q option) \<Rightarrow> ('q \<Rightarrow> ('a \<times> 'q) option) \<Rightarrow> 'a qop list \<Rightarrow> 'q
    \<Rightarrow> 'a list \<times> 'a list \<times> 'q" where
  "qrun push pop [] q = ([], [], q)"
| "qrun push pop (Push x # ops) q =
     (case push x q of
        None \<Rightarrow> qrun push pop ops q
      | Some q' \<Rightarrow> let (ins, outs, q'') = qrun push pop ops q' in (x # ins, outs, q''))"
| "qrun push pop (Pop # ops) q =
     (case pop q of
        None \<Rightarrow> qrun push pop ops q
      | Some (x, q') \<Rightarrow> let (ins, outs, q'') = qrun push pop ops q' in (ins, x # outs, q''))"

locale bounded_fifo =
  fixes ok :: "'q \<Rightarrow> bool" and contents :: "'q \<Rightarrow> 'a list" and cap :: "'q \<Rightarrow> nat"
    and push :: "'a \<Rightarrow> 'q \<Rightarrow> 'q option" and pop :: "'q \<Rightarrow> ('a \<times> 'q) option"
  assumes bounded: "ok q \<Longrightarrow> length (contents q) \<le> cap q"
    and push_full: "ok q \<Longrightarrow> length (contents q) = cap q \<Longrightarrow> push x q = None"
    and push_room: "ok q \<Longrightarrow> length (contents q) < cap q \<Longrightarrow>
        \<exists>q'. push x q = Some q' \<and> ok q' \<and> contents q' = contents q @ [x] \<and> cap q' = cap q"
    and pop_empty: "ok q \<Longrightarrow> contents q = [] \<Longrightarrow> pop q = None"
    and pop_front: "ok q \<Longrightarrow> contents q = x # xs \<Longrightarrow>
        \<exists>q'. pop q = Some (x, q') \<and> ok q' \<and> contents q' = xs \<and> cap q' = cap q"
begin

lemma run_fifo:
  assumes "ok q" "qrun push pop ops q = (ins, outs, q')"
  shows "ok q' \<and> cap q' = cap q \<and> contents q @ ins = outs @ contents q'"
  using assms
proof (induction ops arbitrary: q ins outs q')
  case (Cons op ops)
  show ?case
  proof (cases op)
    case (Push x)
    show ?thesis
    proof (cases "length (contents q) = cap q")
      case True
      with Push Cons.IH [OF Cons.prems(1)] Cons.prems(2) show ?thesis
        by (simp add: push_full [OF Cons.prems(1)])
    next
      case False
      then obtain q1 where q1: "push x q = Some q1" "ok q1" "contents q1 = contents q @ [x]" "cap q1 = cap q"
        using push_room [OF Cons.prems(1)] bounded [OF Cons.prems(1)] by (metis le_neq_implies_less)
      with Push Cons.IH [OF q1(2)] Cons.prems(2) show ?thesis by (auto split: prod.splits)
    qed
  next
    case Pop
    show ?thesis
    proof (cases "contents q")
      case Nil
      with Pop Cons.IH [OF Cons.prems(1)] Cons.prems(2) show ?thesis
        by (simp add: pop_empty [OF Cons.prems(1)])
    next
      case (Cons x xs)
      then obtain q1 where q1: "pop q = Some (x, q1)" "ok q1" "contents q1 = xs" "cap q1 = cap q"
        using pop_front [OF Cons.prems(1)] by blast
      with Pop Cons Cons.IH [OF q1(2)] Cons.prems(2) show ?thesis by (auto split: prod.splits)
    qed
  qed
qed simp

end

section \<open>SendQueue\<close>

record SendQueue =
  sq_buffer :: "u64 list"
  sq_cap :: nat
  sq_coalesce :: bool
  sq_head :: nat
  sq_tail :: nat
  sq_size :: nat
  sq_dropped :: u64

definition new_send_queue :: "nat \<Rightarrow> bool \<Rightarrow> SendQueue" where
  "new_send_queue capacity coalesce =
     \<lparr>sq_buffer = replicate (if capacity = 0 then 1 else capacity) 0,
      sq_cap = (if capacity = 0 then 1 else capacity), sq_coalesce = coalesce,
      sq_head = 0, sq_tail = 0, sq_size = 0, sq_dropped = 0\<rparr>"

definition sq_full :: "SendQueue \<Rightarrow> bool" where
  "sq_full q \<longleftrightarrow> sq_size q = sq_cap q"

definition sq_pop :: "SendQueue \<Rightarrow> (u64 \<times> SendQueue) option" where
  "sq_pop q =
     (if sq_size q = 0 then None
      else Some (sq_buffer q ! sq_head q,
                 q\<lparr>sq_head := (sq_head q + 1) mod sq_cap q, sq_size := sq_size q - 1\<rparr>))"

definition sq_push :: "u64 \<Rightarrow> SendQueue \<Rightarrow> SendQueue option" where
  "sq_push seq q =
     (if sq_full q \<and> \<not> sq_coalesce q then None
      else
        let q = (if sq_full q
                 then (case sq_pop q of
                         Some (discarded, q') \<Rightarrow> q'\<lparr>sq_dropped := sq_dropped q' + 1\<rparr>
                       | None \<Rightarrow> q\<lparr>sq_dropped := sq_dropped q + 1\<rparr>)
                 else q)
        in Some (q\<lparr>sq_buffer := (sq_buffer q)[sq_tail q := seq],
                   sq_tail := (sq_tail q + 1) mod sq_cap q, sq_size := sq_size q + 1\<rparr>))"

definition sq_inv :: "SendQueue \<Rightarrow> bool" where
  "sq_inv q \<longleftrightarrow> 0 < sq_cap q \<and> length (sq_buffer q) = sq_cap q \<and> sq_head q < sq_cap q \<and>
     sq_size q \<le> sq_cap q \<and> sq_tail q = (sq_head q + sq_size q) mod sq_cap q"

definition sq_contents :: "SendQueue \<Rightarrow> u64 list" where
  "sq_contents q = map (\<lambda>i. sq_buffer q ! ((sq_head q + i) mod sq_cap q)) [0..<sq_size q]"

lemma length_sq_contents [simp]: "length (sq_contents q) = sq_size q"
  by (simp add: sq_contents_def)

lemma ring_index_neq:
  fixes h :: nat
  assumes "i < n" "n < c"
  shows "(h + i) mod c \<noteq> (h + n) mod c"
proof
  assume "(h + i) mod c = (h + n) mod c"
  then have "c dvd (h + n) - (h + i)" using assms by (metis mod_eq_dvd_iff_nat nat_add_left_cancel_le less_imp_le)
  then show False using assms by (auto dest: dvd_imp_le)
qed

lemma sq_enqueue:
  fixes x :: u64
  assumes "sq_inv q" "sq_size q < sq_cap q"
  defines "q' \<equiv> q\<lparr>sq_buffer := (sq_buffer q)[sq_tail q := x],
                   sq_tail := (sq_tail q + 1) mod sq_cap q, sq_size := sq_size q + 1\<rparr>"
  shows "sq_inv q'" "sq_contents q' = sq_contents q @ [x]"
proof -
  show "sq_inv q'" using assms by (simp add: sq_inv_def mod_Suc_eq)
  have "sq_tail q < length (sq_buffer q)" using assms by (simp add: sq_inv_def)
  moreover have "sq_tail q \<noteq> (sq_head q + i) mod sq_cap q" if "i < sq_size q" for i
    using ring_index_neq [OF that assms(2), of "sq_head q"] assms(1) by (auto simp: sq_inv_def)
  ultimately show "sq_contents q' = sq_contents q @ [x]"
    using assms(1) by (simp add: sq_contents_def q'_def sq_inv_def)
qed

lemma sq_dequeue:
  assumes "sq_inv q" "0 < sq_size q"
  shows "\<exists>q'. sq_pop q = Some (hd (sq_contents q), q') \<and> sq_inv q' \<and> sq_contents q' = tl (sq_contents q) \<and>
    sq_cap q' = sq_cap q \<and> sq_coalesce q' = sq_coalesce q \<and> sq_size q' = sq_size q - 1 \<and> sq_dropped q' = sq_dropped q"
proof -
  let ?q = "q\<lparr>sq_head := (sq_head q + 1) mod sq_cap q, sq_size := sq_size q - 1\<rparr>"
  obtain n where n: "sq_size q = Suc n" using assms(2) by (cases "sq_size q") auto
  have c: "sq_contents q = sq_buffer q ! (sq_head q mod sq_cap q) #
      map (\<lambda>i. sq_buffer q ! ((sq_head q + Suc i) mod sq_cap q)) [0..<n]"
    unfolding sq_contents_def n by (simp add: upt_conv_Cons map_Suc_upt [symmetric] comp_def del: upt_Suc)
  have "sq_contents ?q = map (\<lambda>i. sq_buffer q ! ((sq_head q + Suc i) mod sq_cap q)) [0..<n]"
    by (simp add: sq_contents_def n mod_add_left_eq del: upt_Suc)
  moreover have "sq_inv ?q"
    using assms by (auto simp: sq_inv_def mod_simps n)
  ultimately show ?thesis using assms c by (auto simp: sq_pop_def sq_inv_def)
qed

lemma sq_new: "sq_inv (new_send_queue capacity co)"
  "sq_contents (new_send_queue capacity co) = []" "sq_coalesce (new_send_queue capacity co) = co"
  by (auto simp: sq_inv_def new_send_queue_def sq_contents_def)

interpretation send_fifo: bounded_fifo "\<lambda>q. sq_inv q \<and> \<not> sq_coalesce q" sq_contents sq_cap sq_push sq_pop
proof unfold_locales
  fix q :: SendQueue and x :: u64
  assume q: "sq_inv q \<and> \<not> sq_coalesce q"
  show "length (sq_contents q) \<le> sq_cap q" using q by (simp add: sq_inv_def)
  show "length (sq_contents q) = sq_cap q \<Longrightarrow> sq_push x q = None"
    using q by (simp add: sq_push_def sq_full_def)
  show "sq_contents q = [] \<Longrightarrow> sq_pop q = None"
    using length_sq_contents [of q] by (simp add: sq_pop_def)
  assume "length (sq_contents q) < sq_cap q"
  with sq_enqueue [of q x] q show "\<exists>q'. sq_push x q = Some q' \<and> (sq_inv q' \<and> \<not> sq_coalesce q') \<and>
      sq_contents q' = sq_contents q @ [x] \<and> sq_cap q' = sq_cap q"
    by (simp add: sq_push_def sq_full_def)
next
  fix q :: SendQueue and x xs
  assume q: "sq_inv q \<and> \<not> sq_coalesce q" "sq_contents q = x # xs"
  then have "0 < sq_size q" using length_sq_contents [of q] by simp
  with sq_dequeue [of q] q show "\<exists>q'. sq_pop q = Some (x, q') \<and> (sq_inv q' \<and> \<not> sq_coalesce q') \<and>
      sq_contents q' = xs \<and> sq_cap q' = sq_cap q"
    by auto
qed

text \<open>
  C31: a send queue is a bounded FIFO. Without coalescing, over any interleaving of pushes and
  pops the values popped followed by those still queued are exactly the values accepted, in
  order, and a push is refused exactly when the queue holds its capacity. With coalescing a push
  is always accepted; on a full queue it discards the oldest value and counts one drop.
\<close>

theorem send_queue_is_fifo:
  assumes "sq_inv q"
  shows "(\<not> sq_coalesce q \<longrightarrow> qrun sq_push sq_pop ops q = (ins, outs, q') \<longrightarrow>
            sq_contents q @ ins = outs @ sq_contents q' \<and> length (sq_contents q') \<le> sq_cap q) \<and>
    (sq_push x q = None \<longleftrightarrow> length (sq_contents q) = sq_cap q \<and> \<not> sq_coalesce q) \<and>
    (sq_coalesce q \<longrightarrow> (\<exists>p. sq_push x q = Some p \<and> sq_inv p \<and>
        sq_contents p = (if length (sq_contents q) = sq_cap q then tl (sq_contents q) else sq_contents q) @ [x] \<and>
        sq_dropped p = (if length (sq_contents q) = sq_cap q then sq_dropped q + 1 else sq_dropped q)))"
proof (intro conjI impI)
  assume nc: "\<not> sq_coalesce q" and r: "qrun sq_push sq_pop ops q = (ins, outs, q')"
  from send_fifo.run_fifo [OF _ r] nc assms
  have f: "sq_inv q'" "sq_cap q' = sq_cap q" "sq_contents q @ ins = outs @ sq_contents q'" by auto
  then show "sq_contents q @ ins = outs @ sq_contents q'" by simp
  from f(1,2) show "length (sq_contents q') \<le> sq_cap q" by (simp add: sq_inv_def)
next
  show "sq_push x q = None \<longleftrightarrow> length (sq_contents q) = sq_cap q \<and> \<not> sq_coalesce q"
    by (simp add: sq_push_def sq_full_def Let_def)
next
  assume co: "sq_coalesce q"
  show "\<exists>p. sq_push x q = Some p \<and> sq_inv p \<and>
        sq_contents p = (if length (sq_contents q) = sq_cap q then tl (sq_contents q) else sq_contents q) @ [x] \<and>
        sq_dropped p = (if length (sq_contents q) = sq_cap q then sq_dropped q + 1 else sq_dropped q)"
  proof (cases "sq_full q")
    case False
    with co assms sq_enqueue [OF assms, of x] show ?thesis by (auto simp: sq_push_def sq_full_def sq_inv_def)
  next
    case True
    then have "0 < sq_size q" using assms by (simp add: sq_full_def sq_inv_def)
    from sq_dequeue [OF assms this] obtain p where p: "sq_pop q = Some (hd (sq_contents q), p)" "sq_inv p"
      "sq_contents p = tl (sq_contents q)" "sq_cap p = sq_cap q" "sq_size p = sq_size q - 1" "sq_dropped p = sq_dropped q"
      by blast
    let ?p = "p\<lparr>sq_dropped := sq_dropped p + 1\<rparr>"
    have "sq_inv ?p" "sq_contents ?p = sq_contents p" using p(2) by (simp_all add: sq_inv_def sq_contents_def)
    moreover have "sq_size ?p < sq_cap ?p" using p True assms by (simp add: sq_full_def sq_inv_def)
    ultimately show ?thesis
      using sq_enqueue [of ?p x] p True co by (simp add: sq_push_def sq_full_def)
  qed
qed

theorem send_queue_is_fifo_witness:
  "sq_inv (new_send_queue 2 False) \<and> \<not> sq_coalesce (new_send_queue 2 False) \<and>
   qrun sq_push sq_pop [Push 7, Push 8, Push 9, Pop] (new_send_queue 2 False) =
     ([7, 8], [7], \<lparr>sq_buffer = [7, 8], sq_cap = 2, sq_coalesce = False, sq_head = 1, sq_tail = 0, sq_size = 1, sq_dropped = 0\<rparr>) \<and>
   sq_contents (new_send_queue 2 False) @ [7, 8] = [7] @ sq_contents
     \<lparr>sq_buffer = [7, 8], sq_cap = 2, sq_coalesce = False, sq_head = 1, sq_tail = 0, sq_size = 1, sq_dropped = 0\<rparr>"
proof -
  have r: "qrun sq_push sq_pop [Push 7, Push 8, Push 9, Pop] (new_send_queue 2 False) =
     ([7, 8], [7], \<lparr>sq_buffer = [7, 8], sq_cap = 2, sq_coalesce = False, sq_head = 1, sq_tail = 0, sq_size = 1, sq_dropped = 0\<rparr>)"
    by (simp add: sq_push_def sq_pop_def sq_full_def new_send_queue_def numeral_2_eq_2)
  show ?thesis
    using send_queue_is_fifo [OF sq_new(1) [of 2 False], of "[Push 7, Push 8, Push 9, Pop]"] r sq_new [of 2 False]
    by blast
qed

section \<open>SpscRing\<close>

text \<open>The loop of \<^verbatim>\<open>round_up_pow2\<close> does not end above \<open>2^63\<close>, where the shift drops the only bit.\<close>

partial_function (option) round_up_loop :: "u64 \<Rightarrow> u64 \<Rightarrow> u64 option" where
  "round_up_loop v p = (if p < v then round_up_loop v (push_bit 1 p) else Some p)"

declare round_up_loop.simps [code]

definition round_up_pow2 :: "u64 \<Rightarrow> u64 option" where
  "round_up_pow2 v = round_up_loop v 1"

record 'a SpscRing =
  sr_head :: u64
  sr_tail_cache :: u64
  sr_tail :: u64
  sr_head_cache :: u64
  sr_cap :: u64
  sr_mask :: u64
  sr_slots :: "'a list"

text \<open>The slots are not initialised; \<open>fill\<close> is what the memory happens to hold.\<close>

definition new_spsc :: "u64 \<Rightarrow> 'a \<Rightarrow> 'a SpscRing option" where
  "new_spsc min_capacity fill =
     do {
       cap \<leftarrow> round_up_pow2 (if min_capacity < 2 then 2 else min_capacity);
       Some \<lparr>sr_head = 0, sr_tail_cache = 0, sr_tail = 0, sr_head_cache = 0,
             sr_cap = cap, sr_mask = cap - 1, sr_slots = replicate (unat cap) fill\<rparr>
     }"

definition writable :: "'a SpscRing \<Rightarrow> u64 \<times> 'a SpscRing" where
  "writable r =
     (let r = (if sr_tail r - sr_head_cache r = sr_cap r then r\<lparr>sr_head_cache := sr_head r\<rparr> else r)
      in (sr_cap r - (sr_tail r - sr_head_cache r), r))"

definition slot_for_write :: "u64 \<Rightarrow> 'a SpscRing \<Rightarrow> nat" where
  "slot_for_write i r = unat ((sr_tail r + i) AND sr_mask r)"

definition commit :: "u64 \<Rightarrow> 'a SpscRing \<Rightarrow> 'a SpscRing" where
  "commit n r = r\<lparr>sr_tail := sr_tail r + n\<rparr>"

definition readable :: "'a SpscRing \<Rightarrow> u64 \<times> 'a SpscRing" where
  "readable r =
     (let r = (if sr_head r = sr_tail_cache r then r\<lparr>sr_tail_cache := sr_tail r\<rparr> else r)
      in (sr_tail_cache r - sr_head r, r))"

definition slot_for_read :: "u64 \<Rightarrow> 'a SpscRing \<Rightarrow> nat" where
  "slot_for_read i r = unat ((sr_head r + i) AND sr_mask r)"

definition consume :: "u64 \<Rightarrow> 'a SpscRing \<Rightarrow> 'a SpscRing" where
  "consume n r = r\<lparr>sr_head := sr_head r + n\<rparr>"

lemma unat_pow2:
  assumes "k \<le> 63"
  shows "unat (2 ^ k :: u64) = 2 ^ k"
proof -
  have "(2 :: nat) ^ k < 2 ^ 64" using assms by (intro power_strict_increasing) auto
  then have "unat (of_nat (2 ^ k) :: u64) = 2 ^ k" unfolding unat_of_nat by simp
  then show ?thesis by simp
qed

lemma round_up_loop_pow2:
  assumes "unat v \<le> 2 ^ 63" "k \<le> 63" "k = 0 \<or> 2 ^ (k - 1) < unat v"
  shows "\<exists>j \<le> 63. round_up_loop v (2 ^ k) = Some (2 ^ j) \<and> unat v \<le> 2 ^ j \<and> (j = 0 \<or> 2 ^ (j - 1) < unat v)"
  using assms
proof (induction "63 - k" arbitrary: k)
  case 0
  then have k: "k = 63" by simp
  then have "\<not> (2 ^ k :: u64) < v" using "0.prems" by (simp add: word_less_nat_alt)
  with 0 k show ?case by (intro exI [of _ 63]) (simp add: round_up_loop.simps)
next
  case (Suc n)
  have u: "unat (2 ^ k :: u64) = 2 ^ k" using Suc by (simp add: unat_pow2)
  show ?case
  proof (cases "(2 ^ k :: u64) < v")
    case True
    have s: "push_bit 1 (2 ^ k :: u64) = 2 ^ Suc k" by (simp add: push_bit_eq_mult)
    have "2 ^ (Suc k - 1) < unat v" using True u by (simp add: word_less_nat_alt)
    moreover have "n = 63 - Suc k" "Suc k \<le> 63" using Suc.hyps(2) by simp_all
    moreover have "round_up_loop v (2 ^ k) = round_up_loop v (2 ^ Suc k)"
      using True by (subst round_up_loop.simps) (simp only: s if_True)
    ultimately show ?thesis using Suc.hyps(1) [of "Suc k"] Suc.prems(1) by (simp only:) blast
  next
    case False
    with Suc.prems u show ?thesis
      by (intro exI [of _ k]) (simp add: round_up_loop.simps word_less_nat_alt)
  qed
qed

text \<open>
  Rounding a ring's capacity up to a power of two returns for every request up to \<open>2^63\<close>,
  and the result is the least power of two that holds the request.
\<close>

theorem round_up_pow2_returns:
  assumes "unat v \<le> 2 ^ 63"
  shows "\<exists>k \<le> 63. round_up_pow2 v = Some (2 ^ k) \<and> unat v \<le> 2 ^ k \<and> (\<forall>j < k. 2 ^ j < unat v)"
proof -
  obtain k where k: "k \<le> 63" "round_up_loop v (2 ^ 0) = Some (2 ^ k)" "unat v \<le> 2 ^ k"
    "k = 0 \<or> 2 ^ (k - 1) < unat v"
    using round_up_loop_pow2 [OF assms, of 0] by auto
  have "2 ^ j < unat v" if "j < k" for j
  proof -
    have "(2 :: nat) ^ j \<le> 2 ^ (k - 1)" using that by (intro power_increasing) auto
    also have "\<dots> < unat v" using k(4) that by simp
    finally show ?thesis .
  qed
  with k show ?thesis by (auto simp: round_up_pow2_def)
qed

theorem round_up_pow2_returns_witness:
  "unat (5 :: u64) \<le> 2 ^ 63 \<and>
   (\<exists>k. k \<le> 63 \<and> round_up_pow2 5 = Some (2 ^ k) \<and> unat (5 :: u64) \<le> 2 ^ k)"
  using round_up_pow2_returns [of 5] by auto

subsection \<open>The two threads\<close>

text \<open>
  The producer asks \<^verbatim>\<open>writable\<close>, fills slots and commits; the consumer asks \<^verbatim>\<open>readable\<close>, reads
  slots and returns them. Every operation touches the other side's state through one atomic
  load or store, so any interleaving of the threads is a sequence of these steps. \<open>granted\<close> and
  \<open>avail\<close> are what each side may still use of its last answer, \<open>staged\<close> what the producer wrote
  and has not committed; \<open>produced\<close> and \<open>consumed\<close> record the values that went through.
\<close>

record 'a spsc_system =
  ss_ring :: "'a SpscRing"
  ss_granted :: u64
  ss_staged :: "'a list"
  ss_avail :: u64
  ss_produced :: "'a list"
  ss_consumed :: "'a list"

inductive spsc_step :: "'a spsc_system \<Rightarrow> 'a spsc_system \<Rightarrow> bool" where
  ask_writable: "writable (ss_ring s) = (w, r) \<Longrightarrow>
     spsc_step s (s\<lparr>ss_ring := r, ss_granted := w, ss_staged := []\<rparr>)"
| write_slot: "length (ss_staged s) < unat (ss_granted s) \<Longrightarrow>
     spsc_step s (s\<lparr>ss_ring := (ss_ring s)\<lparr>sr_slots :=
        (sr_slots (ss_ring s))[slot_for_write (of_nat (length (ss_staged s))) (ss_ring s) := x]\<rparr>,
        ss_staged := ss_staged s @ [x]\<rparr>)"
| commit_slots: "spsc_step s (s\<lparr>ss_ring := commit (of_nat (length (ss_staged s))) (ss_ring s),
        ss_granted := ss_granted s - of_nat (length (ss_staged s)), ss_staged := [],
        ss_produced := ss_produced s @ ss_staged s\<rparr>)"
| ask_readable: "readable (ss_ring s) = (n, r) \<Longrightarrow> spsc_step s (s\<lparr>ss_ring := r, ss_avail := n\<rparr>)"
| consume_slots: "n \<le> unat (ss_avail s) \<Longrightarrow>
     spsc_step s (s\<lparr>ss_ring := consume (of_nat n) (ss_ring s), ss_avail := ss_avail s - of_nat n,
        ss_consumed := ss_consumed s @
          map (\<lambda>i. sr_slots (ss_ring s) ! slot_for_read (of_nat i) (ss_ring s)) [0..<n]\<rparr>)"

inductive spsc_reach :: "'a spsc_system \<Rightarrow> 'a spsc_system \<Rightarrow> bool" where
  spsc_start: "spsc_reach s s"
| spsc_more: "spsc_reach s t \<Longrightarrow> spsc_step t u \<Longrightarrow> spsc_reach s u"

definition spsc_new_system :: "'a SpscRing \<Rightarrow> 'a spsc_system" where
  "spsc_new_system r = \<lparr>ss_ring = r, ss_granted = 0, ss_staged = [], ss_avail = 0,
     ss_produced = [], ss_consumed = []\<rparr>"

definition sr_size :: "'a SpscRing \<Rightarrow> nat" where
  "sr_size r = unat (sr_tail r - sr_head r)"

definition sr_contents :: "'a SpscRing \<Rightarrow> 'a list" where
  "sr_contents r = map (\<lambda>i. sr_slots r ! slot_for_read (of_nat i) r) [0..<sr_size r]"

definition sr_inv :: "'a SpscRing \<Rightarrow> bool" where
  "sr_inv r \<longleftrightarrow> (\<exists>k \<le> 63. sr_cap r = 2 ^ k) \<and> sr_mask r = sr_cap r - 1 \<and>
     length (sr_slots r) = unat (sr_cap r) \<and>
     sr_size r \<le> unat (sr_tail r - sr_head_cache r) \<and>
     unat (sr_tail r - sr_head_cache r) \<le> unat (sr_cap r) \<and>
     unat (sr_tail_cache r - sr_head r) \<le> sr_size r"

lemma unat_and_mask: "unat (w AND mask k) = unat (w :: u64) mod 2 ^ k"
  by (metis take_bit_eq_mask take_bit_eq_mod unsigned_take_bit_eq)

lemma ring_index:
  assumes "sr_cap r = 2 ^ k" "k \<le> 63" "sr_mask r = sr_cap r - 1"
  shows "unat ((x + of_nat i) AND sr_mask r) = (unat x + i) mod unat (sr_cap r)"
proof -
  have "sr_mask r = mask k" using assms by (simp add: mask_eq_exp_minus_1)
  then have "unat ((x + of_nat i) AND sr_mask r) = unat (x + of_nat i) mod 2 ^ k"
    by (simp only: unat_and_mask)
  also have "\<dots> = (unat x + i) mod 2 ^ k"
  proof -
    have "(2 :: nat) ^ k dvd 2 ^ 64" using assms(2) by (intro le_imp_power_dvd) simp
    then show ?thesis
      by (simp add: unat_word_ariths unat_of_nat mod_mod_cancel) (metis mod_add_right_eq mod_mod_cancel)
  qed
  finally show ?thesis using assms unat_pow2 [of k] by simp
qed

lemma sr_indices:
  assumes "sr_inv r"
  shows "slot_for_read (of_nat i) r = (unat (sr_head r) + i) mod unat (sr_cap r)"
    "slot_for_write (of_nat i) r = (unat (sr_head r) + (sr_size r + i)) mod unat (sr_cap r)"
    "0 < unat (sr_cap r)"
proof -
  obtain k where k: "sr_cap r = 2 ^ k" "k \<le> 63" "sr_mask r = sr_cap r - 1"
    using assms by (auto simp: sr_inv_def)
  show "slot_for_read (of_nat i) r = (unat (sr_head r) + i) mod unat (sr_cap r)"
    unfolding slot_for_read_def by (rule ring_index [OF k])
  have t: "sr_tail r + of_nat i = sr_head r + of_nat (sr_size r + i)"
    by (simp add: sr_size_def)
  show "slot_for_write (of_nat i) r = (unat (sr_head r) + (sr_size r + i)) mod unat (sr_cap r)"
    unfolding slot_for_write_def t by (rule ring_index [OF k])
  show "0 < unat (sr_cap r)" using k unat_pow2 [of k] by simp
qed

definition spsc_inv :: "'a spsc_system \<Rightarrow> bool" where
  "spsc_inv s \<longleftrightarrow>
     (let r = ss_ring s in
      sr_inv r \<and> length (ss_staged s) \<le> unat (ss_granted s) \<and>
      unat (ss_granted s) + unat (sr_tail r - sr_head_cache r) \<le> unat (sr_cap r) \<and>
      (\<forall>i < length (ss_staged s). sr_slots r ! slot_for_write (of_nat i) r = ss_staged s ! i) \<and>
      unat (ss_avail s) \<le> unat (sr_tail_cache r - sr_head r) \<and>
      ss_produced s = ss_consumed s @ sr_contents r)"

lemma unat_plus_minus:
  fixes a b :: u64
  shows "unat (a - b) + n < 2 ^ 64 \<Longrightarrow> unat (a + of_nat n - b) = unat (a - b) + n"
    "n \<le> unat (a - b) \<Longrightarrow> unat (a - (b + of_nat n)) = unat (a - b) - n"
proof -
  show "unat (a - b) + n < 2 ^ 64 \<Longrightarrow> unat (a + of_nat n - b) = unat (a - b) + n"
    using unat_add_lt [of "a - b" n] by (simp add: algebra_simps)
  assume n: "n \<le> unat (a - b)"
  then have u: "unat (of_nat n :: u64) = n"
    using unat_u64_less [of "a - b"] by (simp add: unat_of_nat)
  then have "unat (a - b - of_nat n) = unat (a - b) - n"
    using n by (simp add: unat_sub word_le_nat_alt)
  then show "unat (a - (b + of_nat n)) = unat (a - b) - n" by (simp add: algebra_simps)
qed

lemma sr_cap_bound: "sr_inv r \<Longrightarrow> unat (sr_cap r) \<le> 2 ^ 63"
  using unat_pow2 power_increasing [of _ 63 "2 :: nat"] by (fastforce simp: sr_inv_def)

lemma writable_grants:
  assumes "sr_inv r" "writable r = (w, r')"
  shows "sr_inv r'" "unat w + unat (sr_tail r' - sr_head_cache r') = unat (sr_cap r')"
    "sr_contents r' = sr_contents r" "sr_tail_cache r' - sr_head r' = sr_tail_cache r - sr_head r"
proof -
  have r': "r' = (if sr_tail r - sr_head_cache r = sr_cap r then r\<lparr>sr_head_cache := sr_head r\<rparr> else r)"
    and w: "w = sr_cap r' - (sr_tail r' - sr_head_cache r')"
    using assms(2) by (auto simp: writable_def Let_def)
  show i: "sr_inv r'" using assms(1) by (auto simp: r' sr_inv_def sr_size_def)
  then have "sr_tail r' - sr_head_cache r' \<le> sr_cap r'" by (simp add: sr_inv_def word_le_nat_alt)
  then show "unat w + unat (sr_tail r' - sr_head_cache r') = unat (sr_cap r')"
    by (simp add: w unat_sub word_le_nat_alt)
  show "sr_contents r' = sr_contents r" "sr_tail_cache r' - sr_head r' = sr_tail_cache r - sr_head r"
    by (simp_all add: r' sr_contents_def sr_size_def slot_for_read_def)
qed

lemma readable_offers:
  assumes "sr_inv r" "readable r = (n, r')"
  shows "sr_inv r'" "unat n = unat (sr_tail_cache r' - sr_head r')" "sr_contents r' = sr_contents r"
    "sr_tail r' - sr_head_cache r' = sr_tail r - sr_head_cache r" "sr_cap r' = sr_cap r"
    "slot_for_write i r' = slot_for_write i r" "sr_slots r' = sr_slots r"
  using assms by (auto simp: readable_def Let_def sr_inv_def sr_size_def sr_contents_def
      slot_for_read_def slot_for_write_def split: if_splits)

lemma write_slot_hidden:
  fixes x :: 'a
  assumes "sr_inv r" "sr_size r + i < unat (sr_cap r)"
  defines "r' \<equiv> r\<lparr>sr_slots := (sr_slots r)[slot_for_write (of_nat i) r := x]\<rparr>"
  shows "sr_inv r'" "sr_contents r' = sr_contents r" "sr_slots r' ! slot_for_write (of_nat i) r' = x"
    "j < i \<Longrightarrow> sr_slots r' ! slot_for_write (of_nat j) r' = sr_slots r ! slot_for_write (of_nat j) r"
proof -
  note ix = sr_indices [OF assms(1)]
  have len: "length (sr_slots r) = unat (sr_cap r)" using assms(1) by (simp add: sr_inv_def)
  show "sr_inv r'" using assms(1) by (simp add: r'_def sr_inv_def sr_size_def)
  have sl: "slot_for_write j r' = slot_for_write j r" "slot_for_read j r' = slot_for_read j r" for j
    by (simp_all add: r'_def slot_for_write_def slot_for_read_def)
  show "sr_slots r' ! slot_for_write (of_nat i) r' = x"
    unfolding sl using len ix(3) by (simp add: r'_def ix(2))
  show "sr_slots r' ! slot_for_write (of_nat j) r' = sr_slots r ! slot_for_write (of_nat j) r" if "j < i"
    unfolding sl using ring_index_neq [of "sr_size r + j" "sr_size r + i" "unat (sr_cap r)" "unat (sr_head r)"] that assms(2)
    by (simp add: r'_def ix(2) nth_list_update_neq)
  have "slot_for_write (of_nat i) r \<noteq> slot_for_read (of_nat j) r" if "j < sr_size r" for j
    using ring_index_neq [of j "sr_size r + i" "unat (sr_cap r)" "unat (sr_head r)"] that assms(2)
    by (simp add: ix)
  moreover have "sr_size r' = sr_size r" by (simp add: sr_size_def r'_def)
  moreover have "sr_slots r' = (sr_slots r)[slot_for_write (of_nat i) r := x]" by (simp add: r'_def)
  ultimately show "sr_contents r' = sr_contents r"
    by (auto simp: sr_contents_def sl intro!: map_cong)
qed

lemma commit_publishes:
  assumes "sr_inv r" "unat (sr_tail r - sr_head_cache r) + n \<le> unat (sr_cap r)"
  shows "sr_inv (commit (of_nat n) r)"
    "sr_contents (commit (of_nat n) r) =
       sr_contents r @ map (\<lambda>i. sr_slots r ! slot_for_write (of_nat i) r) [0..<n]"
    "unat (sr_tail (commit (of_nat n) r) - sr_head_cache r) = unat (sr_tail r - sr_head_cache r) + n"
proof -
  have b: "unat (sr_tail r - sr_head_cache r) + n < 2 ^ 64" "sr_size r + n < 2 ^ 64"
    using assms sr_cap_bound [OF assms(1)] by (auto simp: sr_inv_def)
  have sz: "sr_size (commit (of_nat n) r) = sr_size r + n"
    using unat_plus_minus(1) b(2) by (simp add: sr_size_def commit_def)
  show hc: "unat (sr_tail (commit (of_nat n) r) - sr_head_cache r) = unat (sr_tail r - sr_head_cache r) + n"
    using unat_plus_minus(1) b(1) by (simp add: commit_def)
  show i: "sr_inv (commit (of_nat n) r)"
    using assms hc sz by (auto simp: sr_inv_def) (auto simp: commit_def)
  have "slot_for_read (of_nat (sr_size r + i)) r = slot_for_write (of_nat i) r" for i
    using sr_indices(1) [OF assms(1), of "sr_size r + i"] sr_indices(2) [OF assms(1), of i] by (simp only:)
  moreover have "sr_contents (commit (of_nat n) r) = map (\<lambda>i. sr_slots r ! slot_for_read (of_nat i) r) [0..<sr_size r + n]"
    unfolding sr_contents_def sz by (simp add: commit_def slot_for_read_def)
  moreover have "[0..<sr_size r + n] = [0..<sr_size r] @ map (\<lambda>i. sr_size r + i) [0..<n]"
    using upt_add_eq_append [of 0 "sr_size r" n] map_add_upt [of "sr_size r" n] by (simp add: add.commute)
  ultimately show "sr_contents (commit (of_nat n) r) =
       sr_contents r @ map (\<lambda>i. sr_slots r ! slot_for_write (of_nat i) r) [0..<n]"
    by (simp only: map_append map_map comp_def sr_contents_def [of r])
qed

lemma consume_returns:
  assumes "sr_inv r" "n \<le> unat (sr_tail_cache r - sr_head r)"
  shows "sr_inv (consume (of_nat n) r)"
    "sr_contents r = map (\<lambda>i. sr_slots r ! slot_for_read (of_nat i) r) [0..<n] @ sr_contents (consume (of_nat n) r)"
    "unat (sr_tail_cache r - sr_head (consume (of_nat n) r)) = unat (sr_tail_cache r - sr_head r) - n"
proof -
  have n: "n \<le> sr_size r" using assms by (simp add: sr_inv_def)
  have sz: "sr_size (consume (of_nat n) r) = sr_size r - n"
    using unat_plus_minus(2) n by (simp add: sr_size_def consume_def)
  show tc: "unat (sr_tail_cache r - sr_head (consume (of_nat n) r)) = unat (sr_tail_cache r - sr_head r) - n"
    using unat_plus_minus(2) assms(2) by (simp add: consume_def)
  show "sr_inv (consume (of_nat n) r)"
    using assms sz tc by (auto simp: sr_inv_def) (auto simp: consume_def)
  have e: "[0..<sr_size r] = [0..<n] @ map (\<lambda>i. n + i) [0..<sr_size r - n]"
    using upt_add_eq_append [of 0 n "sr_size r - n"] n map_add_upt [of n "sr_size r - n"] by (simp add: add.commute)
  have "slot_for_read i (consume (of_nat n) r) = slot_for_read (of_nat n + i) r" for i
    by (simp add: slot_for_read_def consume_def add.assoc)
  then have "sr_contents (consume (of_nat n) r) = map (\<lambda>i. sr_slots r ! slot_for_read (of_nat (n + i)) r) [0..<sr_size r - n]"
    unfolding sr_contents_def sz by (simp add: consume_def)
  then show "sr_contents r = map (\<lambda>i. sr_slots r ! slot_for_read (of_nat i) r) [0..<n] @ sr_contents (consume (of_nat n) r)"
    by (simp add: sr_contents_def [of r] e comp_def)
qed

lemma spsc_step_inv: "spsc_step s t \<Longrightarrow> spsc_inv s \<Longrightarrow> spsc_inv t"
proof (induction rule: spsc_step.induct)
  case (ask_writable s w r)
  then show ?case using writable_grants [of "ss_ring s" w r] by (simp add: spsc_inv_def Let_def)
next
  case (write_slot s x)
  let ?i = "length (ss_staged s)"
  have "sr_size (ss_ring s) + ?i < unat (sr_cap (ss_ring s))"
    using write_slot by (auto simp: spsc_inv_def sr_inv_def Let_def)
  note w = write_slot_hidden [OF _ this, where x = x]
  then show ?case using write_slot by (auto simp: spsc_inv_def Let_def less_Suc_eq nth_append)
next
  case (commit_slots s)
  let ?n = "length (ss_staged s)"
  have b: "unat (sr_tail (ss_ring s) - sr_head_cache (ss_ring s)) + ?n \<le> unat (sr_cap (ss_ring s))"
    and i: "sr_inv (ss_ring s)" and g: "?n \<le> unat (ss_granted s)"
    using commit_slots by (auto simp: spsc_inv_def Let_def)
  note c = commit_publishes [OF i b]
  have "unat (ss_granted s - of_nat ?n) = unat (ss_granted s) - ?n"
    using unat_plus_minus(2) [of ?n "ss_granted s" 0] g by simp
  moreover have "map (\<lambda>i. sr_slots (ss_ring s) ! slot_for_write (of_nat i) (ss_ring s)) [0..<?n] = ss_staged s"
    using commit_slots by (auto simp: spsc_inv_def Let_def intro: nth_equalityI)
  ultimately show ?case
    using commit_slots c g by (simp add: spsc_inv_def Let_def) (simp add: commit_def)
next
  case (ask_readable s n r)
  then show ?case using readable_offers [of "ss_ring s" n r] by (simp add: spsc_inv_def Let_def)
next
  case (consume_slots n s)
  have i: "sr_inv (ss_ring s)" and n: "n \<le> unat (sr_tail_cache (ss_ring s) - sr_head (ss_ring s))"
    using consume_slots by (auto simp: spsc_inv_def Let_def)
  note c = consume_returns [OF i n]
  have "unat (ss_avail s - of_nat n) = unat (ss_avail s) - n"
    using unat_plus_minus(2) [of n "ss_avail s" 0] consume_slots(1) by simp
  then show ?case
    using consume_slots c by (simp add: spsc_inv_def Let_def) (simp add: consume_def slot_for_write_def diff_le_mono)
qed

lemma new_spsc_inv:
  assumes "new_spsc c fill = Some r" "unat c \<le> 2 ^ 63"
  shows "sr_inv r" "sr_contents r = []"
proof -
  let ?c = "if c < 2 then 2 else c"
  have "unat ?c \<le> 2 ^ 63" using assms(2) by simp
  then obtain k where k: "k \<le> 63" "round_up_loop ?c (2 ^ 0) = Some (2 ^ k)" "unat ?c \<le> 2 ^ k"
    using round_up_loop_pow2 [of ?c 0] by auto
  then have r: "r = \<lparr>sr_head = 0, sr_tail_cache = 0, sr_tail = 0, sr_head_cache = 0, sr_cap = 2 ^ k,
      sr_mask = 2 ^ k - 1, sr_slots = replicate (2 ^ k) fill\<rparr>"
    using assms(1) unat_pow2 [OF k(1)] by (simp add: new_spsc_def round_up_pow2_def)
  show "sr_inv r" "sr_contents r = []"
    using k unat_pow2 [OF k(1)] by (auto simp: r sr_inv_def sr_size_def sr_contents_def)
qed

lemma spsc_reach_inv: "spsc_reach s t \<Longrightarrow> spsc_inv s \<Longrightarrow> spsc_inv t"
  by (induction rule: spsc_reach.induct) (auto intro: spsc_step_inv)

text \<open>
  C30: under every interleaving of the producer and consumer threads, with both counters
  wrapping at \<open>2^64\<close> and each side working from a stale copy of the other's counter, the values
  the consumer has read followed by those still in the ring are exactly the values the
  producer has committed, in order, and the ring never holds more than its capacity.
\<close>

theorem spsc_ring_fifo:
  assumes "new_spsc min_capacity fill = Some r" "unat min_capacity \<le> 2 ^ 63"
    "spsc_reach (spsc_new_system r) s"
  shows "ss_produced s = ss_consumed s @ sr_contents (ss_ring s) \<and>
    length (sr_contents (ss_ring s)) \<le> unat (sr_cap (ss_ring s))"
proof -
  have "spsc_inv (spsc_new_system r)"
    using new_spsc_inv [OF assms(1,2)] by (simp add: spsc_inv_def spsc_new_system_def sr_inv_def Let_def)
  from spsc_reach_inv [OF assms(3) this] show ?thesis
    by (auto simp: spsc_inv_def Let_def sr_inv_def sr_contents_def)
qed

definition demo_ring :: "u64 SpscRing" where
  "demo_ring = \<lparr>sr_head = 0, sr_tail_cache = 0, sr_tail = 0, sr_head_cache = 0, sr_cap = 2, sr_mask = 1,
     sr_slots = [0, 0]\<rparr>"

theorem spsc_ring_fifo_witness:
  "new_spsc 2 0 = Some demo_ring \<and> unat (2 :: u64) \<le> 2 ^ 63 \<and>
   (\<exists>s. spsc_reach (spsc_new_system demo_ring) s \<and> ss_produced s = [5] \<and>
      ss_produced s = ss_consumed s @ sr_contents (ss_ring s))"
proof -
  have n: "new_spsc 2 0 = Some demo_ring"
    by (simp add: new_spsc_def round_up_pow2_def round_up_loop.simps demo_ring_def) (simp add: numeral_2_eq_2)
  let ?s0 = "spsc_new_system demo_ring"
  let ?s1 = "?s0\<lparr>ss_granted := 2\<rparr>"
  let ?s2 = "?s1\<lparr>ss_ring := demo_ring\<lparr>sr_slots := [5, 0]\<rparr>, ss_staged := [5]\<rparr>"
  let ?s3 = "?s2\<lparr>ss_ring := commit 1 (demo_ring\<lparr>sr_slots := [5, 0]\<rparr>), ss_granted := 1, ss_staged := [],
    ss_produced := [5]\<rparr>"
  have "spsc_step ?s0 ?s1"
    using spsc_step.ask_writable [of ?s0 2 demo_ring] by (simp add: writable_def demo_ring_def spsc_new_system_def)
  moreover have "spsc_step ?s1 ?s2"
    using spsc_step.write_slot [of ?s1 5] by (simp add: demo_ring_def spsc_new_system_def slot_for_write_def)
  moreover have "spsc_step ?s2 ?s3"
    using spsc_step.commit_slots [of ?s2] by (simp add: demo_ring_def spsc_new_system_def)
  ultimately have r: "spsc_reach ?s0 ?s3" by (blast intro: spsc_reach.intros)
  have "ss_produced ?s3 = [5]" by simp
  with spsc_ring_fifo [OF n _ r] r n show ?thesis by (intro conjI exI [of _ ?s3]) auto
qed

end
