(* ===== verification/Rx_Pipeline.thy ===== *)
theory Rx_Pipeline
  imports File_Resume Queues Block
begin

text \<open>
  The consumer side of the receive pipeline (\<^verbatim>\<open>src/src/proto/transfer.cpp\<close>): a consumer takes a
  batch of datagrams from a lane's ring, authenticates each block, writes runs of adjacent blocks
  to the sink, and reports every block's outcome on the ring back to the lane's reader.

  The sink is an argument: \<open>wr off iov s\<close> is \<^verbatim>\<open>Sink::write\<close>, \<^term>\<open>None\<close> where it does not return. What
  the pipeline relies on is the locale \<open>sink\<close>, which the memory sink and the file sink satisfy.
\<close>

section \<open>Data\<close>

record PacketSlot =
  pk_src :: PeerAddr
  pk_lane_base :: u64
  pk_lane_total :: u64
  pk_dg :: "byte list"

datatype WriteResult = WrWritten | WrAuthFailed | WrIoFailed

record Completion =
  co_src :: PeerAddr
  co_seq :: u64
  co_send_time :: u64
  co_bytes :: u32
  co_flags :: u8
  co_result :: WriteResult

definition new_completion :: Completion where
  "new_completion = \<lparr>co_src = no_peer, co_seq = 0, co_send_time = 0, co_bytes = 0, co_flags = 0, co_result = WrWritten\<rparr>"

record LaneKey =
  lk_key :: "byte list"
  lk_ready :: bool

definition kWriteBatch :: nat where [simp]: "kWriteBatch = 64"
definition kRouteRun :: u64 where [simp]: "kRouteRun = 64"

text \<open>A block ready to be written: its place in the output and its bytes.\<close>

type_synonym write_item = "u64 \<times> byte list"

section \<open>One block\<close>

text \<open>The consumer's own key schedule of the lane, created on first use.\<close>

definition consumer_cipher ::
  "Crypto \<Rightarrow> LaneKey \<Rightarrow> u16 \<Rightarrow> u64 \<Rightarrow> LaneKeySchedule option \<Rightarrow> LaneCipher option \<times> LaneKeySchedule option" where
  "consumer_cipher cr key lane seq ks =
     (case ks of
        Some k \<Rightarrow> (let (c, k) = cipher_for cr seq k in (c, Some k))
      | None \<Rightarrow>
          if \<not> lk_ready key then (None, None)
          else let (ok, k) = key_schedule_init cr (Some (lk_key key)) lane new_key_schedule in
               if \<not> ok then (None, None)
               else let (c, k) = cipher_for cr seq k in (c, Some k))"

definition open_payload ::
  "Crypto \<Rightarrow> LaneKey option \<Rightarrow> u16 \<Rightarrow> BlockHeader \<Rightarrow> byte list option \<Rightarrow> LaneKeySchedule option \<Rightarrow>
   byte list option \<times> LaneKeySchedule option" where
  "open_payload cr key lane hdr payload ks =
     (case key of
        None \<Rightarrow> (Some (case payload of Some b \<Rightarrow> b | None \<Rightarrow> []), ks)
      | Some k \<Rightarrow>
          let (cipher, ks) = consumer_cipher cr k lane (bh_seq_no hdr) ks;
              aad = build_aad lane (bh_seq_no hdr) (bh_offset hdr) (bh_flags hdr)
          in (case (cipher, payload) of
                (Some ci, Some p) \<Rightarrow>
                  if unat (bh_payload_len hdr) < kAeadTagLen then None
                  else lane_open cr ci lane (bh_seq_no hdr) aad p
              | _ \<Rightarrow> None, ks))"

text \<open>
  \<open>old\<close> is what the completion slot held before; a datagram that does not decode leaves its
  sequence number, time and flags.
\<close>

definition consume_block ::
  "Crypto \<Rightarrow> LaneKey option \<Rightarrow> u16 \<Rightarrow> PacketSlot \<Rightarrow> Completion \<Rightarrow> LaneKeySchedule option \<Rightarrow>
   (Completion \<times> write_item option) \<times> LaneKeySchedule option" where
  "consume_block cr key lane s old ks =
     (let c = old\<lparr>co_src := pk_src s, co_bytes := 0, co_result := WrWritten\<rparr> in
      case decode_data_datagram (pk_dg s) of
        accept (hdr, send_time, payload) \<Rightarrow>
          (let c = c\<lparr>co_seq := bh_seq_no hdr, co_send_time := send_time, co_flags := bh_flags hdr\<rparr>;
               (body, ks) = open_payload cr key lane hdr payload ks
           in case body of
                None \<Rightarrow> ((c\<lparr>co_result := WrAuthFailed\<rparr>, None), ks)
              | Some b \<Rightarrow>
                  if b \<noteq> [] \<and> bh_offset hdr \<le> pk_lane_total s \<and>
                     of_nat (length b) \<le> pk_lane_total s - bh_offset hdr
                  then ((c\<lparr>co_bytes := of_nat (length b)\<rparr>, Some (pk_lane_base s + bh_offset hdr, b)), ks)
                  else ((c, None), ks))
      | _ \<Rightarrow> ((c\<lparr>co_result := WrAuthFailed\<rparr>, None), ks))"

fun consume_blocks ::
  "Crypto \<Rightarrow> LaneKey option \<Rightarrow> u16 \<Rightarrow> (PacketSlot \<times> Completion) list \<Rightarrow> LaneKeySchedule option \<Rightarrow>
   (Completion \<times> write_item option) list \<times> LaneKeySchedule option" where
  "consume_blocks cr key lane [] ks = ([], ks)"
| "consume_blocks cr key lane ((s, old) # ps) ks =
     (let (r, ks) = consume_block cr key lane s old ks;
          (rs, ks) = consume_blocks cr key lane ps ks
      in (r # rs, ks))"

section \<open>Runs\<close>

text \<open>The blocks at the front that follow each other in the output, from position \<open>fin\<close>.\<close>

fun run_length :: "u64 \<Rightarrow> (Completion \<times> write_item option) list \<Rightarrow> nat" where
  "run_length fin ((c, Some (off, b)) # rest) =
     (if off = fin then Suc (run_length (fin + of_nat (length b)) rest) else 0)"
| "run_length fin _ = 0"

definition fail_run :: "(Completion \<times> write_item option) list \<Rightarrow> Completion list" where
  "fail_run run = map (\<lambda>(c, _). c\<lparr>co_result := WrIoFailed, co_bytes := 0\<rparr>) run"

text \<open>The answer: the completions, whether a write failed, and the sink.\<close>

function write_runs ::
  "(u64 \<Rightarrow> byte list list \<Rightarrow> 's \<Rightarrow> (bool \<times> 's) option) \<Rightarrow> (Completion \<times> write_item option) list \<Rightarrow> 's \<Rightarrow>
   (Completion list \<times> bool \<times> 's) option" where
  "write_runs wr [] s = Some ([], False, s)"
| "write_runs wr ((c, None) # rest) s =
     do { (cs, failed, s) \<leftarrow> write_runs wr rest s; Some (c # cs, failed, s) }"
| "write_runs wr ((c, Some (off, b)) # rest) s =
     do {
       let n = Suc (run_length (off + of_nat (length b)) rest);
       let run = take n ((c, Some (off, b)) # rest);
       (ok, s) \<leftarrow> wr off (map (\<lambda>(_, i). snd (the i)) run) s;
       (cs, failed, s) \<leftarrow> write_runs wr (drop n ((c, Some (off, b)) # rest)) s;
       Some ((if ok then map fst run else fail_run run) @ cs, failed \<or> \<not> ok, s)
     }"
  by pat_completeness auto
termination by (relation "measure (\<lambda>(wr, xs, s). length xs)") auto

section \<open>A batch\<close>

fun write_slots :: "u64 \<Rightarrow> 'a list \<Rightarrow> 'a SpscRing \<Rightarrow> 'a SpscRing" where
  "write_slots i [] r = r"
| "write_slots i (x # xs) r =
     write_slots (i + 1) xs (r\<lparr>sr_slots := (sr_slots r)[slot_for_write i r := x]\<rparr>)"

record 's consumer =
  cn_in :: "PacketSlot SpscRing"
  cn_out :: "Completion SpscRing"
  cn_ks :: "LaneKeySchedule option"
  cn_sink :: 's
  cn_io_failed :: bool

text \<open>The answer is \<^term>\<open>False\<close> when there was nothing to do.\<close>

definition drain_channel ::
  "Crypto \<Rightarrow> (u64 \<Rightarrow> byte list list \<Rightarrow> 's \<Rightarrow> (bool \<times> 's) option) \<Rightarrow> LaneKey option \<Rightarrow> u16 \<Rightarrow> 's consumer \<Rightarrow>
   (bool \<times> 's consumer) option" where
  "drain_channel cr wr key lane q =
     (let (avail, inr) = readable (cn_in q);
          (room, outr) = writable (cn_out q);
          n = min (min (unat avail) (unat room)) kWriteBatch
      in
      if n = 0 then Some (False, q\<lparr>cn_in := inr, cn_out := outr\<rparr>)
      else
        let slots = map (\<lambda>i. (sr_slots inr ! slot_for_read (of_nat i) inr,
                              sr_slots outr ! slot_for_write (of_nat i) outr)) [0..<n];
            (blocks, ks) = consume_blocks cr key lane slots (cn_ks q)
        in do {
          (cs, failed, s) \<leftarrow> write_runs wr blocks (cn_sink q);
          Some (True, \<lparr>cn_in = consume (of_nat n) inr, cn_out = commit (of_nat n) (write_slots 0 cs outr),
                       cn_ks = ks, cn_sink = s, cn_io_failed = cn_io_failed q \<or> failed\<rparr>)
        })"

section \<open>The pipeline of one lane\<close>

text \<open>
  The lane's reader commits datagrams to the ring of its consumer and takes completions from the
  ring back, while the consumer drains and the consumers of other lanes write to the same sink.
  \<open>pi_routed\<close> and \<open>pi_reported\<close> are all the datagrams the reader has handed over and all the
  completions it has taken. A write is any of \<open>wrs\<close>, so that the operating system may answer each
  of them differently.
\<close>

record 's pipe =
  pi_consumer :: "'s consumer"
  pi_routed :: "PacketSlot list"
  pi_reported :: "Completion list"

section \<open>What the pipeline needs of a sink\<close>

text \<open>\<open>agrees src W v\<close>: at the positions \<open>W\<close> the output is the sender's file.\<close>

definition agrees :: "byte list \<Rightarrow> nat set \<Rightarrow> byte list \<Rightarrow> bool" where
  "agrees src W v \<longleftrightarrow> length v = length src \<and> (\<forall>p \<in> W. p < length src \<and> v ! p = src ! p)"

text \<open>Blocks of the file, and the positions of those reported as written.\<close>

definition item_ok :: "byte list \<Rightarrow> Completion \<times> write_item option \<Rightarrow> bool" where
  "item_ok src x \<longleftrightarrow>
     (case snd x of
        None \<Rightarrow> True
      | Some (off, b) \<Rightarrow> unat off + length b \<le> length src \<and> b = take (length b) (drop (unat off) src))"

definition item_range :: "write_item option \<Rightarrow> nat set" where
  "item_range i = (case i of None \<Rightarrow> {} | Some (off, b) \<Rightarrow> {unat off..<unat off + length b})"

fun covered :: "(Completion \<times> write_item option) list \<Rightarrow> Completion list \<Rightarrow> nat set" where
  "covered (x # xs) (c # cs) = (if co_result c = WrWritten then item_range (snd x) else {}) \<union> covered xs cs"
| "covered _ _ = {}"

lemma covered_append:
  "length xs = length cs \<Longrightarrow> covered (xs @ ys) (cs @ ds) = covered xs cs \<union> covered ys ds"
  by (induction xs cs rule: list_induct2) auto

lemma covered_failed: "covered run (fail_run run) = {}"
  by (induction run) (auto simp: fail_run_def)

lemma covered_sub: "covered xs cs \<subseteq> (\<Union>x \<in> set xs. item_range (snd x))"
  by (induction xs cs rule: covered.induct) auto

text \<open>A run of blocks of the file is one piece of it.\<close>

lemma run_piece:
  assumes "length src < 2 ^ 64"
  shows "\<forall>x \<in> set xs. item_ok src x \<Longrightarrow> unat fin \<le> length src \<Longrightarrow> run = take (run_length fin xs) xs \<Longrightarrow>
    \<exists>m. concat (map (\<lambda>(_, i). snd (the i)) run) = take m (drop (unat fin) src) \<and> unat fin + m \<le> length src \<and>
      (\<Union>x \<in> set run. item_range (snd x)) = {unat fin..<unat fin + m}"
proof (induction fin xs arbitrary: run rule: run_length.induct)
  case (1 fin c off b rest)
  show ?case
  proof (cases "off = fin")
    case False
    then show ?thesis using "1.prems" by (intro exI [of _ 0]) simp
  next
    case True
    have ok: "unat fin + length b \<le> length src" "b = take (length b) (drop (unat fin) src)"
      using "1.prems"(1) True by (auto simp: item_ok_def)
    have e: "unat (fin + of_nat (length b)) = unat fin + length b"
      using ok assms by (intro unat_add_lt) simp
    from "1.IH" [OF True, of "take (run_length (fin + of_nat (length b)) rest) rest"] "1.prems"(1) e ok
    obtain m where m: "concat (map (\<lambda>(_, i). snd (the i)) (take (run_length (fin + of_nat (length b)) rest) rest)) =
        take m (drop (unat fin + length b) src)" "unat fin + length b + m \<le> length src"
      "(\<Union>x \<in> set (take (run_length (fin + of_nat (length b)) rest) rest). item_range (snd x)) =
        {unat fin + length b..<unat fin + length b + m}" by auto
    have "b @ take m (drop (unat fin + length b) src) = take (length b + m) (drop (unat fin) src)"
      unfolding take_add drop_drop add.commute [of "length b" "unat fin"] ok(2) [symmetric] ..
    moreover have "{unat fin..<unat fin + length b} \<union> {unat fin + length b..<unat fin + length b + m} =
        {unat fin..<unat fin + length b + m}" by auto
    ultimately show ?thesis
      using m True "1.prems"(3) by (intro exI [of _ "length b + m"]) (simp add: item_range_def add.assoc)
  qed
qed (intro exI [of _ 0], simp)+

text \<open>\<open>view\<close> is the output the sink holds, a list of bytes of fixed length.\<close>

locale sink =
  fixes inv :: "'s \<Rightarrow> bool"
    and view :: "'s \<Rightarrow> byte list"
    and wr :: "u64 \<Rightarrow> byte list list \<Rightarrow> 's \<Rightarrow> (bool \<times> 's) option"
  assumes wr_written: "inv s \<Longrightarrow> unat off + length (concat iov) \<le> length (view s) \<Longrightarrow>
      wr off iov s = Some (True, s') \<Longrightarrow> inv s' \<and> view s' = pwrite_at (unat off) (concat iov) (view s)"
    and wr_failed: "inv s \<Longrightarrow> unat off + length (concat iov) \<le> length (view s) \<Longrightarrow>
      wr off iov s = Some (False, s') \<Longrightarrow>
      inv s' \<and> (\<exists>k. view s' = pwrite_at (unat off) (take k (concat iov)) (view s))"
begin

lemma write_agrees:
  assumes "inv s" "agrees src W (view s)" "concat iov = take n (drop (unat off) src)" "unat off + n \<le> length src"
    "wr off iov s = Some (ok, s')"
  shows "inv s' \<and> agrees src (if ok then W \<union> {unat off..<unat off + n} else W) (view s')"
proof -
  have len: "length (concat iov) = n" "length (view s) = length src"
    using assms by (simp_all add: agrees_def)
  then obtain k where k: "inv s'" "view s' = pwrite_at (unat off) (take k (concat iov)) (view s)" "ok \<longrightarrow> n \<le> k"
    using wr_written [OF assms(1), of off iov s'] wr_failed [OF assms(1), of off iov s'] assms(4,5)
    by (cases ok) (auto intro: exI [of _ n])
  have v: "view s' = pwrite_at (unat off) (take (min k n) (drop (unat off) src)) (view s)"
    using k(2) assms(3) by (simp add: min.commute)
  have sl: "unat off + min k n \<le> length src" "length src \<le> length (view s)" using assms(4) len by auto
  note p = pwrite_at_slice [OF sl, folded v]
  have "view s' ! q = src ! q" if "q \<in> W" for q
    using that assms(2) p(2) [of q] by (auto simp: agrees_def)
  moreover have "view s' ! q = src ! q" if "q \<in> {unat off..<unat off + n}" "ok" for q
    using that k(3) p(2) [of q] len assms(4) by auto
  moreover have "\<forall>q \<in> W. q < length src" using assms(2) by (simp add: agrees_def)
  ultimately show ?thesis using k(1) p(1) len assms(4) by (auto simp: agrees_def)
qed

text \<open>What is reported as written is in the output, whatever the writes of other blocks did.\<close>

lemma write_runs_agrees:
  assumes "length src < 2 ^ 64"
  shows "inv s \<Longrightarrow> agrees src W (view s) \<Longrightarrow> \<forall>x \<in> set xs. item_ok src x \<Longrightarrow>
    write_runs wr xs s = Some (cs, failed, s') \<Longrightarrow>
    inv s' \<and> length cs = length xs \<and> agrees src (W \<union> covered xs cs) (view s')"
proof (induction "length xs" arbitrary: xs s W cs failed s' rule: less_induct)
  case less
  note prems = less.prems
  consider "xs = []" | c rest where "xs = (c, None) # rest" | c off b rest where "xs = (c, Some (off, b)) # rest"
    by (metis list.exhaust option.exhaust surj_pair)
  then show ?case
  proof cases
    case 1
    then show ?thesis using prems by simp
  next
    case (2 c rest)
    from prems(4) obtain ds where "write_runs wr rest s = Some (ds, failed, s')" "cs = c # ds"
      by (auto simp: 2 Option.bind_eq_Some_conv)
    with less.hyps [of rest] prems(1-3) show ?thesis by (simp add: 2 item_range_def)
  next
    case (3 c off b rest)
    let ?n = "Suc (run_length (off + of_nat (length b)) rest)"
    let ?run = "take ?n xs"
    from prems(4) [unfolded 3 write_runs.simps Let_def, folded 3] obtain ok s1 ds f1 where w: "wr off (map (\<lambda>(_, i). snd (the i)) ?run) s = Some (ok, s1)"
      "write_runs wr (drop ?n xs) s1 = Some (ds, f1, s')" "cs = (if ok then map fst ?run else fail_run ?run) @ ds"
      by (force simp del: take_Suc drop_Suc simp: Option.bind_eq_Some_conv split: prod.splits if_splits)
    have r: "?run = take (run_length off xs) xs" by (simp add: 3)
    have "unat off \<le> length src" using prems(3) by (simp add: 3 item_ok_def)
    from run_piece [OF assms prems(3) this r] obtain m where m:
      "concat (map (\<lambda>(_, i). snd (the i)) ?run) = take m (drop (unat off) src)" "unat off + m \<le> length src"
      "(\<Union>x \<in> set ?run. item_range (snd x)) = {unat off..<unat off + m}" by blast
    let ?W = "if ok then W \<union> {unat off..<unat off + m} else W"
    note s1 = write_agrees [OF prems(1,2) m(1,2) w(1)]
    have items: "\<forall>x \<in> set (drop ?n xs). item_ok src x" using prems(3) by (meson in_set_dropD)
    have "length (drop ?n xs) < length xs" by (simp add: 3)
    from less.hyps [OF this conjunct1 [OF s1] conjunct2 [OF s1] items w(2)]
    have ih: "inv s'" "length ds = length (drop ?n xs)" "agrees src (?W \<union> covered (drop ?n xs) ds) (view s')"
      by auto
    let ?cs1 = "if ok then map fst ?run else fail_run ?run"
    have l: "length ?run = length ?cs1" by (simp add: fail_run_def)
    have "covered xs cs = covered ?run ?cs1 \<union> covered (drop ?n xs) ds"
      using covered_append [OF l, of "drop ?n xs" ds] w(3) by simp
    moreover have "covered ?run ?cs1 \<subseteq> (if ok then {unat off..<unat off + m} else {})"
      using covered_sub [of ?run "map fst ?run"] m(3) covered_failed [of ?run] by auto
    ultimately have "W \<union> covered xs cs \<subseteq> ?W \<union> covered (drop ?n xs) ds" by auto
    with ih(3) have "agrees src (W \<union> covered xs cs) (view s')" by (auto simp: agrees_def)
    moreover have "length cs = length xs" using ih(2) w(3) l by simp
    ultimately show ?thesis using ih(1) by blast
  qed
qed

end

section \<open>The sinks of the program\<close>

interpretation memory_sink: sink "\<lambda>_. True" ms_out ms_write
  by unfold_locales (auto simp: ms_write_def split: if_splits intro: exI)

definition fs_inv :: "FileSink \<Rightarrow> bool" where
  "fs_inv s \<longleftrightarrow> fs_layout s \<and> unat (fs_total s) \<le> length (fs_disk s) \<and> length (fs_counters s) = unat (fs_nchunks s)"

definition fs_view :: "FileSink \<Rightarrow> byte list" where
  "fs_view s = take (unat (fs_total s)) (fs_disk s)"

lemma take_pwrite_at:
  assumes "off + length bs \<le> n" "n \<le> length f"
  shows "take n (pwrite_at off bs f) = pwrite_at off bs (take n f)"
proof (rule nth_equalityI)
  show "length (take n (pwrite_at off bs f)) = length (pwrite_at off bs (take n f))"
    using assms by (auto simp: length_pwrite_at)
  fix i assume "i < length (take n (pwrite_at off bs f))"
  then have "i < n" by simp
  then show "take n (pwrite_at off bs f) ! i = pwrite_at off bs (take n f) ! i"
    using assms by (simp add: nth_pwrite_at)
qed

lemma fs_write_effect:
  assumes "fs_inv s" "unat off + length (concat iov) \<le> length (fs_view s)" "fs_write ans off iov s = Some (ok, s')"
  shows "fs_inv s' \<and> (\<exists>k. fs_view s' = pwrite_at (unat off) (take k (concat iov)) (fs_view s) \<and>
           (ok \<longrightarrow> length (concat iov) \<le> k))"
proof -
  have b: "unat off + length (concat iov) \<le> unat (fs_total s)" "unat (fs_total s) \<le> length (fs_disk s)"
    "fs_layout s" "length (fs_counters s) = unat (fs_nchunks s)" using assms(1,2) by (auto simp: fs_inv_def fs_view_def)
  from assms(3) obtain f where f: "pwrite_all (concat iov) (unat off) ans (fs_disk s) = Some (ok, f)"
    by (auto simp: fs_write_flat split: Option.bind_splits if_splits)
  from pwrite_all_result [OF f] obtain k where k:
    "f = pwrite_at (unat off) (take k (concat iov)) (fs_disk s)" "ok \<longrightarrow> length (concat iov) \<le> k" by blast
  have v: "take (unat (fs_total s)) f = pwrite_at (unat off) (take k (concat iov)) (fs_view s)"
    "unat (fs_total s) \<le> length f"
    using b by (auto simp: k fs_view_def take_pwrite_at length_pwrite_at)
  have e: "unat (off + of_nat (length (concat iov))) = unat off + length (concat iov)"
    using b(1) unat_u64_less [of "fs_total s"] by (intro unat_add_lt) simp
  then have fin: "unat (off + of_nat (length (concat iov))) \<le> unat (fs_total s)" using b(1) by simp
  from count_chunks_returns [OF layout_chunks [OF b(3)] this, of off "fs_counters s"] e b(4)
  obtain cs where cs: "count_chunks (fs_chunk s) (fs_nchunks s) off (off + of_nat (length (concat iov))) (fs_counters s) = Some cs"
    "length cs = unat (fs_nchunks s)" by auto
  have "s' = (if ok then s\<lparr>fs_part := Some f, fs_counters := cs\<rparr> else s\<lparr>fs_part := Some f\<rparr>)"
    using assms(3) f cs(1) unfolding fs_write_flat by auto
  then have "fs_inv s'" "fs_view s' = pwrite_at (unat off) (take k (concat iov)) (fs_view s)"
    using b v cs(2) by (auto simp: fs_inv_def fs_view_def)
  then show ?thesis using k(2) by blast
qed

text \<open>The file sink keeps the contract whatever the kernel answers.\<close>

interpretation file_sink: sink fs_inv fs_view "\<lambda>off iov. fs_write (ans off iov) off iov"
  for ans :: "u64 \<Rightarrow> byte list list \<Rightarrow> kernel_write list"
proof unfold_locales
  fix s s' :: FileSink and off :: u64 and iov :: "byte list list"
  assume a: "fs_inv s" "unat off + length (concat iov) \<le> length (fs_view s)"
  show "fs_inv s' \<and> fs_view s' = pwrite_at (unat off) (concat iov) (fs_view s)"
    if "fs_write (ans off iov) off iov s = Some (True, s')"
    using fs_write_effect [OF a that] by auto
  show "fs_inv s' \<and> (\<exists>k. fs_view s' = pwrite_at (unat off) (take k (concat iov)) (fs_view s))"
    if "fs_write (ans off iov) off iov s = Some (False, s')"
    using fs_write_effect [OF a that] by auto
qed

section \<open>Rings\<close>

lemma write_slots_hidden:
  "sr_inv r \<Longrightarrow> sr_size r + i + length xs \<le> unat (sr_cap r) \<Longrightarrow> r' = write_slots (of_nat i) xs r \<Longrightarrow>
     sr_inv r' \<and> sr_contents r' = sr_contents r \<and> sr_tail r' = sr_tail r \<and> sr_head_cache r' = sr_head_cache r \<and>
     sr_cap r' = sr_cap r \<and>
     (\<forall>j < i. sr_slots r' ! slot_for_write (of_nat j) r' = sr_slots r ! slot_for_write (of_nat j) r) \<and>
     (\<forall>j < length xs. sr_slots r' ! slot_for_write (of_nat (i + j)) r' = xs ! j)"
proof (induction xs arbitrary: i r)
  case (Cons x xs)
  let ?r = "r\<lparr>sr_slots := (sr_slots r)[slot_for_write (of_nat i) r := x]\<rparr>"
  have "sr_size r + i < unat (sr_cap r)" using Cons.prems(2) by simp
  note w = write_slot_hidden [OF Cons.prems(1) this, where x = x]
  have sz: "sr_size ?r = sr_size r" by (simp add: sr_size_def)
  have r': "r' = write_slots (of_nat (Suc i)) xs ?r" using Cons.prems(3) by (simp add: add.commute)
  from Cons.IH [OF w(1) _ r'] Cons.prems(2) sz have ih:
    "sr_inv r'" "sr_contents r' = sr_contents ?r" "sr_tail r' = sr_tail ?r" "sr_head_cache r' = sr_head_cache ?r"
    "sr_cap r' = sr_cap ?r"
    "\<forall>j < Suc i. sr_slots r' ! slot_for_write (of_nat j) r' = sr_slots ?r ! slot_for_write (of_nat j) ?r"
    "\<forall>j < length xs. sr_slots r' ! slot_for_write (of_nat (Suc i + j)) r' = xs ! j" by auto
  have "\<forall>j < length (x # xs). sr_slots r' ! slot_for_write (of_nat (i + j)) r' = (x # xs) ! j"
  proof (intro allI impI)
    fix j assume "j < length (x # xs)"
    then show "sr_slots r' ! slot_for_write (of_nat (i + j)) r' = (x # xs) ! j"
      using ih(6,7) w(3) by (cases j) auto
  qed
  moreover have "\<forall>j < i. sr_slots r' ! slot_for_write (of_nat j) r' = sr_slots r ! slot_for_write (of_nat j) r"
    using ih(6) w(4) less_SucI by metis
  ultimately show ?case using ih(1-5) w(2) by simp
qed simp

lemma ring_push:
  assumes "sr_inv r" "unat (sr_tail r - sr_head_cache r) + length xs \<le> unat (sr_cap r)"
  shows "sr_inv (commit (of_nat (length xs)) (write_slots 0 xs r))"
    "sr_contents (commit (of_nat (length xs)) (write_slots 0 xs r)) = sr_contents r @ xs"
proof -
  have "sr_size r + 0 + length xs \<le> unat (sr_cap r)" using assms by (simp add: sr_inv_def)
  from write_slots_hidden [OF assms(1) this refl] have
    w: "sr_inv (write_slots 0 xs r)" "sr_contents (write_slots 0 xs r) = sr_contents r"
      "unat (sr_tail (write_slots 0 xs r) - sr_head_cache (write_slots 0 xs r)) + length xs \<le> unat (sr_cap (write_slots 0 xs r))"
      "\<forall>j < length xs. sr_slots (write_slots 0 xs r) ! slot_for_write (of_nat j) (write_slots 0 xs r) = xs ! j"
    using assms(2) by simp_all
  note c = commit_publishes [OF w(1,3)]
  show "sr_inv (commit (of_nat (length xs)) (write_slots 0 xs r))" by (rule c(1))
  have "map (\<lambda>i. sr_slots (write_slots 0 xs r) ! slot_for_write (of_nat i) (write_slots 0 xs r)) [0..<length xs] = xs"
    using w(4) by (intro nth_equalityI) simp_all
  then show "sr_contents (commit (of_nat (length xs)) (write_slots 0 xs r)) = sr_contents r @ xs"
    using c(2) w(2) by simp
qed

section \<open>Authenticity without caches\<close>

text \<open>The bytes of a datagram's block, as the lane's key of the block's epoch opens it.\<close>

definition block_body :: "Crypto \<Rightarrow> LaneKey option \<Rightarrow> u16 \<Rightarrow> byte list \<Rightarrow> (BlockHeader \<times> byte list) option" where
  "block_body cr key lane dg =
     (case decode_data_datagram dg of
        accept (hdr, _, payload) \<Rightarrow>
          (case key of
             None \<Rightarrow> Some (hdr, case payload of Some b \<Rightarrow> b | None \<Rightarrow> [])
           | Some k \<Rightarrow>
               (case (epoch_cipher cr (lk_key k) lane (drop_bit 22 (bh_seq_no hdr)), payload) of
                  (Some ci, Some p) \<Rightarrow>
                    if unat (bh_payload_len hdr) < kAeadTagLen then None
                    else map_option (Pair hdr) (lane_open cr ci lane (bh_seq_no hdr)
                           (build_aad lane (bh_seq_no hdr) (bh_offset hdr) (bh_flags hdr)) p)
                | _ \<Rightarrow> None))
      | _ \<Rightarrow> None)"

text \<open>The positions a datagram's block fills, when it opens and lies inside its lane.\<close>

definition block_range :: "Crypto \<Rightarrow> LaneKey option \<Rightarrow> u16 \<Rightarrow> PacketSlot \<Rightarrow> nat set" where
  "block_range cr key lane s =
     (case block_body cr key lane (pk_dg s) of
        Some (hdr, b) \<Rightarrow>
          if bh_offset hdr \<le> pk_lane_total s \<and> of_nat (length b) \<le> pk_lane_total s - bh_offset hdr
          then {unat (pk_lane_base s + bh_offset hdr)..<unat (pk_lane_base s + bh_offset hdr) + length b}
          else {}
      | None \<Rightarrow> {})"

text \<open>The datagrams of a sender of \<open>src\<close>: what opens is a piece of the file at its place.\<close>

definition genuine :: "Crypto \<Rightarrow> LaneKey option \<Rightarrow> u16 \<Rightarrow> byte list \<Rightarrow> PacketSlot \<Rightarrow> bool" where
  "genuine cr key lane src s \<longleftrightarrow>
     (\<forall>hdr b. block_body cr key lane (pk_dg s) = Some (hdr, b) \<longrightarrow>
        unat (pk_lane_base s + bh_offset hdr) + length b \<le> length src \<and>
        b = take (length b) (drop (unat (pk_lane_base s + bh_offset hdr)) src))"

definition consumer_ks_ok :: "Crypto \<Rightarrow> LaneKey option \<Rightarrow> u16 \<Rightarrow> LaneKeySchedule option \<Rightarrow> bool" where
  "consumer_ks_ok cr key lane ks \<longleftrightarrow>
     (case (key, ks) of
        (Some k, Some s) \<Rightarrow> ks_ok cr s \<and> ks_ready s \<and> ks_key s = lk_key k \<and> ks_lane s = lane
      | (None, Some s) \<Rightarrow> False
      | _ \<Rightarrow> True)"

lemma consumer_cipher_correct:
  assumes "consumer_ks_ok cr (Some k) lane ks" "consumer_cipher cr k lane seq ks = (c, ks')"
  shows "consumer_ks_ok cr (Some k) lane ks'" "c = None \<or> c = epoch_cipher cr (lk_key k) lane (drop_bit 22 seq)"
proof -
  have *: "consumer_ks_ok cr (Some k) lane (Some s') \<and> c = epoch_cipher cr (lk_key k) lane (drop_bit 22 seq)"
    if "ks_ok cr s" "ks_ready s" "ks_key s = lk_key k" "ks_lane s = lane" "cipher_for cr seq s = (c, s')" for s s'
    using cipher_for_correct [OF that(1,2,5)] that by (simp add: consumer_ks_ok_def)
  have "consumer_ks_ok cr (Some k) lane ks' \<and> (c = None \<or> c = epoch_cipher cr (lk_key k) lane (drop_bit 22 seq))"
  proof (cases ks)
    case (Some s)
    then show ?thesis using assms * [of s] by (auto simp: consumer_cipher_def consumer_ks_ok_def split: prod.splits)
  next
    case None
    obtain ok s where i: "key_schedule_init cr (Some (lk_key k)) lane new_key_schedule = (ok, s)" by force
    show ?thesis
    proof (cases "lk_ready k \<and> ok")
      case True
      with i have "key_schedule_init cr (Some (lk_key k)) lane new_key_schedule = (True, s)" by simp
      from init_schedule_ok [OF this] True None i assms(2) show ?thesis
        using * [of s] by (auto simp: consumer_cipher_def split: prod.splits)
    next
      case False
      then show ?thesis using None i assms(2) by (auto simp: consumer_cipher_def consumer_ks_ok_def split: if_splits)
    qed
  qed
  then show "consumer_ks_ok cr (Some k) lane ks'" "c = None \<or> c = epoch_cipher cr (lk_key k) lane (drop_bit 22 seq)"
    by auto
qed

lemma open_payload_spec:
  assumes "consumer_ks_ok cr key lane ks" "open_payload cr key lane hdr p ks = (body, ks')"
    "decode_data_datagram dg = accept (hdr, t, p)"
  shows "consumer_ks_ok cr key lane ks'" "body = Some b \<Longrightarrow> block_body cr key lane dg = Some (hdr, b)"
proof -
  have "consumer_ks_ok cr key lane ks' \<and> (body = Some b \<longrightarrow> block_body cr key lane dg = Some (hdr, b))"
  proof (cases key)
    case None
    then show ?thesis using assms by (auto simp: open_payload_def block_body_def)
  next
    case (Some k)
    obtain c ks1 where c: "consumer_cipher cr k lane (bh_seq_no hdr) ks = (c, ks1)" by force
    note cc = consumer_cipher_correct [OF assms(1) [unfolded Some] c]
    have "ks' = ks1" using assms(2) c by (simp add: open_payload_def Some)
    then show ?thesis
      using assms(2,3) c cc by (auto simp: open_payload_def block_body_def Some split: option.splits if_splits)
  qed
  then show "consumer_ks_ok cr key lane ks'" "body = Some b \<Longrightarrow> block_body cr key lane dg = Some (hdr, b)" by auto
qed

lemma consume_block_spec:
  assumes ks: "consumer_ks_ok cr key lane ks" and c: "consume_block cr key lane s old ks = ((c, i), ks')"
  shows "consumer_ks_ok cr key lane ks'"
    "genuine cr key lane src s \<Longrightarrow> item_ok src (c, i)"
    "co_result c = WrWritten \<Longrightarrow> item_range i = block_range cr key lane s"
    "decode_data_datagram (pk_dg s) = accept (hdr, t, p) \<Longrightarrow>
       co_seq c = bh_seq_no hdr \<and> co_flags c = bh_flags hdr \<and> co_send_time c = t \<and> co_src c = pk_src s"
    "co_result c = WrWritten \<Longrightarrow> \<exists>hdr b. block_body cr key lane (pk_dg s) = Some (hdr, b) \<and>
       co_seq c = bh_seq_no hdr \<and> co_flags c = bh_flags hdr"
proof -
  show "decode_data_datagram (pk_dg s) = accept (hdr, t, p) \<Longrightarrow>
       co_seq c = bh_seq_no hdr \<and> co_flags c = bh_flags hdr \<and> co_send_time c = t \<and> co_src c = pk_src s"
    using c by (auto simp: consume_block_def Let_def split: prod.splits option.splits if_splits)
  have "consumer_ks_ok cr key lane ks' \<and> (genuine cr key lane src s \<longrightarrow> item_ok src (c, i)) \<and>
      (co_result c = WrWritten \<longrightarrow> item_range i = block_range cr key lane s \<and>
        (\<exists>hdr b. block_body cr key lane (pk_dg s) = Some (hdr, b) \<and> co_seq c = bh_seq_no hdr \<and> co_flags c = bh_flags hdr))"
  proof (cases "\<exists>hdr t p. decode_data_datagram (pk_dg s) = accept (hdr, t, p)")
    case False
    then have "c = old\<lparr>co_src := pk_src s, co_bytes := 0, co_result := WrAuthFailed\<rparr> \<and> i = None \<and> ks' = ks"
      using c by (cases "decode_data_datagram (pk_dg s)")
        (auto simp: consume_block_def Let_def split: option.splits)
    then show ?thesis using ks by (simp add: item_ok_def)
  next
    case True
    then obtain hdr t p where d: "decode_data_datagram (pk_dg s) = accept (hdr, t, p)" by blast
    obtain body ks1 where o: "open_payload cr key lane hdr p ks = (body, ks1)" by force
    note op = open_payload_spec [OF ks o d]
    have "ks' = ks1" using c d o by (auto simp: consume_block_def Let_def split: option.splits if_splits)
    show ?thesis
    proof (cases body)
      case None
      then have "co_result c = WrAuthFailed" "i = None"
        using c d o by (auto simp: consume_block_def Let_def)
      then show ?thesis using op(1) \<open>ks' = ks1\<close> by (simp add: item_ok_def)
    next
      case (Some b)
      note bb = op(2) [OF Some]
      have "i = (if b \<noteq> [] \<and> bh_offset hdr \<le> pk_lane_total s \<and>
            of_nat (length b) \<le> pk_lane_total s - bh_offset hdr
          then Some (pk_lane_base s + bh_offset hdr, b) else None)"
        using c d o Some by (auto simp: consume_block_def Let_def split: if_splits)
      moreover have "co_seq c = bh_seq_no hdr \<and> co_flags c = bh_flags hdr"
        using c d o Some by (auto simp: consume_block_def Let_def split: if_splits)
      ultimately show ?thesis
        using op(1) \<open>ks' = ks1\<close> bb by (auto simp: item_ok_def genuine_def item_range_def block_range_def)
    qed
  qed
  then show "consumer_ks_ok cr key lane ks'" "genuine cr key lane src s \<Longrightarrow> item_ok src (c, i)"
    "co_result c = WrWritten \<Longrightarrow> item_range i = block_range cr key lane s"
    "co_result c = WrWritten \<Longrightarrow> \<exists>hdr b. block_body cr key lane (pk_dg s) = Some (hdr, b) \<and>
       co_seq c = bh_seq_no hdr \<and> co_flags c = bh_flags hdr" by auto
qed

definition block_outcome :: "Crypto \<Rightarrow> LaneKey option \<Rightarrow> u16 \<Rightarrow> PacketSlot \<Rightarrow> Completion \<times> write_item option \<Rightarrow> bool" where
  "block_outcome cr key lane s x \<longleftrightarrow>
     (co_result (fst x) = WrWritten \<longrightarrow> item_range (snd x) = block_range cr key lane s) \<and>
     (co_result (fst x) = WrWritten \<longrightarrow>
        (\<exists>hdr b. block_body cr key lane (pk_dg s) = Some (hdr, b) \<and>
           co_seq (fst x) = bh_seq_no hdr \<and> co_flags (fst x) = bh_flags hdr))"

lemma consume_blocks_spec:
  "consumer_ks_ok cr key lane ks \<Longrightarrow> consume_blocks cr key lane ps ks = (bs, ks') \<Longrightarrow>
     consumer_ks_ok cr key lane ks' \<and> list_all2 (\<lambda>(s, _). block_outcome cr key lane s) ps bs \<and>
     ((\<forall>(s, _) \<in> set ps. genuine cr key lane src s) \<longrightarrow> (\<forall>x \<in> set bs. item_ok src x))"
proof (induction ps arbitrary: ks bs)
  case (Cons p ps)
  obtain s old where p: "p = (s, old)" by (cases p)
  obtain c i ks1 where b: "consume_block cr key lane s old ks = ((c, i), ks1)"
    by (metis surj_pair)
  obtain rs where r: "consume_blocks cr key lane ps ks1 = (rs, ks')" "bs = (c, i) # rs"
    using Cons.prems(2) b by (auto simp: p split: prod.splits)
  note cb = consume_block_spec [OF Cons.prems(1) b]
  have "block_outcome cr key lane s (c, i)" using cb(3,5) by (auto simp: block_outcome_def)
  with Cons.IH [OF cb(1) r(1)] cb(2) [of src] show ?case by (auto simp: p r(2))
qed simp

text \<open>A completion leaves the write phase as it entered it, or marked as failed.\<close>

definition run_outcome :: "Completion \<times> write_item option \<Rightarrow> Completion \<Rightarrow> bool" where
  "run_outcome x c \<longleftrightarrow> c = fst x \<or> c = (fst x)\<lparr>co_result := WrIoFailed, co_bytes := 0\<rparr>"

lemma write_runs_outcomes:
  "write_runs wr xs s = Some (cs, failed, s') \<Longrightarrow> list_all2 run_outcome xs cs"
proof (induction wr xs s arbitrary: cs failed s' rule: write_runs.induct)
  case (3 wr c off b rest s)
  let ?xs = "(c, Some (off, b)) # rest"
  let ?n = "Suc (run_length (off + of_nat (length b)) rest)"
  from "3.prems" [unfolded write_runs.simps Let_def] obtain ok s1 ds f1 where
    w: "wr off (map (\<lambda>(_, i). snd (the i)) (take ?n ?xs)) s = Some (ok, s1)"
      "write_runs wr (drop ?n ?xs) s1 = Some (ds, f1, s')"
      "cs = (if ok then map fst (take ?n ?xs) else fail_run (take ?n ?xs)) @ ds"
    by (force simp del: take_Suc drop_Suc simp: Option.bind_eq_Some_conv split: prod.splits if_splits)
  have "list_all2 run_outcome ys (if ok then map fst ys else fail_run ys)" for ys
    by (induction ys) (auto simp: run_outcome_def fail_run_def)
  moreover have "list_all2 run_outcome (drop ?n ?xs) ds"
    using "3.IH" [OF refl refl w(1) refl w(2)] .
  ultimately have "list_all2 run_outcome (take ?n ?xs @ drop ?n ?xs) cs" unfolding w(3) by (metis list_all2_appendI)
  then show ?case by (simp only: append_take_drop_id)
qed (auto simp: Option.bind_eq_Some_conv run_outcome_def)

lemma covered_nth:
  "length xs = length cs \<Longrightarrow>
     covered xs cs = (\<Union>i \<in> {i. i < length cs \<and> co_result (cs ! i) = WrWritten}. item_range (snd (xs ! i)))"
proof (induction xs cs rule: list_induct2)
  case (Cons x xs c cs)
  have "{i. i < length (c # cs) \<and> co_result ((c # cs) ! i) = WrWritten} =
      (if co_result c = WrWritten then {0} else {}) \<union> Suc ` {i. i < length cs \<and> co_result (cs ! i) = WrWritten}"
    (is "?A = ?B")
  proof (rule set_eqI)
    show "i \<in> ?A \<longleftrightarrow> i \<in> ?B" for i by (cases i) auto
  qed
  then show ?case using Cons by (simp add: image_Un image_image)
qed simp

section \<open>Draining a channel\<close>

text \<open>A drain that finds nothing to do, or no room for verdicts, changes nothing.\<close>

lemma drain_idle:
  assumes "drain_channel cr wr key lane q = Some (False, q')" "sr_inv (cn_in q)" "sr_inv (cn_out q)"
  shows "sr_inv (cn_in q')" "sr_inv (cn_out q')" "sr_contents (cn_in q') = sr_contents (cn_in q)"
    "sr_contents (cn_out q') = sr_contents (cn_out q)" "cn_ks q' = cn_ks q" "cn_sink q' = cn_sink q"
proof -
  obtain a ir where a: "readable (cn_in q) = (a, ir)" by force
  obtain r orr where r: "writable (cn_out q) = (r, orr)" by force
  have "q' = q\<lparr>cn_in := ir, cn_out := orr\<rparr>"
    using assms(1) unfolding drain_channel_def Let_def a r prod.case
    by (auto simp: Option.bind_eq_Some_conv split: if_splits prod.splits)
  then show "sr_inv (cn_in q')" "sr_inv (cn_out q')" "sr_contents (cn_in q') = sr_contents (cn_in q)"
    "sr_contents (cn_out q') = sr_contents (cn_out q)" "cn_ks q' = cn_ks q" "cn_sink q' = cn_sink q"
    using readable_offers [OF assms(2) a] writable_grants [OF assms(3) r] by auto
qed

definition reported :: "Crypto \<Rightarrow> LaneKey option \<Rightarrow> u16 \<Rightarrow> PacketSlot list \<Rightarrow> Completion list \<Rightarrow> nat set" where
  "reported cr key lane ps cs =
     (\<Union>i \<in> {i. i < length cs \<and> co_result (cs ! i) = WrWritten}. block_range cr key lane (ps ! i))"

lemma covered_reported:
  assumes "list_all2 (\<lambda>(s, _). block_outcome cr key lane s) ps bs" "list_all2 run_outcome bs cs"
  shows "covered bs cs = reported cr key lane (map fst ps) cs"
proof -
  have l: "length ps = length bs" "length bs = length cs" using assms by (auto dest: list_all2_lengthD)
  have "item_range (snd (bs ! i)) = block_range cr key lane (map fst ps ! i)"
    if "i < length cs" "co_result (cs ! i) = WrWritten" for i
  proof -
    have "run_outcome (bs ! i) (cs ! i)" using assms(2) that(1) l by (simp add: list_all2_conv_all_nth)
    then have "co_result (fst (bs ! i)) = WrWritten" using that(2) by (auto simp: run_outcome_def)
    moreover have "block_outcome cr key lane (fst (ps ! i)) (bs ! i)"
      using assms(1) that(1) l by (auto simp: list_all2_conv_all_nth split_beta)
    ultimately show ?thesis using that(1) l by (simp add: block_outcome_def)
  qed
  then show ?thesis unfolding covered_nth [OF l(2)] reported_def by auto
qed

lemma completion_header:
  assumes "list_all2 (\<lambda>(s, _). block_outcome cr key lane s) ps bs" "list_all2 run_outcome bs cs"
    "i < length cs" "co_result (cs ! i) = WrWritten"
  shows "\<exists>hdr b. block_body cr key lane (pk_dg (map fst ps ! i)) = Some (hdr, b) \<and>
    co_seq (cs ! i) = bh_seq_no hdr \<and> co_flags (cs ! i) = bh_flags hdr"
proof -
  have l: "length ps = length bs" "length bs = length cs" using assms(1,2) by (auto dest: list_all2_lengthD)
  have "run_outcome (bs ! i) (cs ! i)" "block_outcome cr key lane (fst (ps ! i)) (bs ! i)"
    using assms(1-3) l by (auto simp: list_all2_conv_all_nth split_beta)
  then show ?thesis using assms(3,4) l by (auto simp: run_outcome_def block_outcome_def)
qed

context sink
begin

lemma drain_agrees:
  assumes inv: "sr_inv (cn_in q)" "sr_inv (cn_out q)" "inv (cn_sink q)" "consumer_ks_ok cr key lane (cn_ks q)"
    and src: "length src < 2 ^ 64" "agrees src W (view (cn_sink q))"
      "\<forall>s \<in> set (sr_contents (cn_in q)). genuine cr key lane src s"
    and d: "drain_channel cr wr key lane q = Some (True, q')"
  shows "\<exists>ps cs. sr_contents (cn_in q) = ps @ sr_contents (cn_in q') \<and> ps \<noteq> [] \<and>
     sr_contents (cn_out q') = sr_contents (cn_out q) @ cs \<and> length cs = length ps \<and>
     agrees src (W \<union> reported cr key lane ps cs) (view (cn_sink q')) \<and>
     (\<forall>i < length cs. co_result (cs ! i) = WrWritten \<longrightarrow>
        (\<exists>hdr b. block_body cr key lane (pk_dg (ps ! i)) = Some (hdr, b) \<and>
           co_seq (cs ! i) = bh_seq_no hdr \<and> co_flags (cs ! i) = bh_flags hdr)) \<and>
     sr_inv (cn_in q') \<and> sr_inv (cn_out q') \<and> inv (cn_sink q') \<and> consumer_ks_ok cr key lane (cn_ks q')"
proof -
  obtain a ir where a: "readable (cn_in q) = (a, ir)" by force
  obtain r or where r: "writable (cn_out q) = (r, or)" by force
  let ?n = "min (min (unat a) (unat r)) kWriteBatch"
  let ?sl = "map (\<lambda>i. (sr_slots ir ! slot_for_read (of_nat i) ir, sr_slots or ! slot_for_write (of_nat i) or)) [0..<?n]"
  obtain bs ks where b: "consume_blocks cr key lane ?sl (cn_ks q) = (bs, ks)" by force
  from d a r b obtain cs failed s where n: "?n \<noteq> 0" and w: "write_runs wr bs (cn_sink q) = Some (cs, failed, s)"
    and q': "q' = \<lparr>cn_in = consume (of_nat ?n) ir, cn_out = commit (of_nat ?n) (write_slots 0 cs or),
                   cn_ks = ks, cn_sink = s, cn_io_failed = cn_io_failed q \<or> failed\<rparr>"
    unfolding drain_channel_def Let_def a r prod.case b
    by (auto simp: Option.bind_eq_Some_conv split: if_splits)
  note ro = readable_offers [OF inv(1) a] and wg = writable_grants [OF inv(2) r]
  have "?n \<le> unat (sr_tail_cache ir - sr_head ir)" using ro(2) by simp
  note c = consume_returns [OF ro(1) this]
  have fsts: "map fst ?sl = map (\<lambda>i. sr_slots ir ! slot_for_read (of_nat i) ir) [0..<?n]" by (simp add: comp_def)
  have split: "sr_contents (cn_in q) = map fst ?sl @ sr_contents (cn_in q')"
    unfolding fsts q' using c(2) ro(3) by simp
  then have "\<forall>(s, _) \<in> set ?sl. genuine cr key lane src s"
    using src(3) unfolding split by fastforce
  with consume_blocks_spec [OF inv(4) b, of src] have
    bs: "consumer_ks_ok cr key lane ks" "list_all2 (\<lambda>(s, _). block_outcome cr key lane s) ?sl bs"
      "\<forall>x \<in> set bs. item_ok src x" by blast+
  note wr = write_runs_agrees [OF src(1) inv(3) src(2) bs(3) w] and out = write_runs_outcomes [OF w]
  have l: "length cs = ?n" using bs(2) wr by (auto dest: list_all2_lengthD)
  have "unat (sr_tail or - sr_head_cache or) + length cs \<le> unat (sr_cap or)" using wg(2) l by linarith
  note push = ring_push [OF wg(1) this]
  show ?thesis
  proof (intro exI conjI)
    show "sr_contents (cn_in q) = map fst ?sl @ sr_contents (cn_in q')" by (rule split)
    show "map fst ?sl \<noteq> []" using n by simp
    show "sr_contents (cn_out q') = sr_contents (cn_out q) @ cs" using push(2) wg(3) by (simp add: q' l)
    show "agrees src (W \<union> reported cr key lane (map fst ?sl) cs) (view (cn_sink q'))"
      using wr covered_reported [OF bs(2) out] by (simp only: q' consumer.simps)
    show "\<forall>i < length cs. co_result (cs ! i) = WrWritten \<longrightarrow>
        (\<exists>hdr b. block_body cr key lane (pk_dg (map fst ?sl ! i)) = Some (hdr, b) \<and>
           co_seq (cs ! i) = bh_seq_no hdr \<and> co_flags (cs ! i) = bh_flags hdr)"
      using completion_header [OF bs(2) out] by blast
  qed (use c(1) push(1) wr bs(1) l in \<open>auto simp: q'\<close>)
qed

end

section \<open>Every interleaving of a lane's pipeline\<close>

inductive pipe_step ::
  "Crypto \<Rightarrow> LaneKey option \<Rightarrow> u16 \<Rightarrow> byte list \<Rightarrow> (u64 \<Rightarrow> byte list list \<Rightarrow> 's \<Rightarrow> (bool \<times> 's) option) set \<Rightarrow>
   's pipe \<Rightarrow> 's pipe \<Rightarrow> bool"
  for cr key lane src wrs where
  pipe_route: "pipe_step cr key lane src wrs p
     (p\<lparr>pi_consumer := (pi_consumer p)\<lparr>cn_in := commit (of_nat (length ps)) (write_slots 0 ps r)\<rparr>,
        pi_routed := pi_routed p @ ps\<rparr>)"
  if "writable (cn_in (pi_consumer p)) = (room, r)" "length ps \<le> unat room"
    "\<forall>s \<in> set ps. genuine cr key lane src s"
| pipe_drain: "pipe_step cr key lane src wrs p (p\<lparr>pi_consumer := q'\<rparr>)"
  if "wr \<in> wrs" "drain_channel cr wr key lane (pi_consumer p) = Some (worked, q')"
| pipe_collect: "pipe_step cr key lane src wrs p
     (p\<lparr>pi_consumer := (pi_consumer p)\<lparr>cn_out := consume (of_nat n) r\<rparr>,
        pi_reported := pi_reported p @ map (\<lambda>i. sr_slots r ! slot_for_read (of_nat i) r) [0..<n]\<rparr>)"
  if "readable (cn_out (pi_consumer p)) = (avail, r)" "n \<le> unat avail"
| pipe_other: "pipe_step cr key lane src wrs p (p\<lparr>pi_consumer := (pi_consumer p)\<lparr>cn_sink := s'\<rparr>\<rparr>)"
  if "wr \<in> wrs" "wr off iov (cn_sink (pi_consumer p)) = Some (ok, s')"
    "concat iov = take n (drop (unat off) src)" "unat off + n \<le> length src"

lemma reported_append:
  assumes "length ps = length cs"
  shows "reported cr key lane (ps @ ps') (cs @ cs') = reported cr key lane ps cs \<union> reported cr key lane ps' cs'"
proof -
  have "{i. i < length (cs @ cs') \<and> co_result ((cs @ cs') ! i) = WrWritten} =
      {i. i < length cs \<and> co_result (cs ! i) = WrWritten} \<union>
      (\<lambda>i. length cs + i) ` {i. i < length cs' \<and> co_result (cs' ! i) = WrWritten}" (is "?A = ?B")
  proof (rule set_eqI)
    fix i
    show "i \<in> ?A \<longleftrightarrow> i \<in> ?B"
    proof (cases "i < length cs")
      case False
      then obtain j where "i = length cs + j" using le_Suc_ex not_less by blast
      then show ?thesis by auto
    qed (auto simp: nth_append)
  qed
  moreover have "(\<Union>i \<in> {i. i < length cs \<and> co_result (cs ! i) = WrWritten}. block_range cr key lane ((ps @ ps') ! i)) =
      reported cr key lane ps cs" using assms by (auto simp: reported_def nth_append)
  ultimately show ?thesis using assms by (simp only: reported_def image_Un Union_Un_distrib image_image) (simp add: nth_append)
qed

text \<open>The reader's two logs and the two rings, in lockstep.\<close>

definition pipe_logs :: "'s pipe \<Rightarrow> PacketSlot list \<Rightarrow> Completion list \<Rightarrow> bool" where
  "pipe_logs p ps cs \<longleftrightarrow>
     pi_routed p = ps @ sr_contents (cn_in (pi_consumer p)) \<and>
     cs = pi_reported p @ sr_contents (cn_out (pi_consumer p)) \<and> length ps = length cs"

definition pipe_inv ::
  "('s \<Rightarrow> bool) \<Rightarrow> ('s \<Rightarrow> byte list) \<Rightarrow> Crypto \<Rightarrow> LaneKey option \<Rightarrow> u16 \<Rightarrow> byte list \<Rightarrow> nat set \<Rightarrow> 's pipe \<Rightarrow> bool" where
  "pipe_inv sinv view cr key lane src W p \<longleftrightarrow>
     sr_inv (cn_in (pi_consumer p)) \<and> sr_inv (cn_out (pi_consumer p)) \<and> sinv (cn_sink (pi_consumer p)) \<and>
     consumer_ks_ok cr key lane (cn_ks (pi_consumer p)) \<and> (\<forall>s \<in> set (pi_routed p). genuine cr key lane src s) \<and>
     (\<exists>ps cs. pipe_logs p ps cs \<and> agrees src (W \<union> reported cr key lane ps cs) (view (cn_sink (pi_consumer p))))"

lemma drain_pipe_inv:
  assumes i: "pipe_inv sinv view cr key lane src W p" and s: "sink sinv view wr" "length src < 2 ^ 64"
    and d: "drain_channel cr wr key lane (pi_consumer p) = Some (worked, q')"
  shows "pipe_inv sinv view cr key lane src W (p\<lparr>pi_consumer := q'\<rparr>)"
proof -
  let ?q = "pi_consumer p"
  from i obtain ps cs where l: "pipe_logs p ps cs" "agrees src (W \<union> reported cr key lane ps cs) (view (cn_sink ?q))"
    and q: "sr_inv (cn_in ?q)" "sr_inv (cn_out ?q)" "sinv (cn_sink ?q)" "consumer_ks_ok cr key lane (cn_ks ?q)"
      "\<forall>s \<in> set (pi_routed p). genuine cr key lane src s" by (auto simp: pipe_inv_def)
  show ?thesis
  proof (cases worked)
    case False
    with d have "drain_channel cr wr key lane ?q = Some (False, q')" by simp
    from drain_idle [OF this q(1,2)] l q show ?thesis by (auto simp: pipe_inv_def pipe_logs_def)
  next
    case True
    have "\<forall>s \<in> set (sr_contents (cn_in ?q)). genuine cr key lane src s" using q(5) l(1) by (simp add: pipe_logs_def)
    from sink.drain_agrees [OF s(1) q(1-4) s(2) l(2) this] d True obtain ps' cs' where
      n: "sr_contents (cn_in ?q) = ps' @ sr_contents (cn_in q')"
        "sr_contents (cn_out q') = sr_contents (cn_out ?q) @ cs'" "length cs' = length ps'"
        "agrees src (W \<union> reported cr key lane ps cs \<union> reported cr key lane ps' cs') (view (cn_sink q'))"
        "sr_inv (cn_in q')" "sr_inv (cn_out q')" "sinv (cn_sink q')" "consumer_ks_ok cr key lane (cn_ks q')"
      by auto
    have "pipe_logs (p\<lparr>pi_consumer := q'\<rparr>) (ps @ ps') (cs @ cs')" using l(1) n(1-3) by (simp add: pipe_logs_def)
    moreover have "length ps = length cs" using l(1) by (simp add: pipe_logs_def)
    ultimately show ?thesis
      using n(4-) q(5) reported_append [of ps cs cr key lane ps' cs']
      by (auto simp: pipe_inv_def Un_assoc intro!: exI [of _ "ps @ ps'"] exI [of _ "cs @ cs'"])
  qed
qed

lemma pipe_step_inv:
  assumes "pipe_step cr key lane src wrs p p'" "\<forall>wr \<in> wrs. sink sinv view wr" "length src < 2 ^ 64"
    "pipe_inv sinv view cr key lane src W p"
  shows "pipe_inv sinv view cr key lane src W p'"
  using assms(1)
proof cases
  case (pipe_route room r ps)
  from assms(4) have q: "sr_inv (cn_in (pi_consumer p))" by (simp add: pipe_inv_def)
  note wg = writable_grants [OF q pipe_route(2)]
  have "unat (sr_tail r - sr_head_cache r) + length ps \<le> unat (sr_cap r)" using wg(2) pipe_route(3) by linarith
  from ring_push [OF wg(1) this] wg(3) assms(4) pipe_route(4) show ?thesis
    by (fastforce simp: pipe_route(1) pipe_inv_def pipe_logs_def)
next
  case (pipe_drain wr worked q')
  then show ?thesis using drain_pipe_inv [OF assms(4) _ assms(3) pipe_drain(3)] assms(2) by simp
next
  case (pipe_collect avail r n)
  from assms(4) have q: "sr_inv (cn_out (pi_consumer p))" by (simp add: pipe_inv_def)
  note ro = readable_offers [OF q pipe_collect(2)]
  have "n \<le> unat (sr_tail_cache r - sr_head r)" using ro(2) pipe_collect(3) by simp
  from consume_returns [OF ro(1) this] ro(3) assms(4) show ?thesis
    by (fastforce simp: pipe_collect(1) pipe_inv_def pipe_logs_def)
next
  case (pipe_other wr off iov ok s' n)
  from assms(4) obtain ps cs where l: "pipe_logs p ps cs" "sinv (cn_sink (pi_consumer p))"
    "agrees src (W \<union> reported cr key lane ps cs) (view (cn_sink (pi_consumer p)))" by (auto simp: pipe_inv_def)
  have "sink sinv view wr" using assms(2) pipe_other(2) by blast
  from sink.write_agrees [OF this l(2,3) pipe_other(4,5,3)]
  have "sinv s'" "agrees src (W \<union> reported cr key lane ps cs) (view s')" by (auto simp: agrees_def split: if_splits)
  then show ?thesis using assms(4) l(1) by (auto simp: pipe_other(1) pipe_inv_def pipe_logs_def)
qed

lemma pipe_reach_inv:
  assumes "(pipe_step cr key lane src wrs)\<^sup>*\<^sup>* p p'" "\<forall>wr \<in> wrs. sink sinv view wr" "length src < 2 ^ 64"
    "pipe_inv sinv view cr key lane src W p"
  shows "pipe_inv sinv view cr key lane src W p'"
  using assms(1)
proof induction
  case (step y z)
  then show ?case using pipe_step_inv [OF step(2) assms(2,3)] by blast
qed (rule assms(4))

definition new_pipe :: "PacketSlot SpscRing \<Rightarrow> Completion SpscRing \<Rightarrow> 's \<Rightarrow> 's pipe" where
  "new_pipe inr outr s =
     \<lparr>pi_consumer = \<lparr>cn_in = inr, cn_out = outr, cn_ks = None, cn_sink = s, cn_io_failed = False\<rparr>,
      pi_routed = [], pi_reported = []\<rparr>"

definition file_writes :: "(u64 \<Rightarrow> byte list list \<Rightarrow> FileSink \<Rightarrow> (bool \<times> FileSink) option) set" where
  "file_writes = range (\<lambda>ans off iov. fs_write (ans off iov) off iov)"

text \<open>
  C5: however the reader of a lane, its consumer and the consumers of the other lanes interleave,
  and however the operating system answers the writes of the file sink (short, interrupted or
  failing), the completions the reader receives are those of the datagrams it handed over, in order,
  and the output has the sender's bytes at the place of every block that was reported as written:
  what the receiver acknowledges is in the file. Forged datagrams may be among those handed over,
  as long as none of them opens under the lane's key.
\<close>

theorem written_blocks_are_in_output:
  assumes rings: "new_spsc c fill = Some inr" "unat c \<le> 2 ^ 63" "new_spsc d fill' = Some outr" "unat d \<le> 2 ^ 63"
    and s: "fs_inv s" "agrees src W (fs_view s)" "length src < 2 ^ 64"
    and run: "(pipe_step cr key lane src file_writes)\<^sup>*\<^sup>* (new_pipe inr outr s) p"
  shows "length (pi_reported p) \<le> length (pi_routed p) \<and>
    agrees src (W \<union> reported cr key lane (take (length (pi_reported p)) (pi_routed p)) (pi_reported p))
      (fs_view (cn_sink (pi_consumer p)))"
proof -
  have w: "\<forall>wr \<in> file_writes. sink fs_inv fs_view wr" using file_sink.sink_axioms by (auto simp: file_writes_def)
  have "pipe_logs (new_pipe inr outr s) [] []" "reported cr key lane [] [] = {}"
    using new_spsc_inv [OF rings(1,2)] new_spsc_inv [OF rings(3,4)] by (auto simp: pipe_logs_def new_pipe_def reported_def)
  then have "pipe_inv fs_inv fs_view cr key lane src W (new_pipe inr outr s)"
    using new_spsc_inv [OF rings(1,2)] new_spsc_inv [OF rings(3,4)] s
    by (auto simp: pipe_inv_def new_pipe_def consumer_ks_ok_def split: option.splits intro!: exI [of _ "[]"])
  from pipe_reach_inv [OF run w s(3) this] obtain ps cs where
    l: "pipe_logs p ps cs" "agrees src (W \<union> reported cr key lane ps cs) (fs_view (cn_sink (pi_consumer p)))"
    by (auto simp: pipe_inv_def)
  let ?n = "length (pi_reported p)"
  have n: "?n \<le> length ps" "take ?n (pi_routed p) = take ?n ps" "length (take ?n ps) = ?n"
    using l(1) by (auto simp: pipe_logs_def)
  have "reported cr key lane ps cs = reported cr key lane (take ?n ps @ drop ?n ps)
      (pi_reported p @ sr_contents (cn_out (pi_consumer p)))" using l(1) by (simp add: pipe_logs_def)
  then have "reported cr key lane (take ?n ps) (pi_reported p) \<subseteq> reported cr key lane ps cs"
    unfolding reported_append [OF n(3)] by blast
  then show ?thesis using l n(1,2) by (auto simp: agrees_def pipe_logs_def)
qed

definition demo_packet :: PacketSlot where
  "demo_packet = \<lparr>pk_src = no_peer, pk_lane_base = 0, pk_lane_total = 3,
     pk_dg = [8, 0, 0, 0] @ replicate 8 0 @ [0, 0, 3] @ replicate 16 0 @ [7, 8, 9]\<rparr>"

definition small_ring :: "'a \<Rightarrow> 'a SpscRing" where
  "small_ring fill = \<lparr>sr_head = 0, sr_tail_cache = 0, sr_tail = 0, sr_head_cache = 0, sr_cap = 2, sr_mask = 1,
     sr_slots = [fill, fill]\<rparr>"

lemma small_ring_new: "new_spsc 2 fill = Some (small_ring fill)"
  by (simp add: new_spsc_def round_up_pow2_def round_up_loop.simps small_ring_def) (simp add: numeral_2_eq_2)

definition demo_routed :: "FileSink consumer" where
  "demo_routed = \<lparr>cn_in = commit 1 (write_slots 0 [demo_packet] (small_ring demo_packet)),
     cn_out = small_ring new_completion, cn_ks = None, cn_sink = demo_sink, cn_io_failed = False\<rparr>"

definition demo_write :: "u64 \<Rightarrow> byte list list \<Rightarrow> FileSink \<Rightarrow> (bool \<times> FileSink) option" where
  "demo_write off iov = fs_write [Eintr, Wrote 1, Wrote 2] off iov"

lemma demo_drain:
  "case drain_channel demo_crypto demo_write None 0 demo_routed of
     Some (True, q) \<Rightarrow>
       (case readable (cn_out q) of (a, r) \<Rightarrow> unat a = 1 \<and> co_result (sr_slots r ! slot_for_read 0 r) = WrWritten)
   | _ \<Rightarrow> False"
  by code_simp

lemma demo_range: "block_range demo_crypto None 0 demo_packet = {0, 1, 2}"
  by code_simp

lemma demo_genuine: "genuine demo_crypto None 0 [7, 8, 9] demo_packet"
proof -
  have "case block_body demo_crypto None 0 (pk_dg demo_packet) of
      Some (h, b) \<Rightarrow> unat (pk_lane_base demo_packet + bh_offset h) = 0 \<and> b = [7, 8, 9] | None \<Rightarrow> False"
    by code_simp
  then show ?thesis by (auto simp: genuine_def)
qed

theorem written_blocks_are_in_output_witness:
  "\<exists>p. (pipe_step demo_crypto None 0 [7, 8, 9] file_writes)\<^sup>*\<^sup>*
         (new_pipe (small_ring demo_packet) (small_ring new_completion) demo_sink) p \<and>
       map co_result (pi_reported p) = [WrWritten] \<and> fs_view (cn_sink (pi_consumer p)) = [7, 8, 9]"
proof -
  let ?step = "pipe_step demo_crypto None 0 [7, 8, 9] file_writes"
  let ?p0 = "new_pipe (small_ring demo_packet) (small_ring new_completion) demo_sink"
  let ?p1 = "?p0\<lparr>pi_consumer := demo_routed, pi_routed := [demo_packet]\<rparr>"
  from demo_drain obtain q where q: "drain_channel demo_crypto demo_write None 0 demo_routed = Some (True, q)"
    by (auto split: option.splits prod.splits bool.splits)
  obtain a r where r: "readable (cn_out q) = (a, r)" by force
  with demo_drain q have a: "unat a = 1" and c: "co_result (sr_slots r ! slot_for_read (of_nat 0) r) = WrWritten"
    by simp_all
  let ?c = "sr_slots r ! slot_for_read (of_nat 0) r"
  let ?p2 = "?p1\<lparr>pi_consumer := q\<rparr>"
  let ?p3 = "?p2\<lparr>pi_consumer := q\<lparr>cn_out := consume (of_nat 1) r\<rparr>, pi_reported := [?c]\<rparr>"
  have "writable (small_ring demo_packet) = (2, small_ring demo_packet)"
    by (simp add: writable_def small_ring_def)
  then have s1: "?step ?p0 ?p1"
    using pipe_route [of ?p0 2 "small_ring demo_packet" "[demo_packet]" demo_crypto None 0 "[7, 8, 9]" file_writes]
      demo_genuine by (simp add: new_pipe_def demo_routed_def)
  have "demo_write \<in> file_writes"
    by (auto simp: file_writes_def demo_write_def fun_eq_iff intro!: exI [of _ "\<lambda>_ _. [Eintr, Wrote 1, Wrote 2]"])
  then have s2: "?step ?p1 ?p2" using pipe_drain [of demo_write file_writes demo_crypto None 0 ?p1] q by simp
  have s3: "?step ?p2 ?p3"
    using pipe_collect [of ?p2 a r 1] r a by (simp add: new_pipe_def)
  note run = rtranclp.rtrancl_into_rtrancl [OF rtranclp.rtrancl_into_rtrancl [OF r_into_rtranclp [of ?step, OF s1] s2] s3]
  note good = fs_session_good [OF demo_sink_session(1)]
  have s: "fs_inv demo_sink" "agrees [7, 8, 9] {} (fs_view demo_sink)"
    using good by (auto simp: fs_good_def fs_inv_def agrees_def fs_view_def)
  have l: "length [7, 8, 9 :: byte] < 2 ^ 64" by simp
  have "{i. i < length [?c] \<and> co_result ([?c] ! i) = WrWritten} = {0}" using c by auto
  then have rep: "reported demo_crypto None 0 [demo_packet] [?c] = {0, 1, 2}"
    unfolding reported_def using demo_range by simp
  have "agrees [7, 8, 9] {0, 1, 2} (fs_view (cn_sink q))"
    using written_blocks_are_in_output [OF small_ring_new _ small_ring_new _ s l run] rep by simp
  then have "fs_view (cn_sink q) = [7, 8, 9]"
    by (auto simp: agrees_def length_Suc_conv numeral_eq_Suc)
  with run c show ?thesis by (intro exI [of _ ?p3]) simp
qed

end
