(* ===== verification/Recv_Lane.thy ===== *)
theory Recv_Lane
  imports Rx_Pipeline Receiver
begin

text \<open>
  A receiving lane: the reader of \<^verbatim>\<open>recv_lane\<close> in \<^verbatim>\<open>src/src/proto/transfer.cpp\<close>. It takes datagrams from
  its socket, answers the handshake, hands blocks to the consumers, takes their verdicts and sends
  acknowledgements.

  The local variables of the function are the record \<open>reader\<close>, the part of \<^verbatim>\<open>RxPipeline\<close> the lane touches
  is the record \<open>RxPipeline\<close>, and what the socket is given to send is the list \<open>rl_sent\<close>. A handler is
  given the clock reading and the random number it would obtain. \<^term>\<open>None\<close> means a handler that does
  not return. The sink is the argument \<open>so\<close>, its operations as the class \<^verbatim>\<open>Sink\<close> declares them.
\<close>

section \<open>State\<close>

definition kWindow :: u64 where [simp]: "kWindow = 1024"
definition kRxBatch :: nat where [simp]: "kRxBatch = 64"
definition kCloseGraceNs :: u64 where [simp]: "kCloseGraceNs = 1500000000"
definition kQuietAfterCompletionNs :: u64 where [simp]: "kQuietAfterCompletionNs = 400000000"
definition kMaxQuietAcks :: u32 where [simp]: "kMaxQuietAcks = 3"

abbreviation u64_max :: u64 where "u64_max \<equiv> 0xFFFFFFFFFFFFFFFF"

text \<open>The rings of a lane: one to each writer, and one for retransmissions.\<close>

datatype chan = Writer nat | Rtx

datatype SinkState = SinkPending | SinkReady | SinkFailed

record 's Sink =
  so_prepare :: "u64 \<Rightarrow> u64 \<Rightarrow> 's \<Rightarrow> bool \<times> 's"
  so_resumed :: "'s \<Rightarrow> bool"
  so_resumed_bytes :: "'s \<Rightarrow> u64"
  so_missing :: "u64 \<Rightarrow> u64 \<Rightarrow> 's \<Rightarrow> ResumeRange list"

text \<open>The two sinks of the program; the flags are the answers of the operating system.\<close>

definition file_sink_ops :: "bool \<Rightarrow> bool \<Rightarrow> FileSink Sink" where
  "file_sink_ops alloc_ok trunc_ok =
     \<lparr>so_prepare = fs_prepare alloc_ok trunc_ok, so_resumed = fs_resumed, so_resumed_bytes = fs_resumed_bytes,
      so_missing = fs_missing\<rparr>"

definition memory_sink_ops :: "bool \<Rightarrow> MemorySink Sink" where
  "memory_sink_ops alloc_ok =
     \<lparr>so_prepare = (\<lambda>n id. ms_prepare alloc_ok n), so_resumed = (\<lambda>_. False), so_resumed_bytes = (\<lambda>_. 0),
      so_missing = (\<lambda>beg fin _. sink_missing beg fin)\<rparr>"

record 's RxPipeline =
  rp_writers :: u16
  rp_ring :: "chan \<Rightarrow> PacketSlot SpscRing"
  rp_done :: "chan \<Rightarrow> Completion SpscRing"
  rp_key :: LaneKey
  rp_file_total :: u64
  rp_sink_state :: SinkState
  rp_io_failed :: bool
  rp_session_total :: u64
  rp_digest :: "byte list"
  rp_have_digest :: bool
  rp_stop_all :: bool
  rp_sink :: 's

record reader =
  rd_rx :: ReceiverStream
  rd_dispatched :: "u64 list"
  rd_pending :: u64
  rd_lane_base :: u64
  rd_shard_bytes :: u64
  rd_final_seq :: u64
  rd_written :: u64
  rd_expected_bytes :: u64
  rd_resume_answer :: "byte list list"
  rd_delivered :: u64
  rd_last_ack_blocks :: u64
  rd_last_ack_ns :: u64
  rd_auth_failures :: u64
  rd_rtt_est_ns :: u64
  rd_nack_sent_ns :: u64
  rd_completed_at_ns :: u64
  rd_have_start :: bool
  rd_have_peer :: bool
  rd_peer_finished :: bool
  rd_peer_aborted :: bool
  rd_peer_nonce :: u64
  rd_peer :: PeerAddr
  rd_auth :: "ControlAuth option"
  rd_path :: PathValidator
  rd_bad_starts :: u64
  rd_last_auth_reply_ns :: u64
  rd_token_secret :: "byte list"
  rd_quiet_acks :: u32
  rd_last_version_reply_ns :: u64
  rd_advertised_rwnd :: u32
  rd_last_rx_ns :: u64
  rd_res :: LaneResult
  rd_returned :: bool

record 's recv_lane =
  rl_rd :: reader
  rl_p :: "'s RxPipeline"
  rl_sent :: "(byte list \<times> PeerAddr) list"

definition new_reader :: "u16 \<Rightarrow> u64 \<Rightarrow> u64 \<Rightarrow> u64 \<Rightarrow> reader" where
  "new_reader lane rnd1 rnd2 now =
     \<lparr>rd_rx = new_receiver lane (ucast kWindow) True, rd_dispatched = replicate (unat kWindow) u64_max,
      rd_pending = 0, rd_lane_base = 0, rd_shard_bytes = 0, rd_final_seq = u64_max, rd_written = 0,
      rd_expected_bytes = 0, rd_resume_answer = [], rd_delivered = 0, rd_last_ack_blocks = 0,
      rd_last_ack_ns = 0, rd_auth_failures = 0, rd_rtt_est_ns = 0, rd_nack_sent_ns = 0,
      rd_completed_at_ns = 0, rd_have_start = False, rd_have_peer = False, rd_peer_finished = False,
      rd_peer_aborted = False, rd_peer_nonce = 0, rd_peer = no_peer, rd_auth = None,
      rd_path = new_path_validator, rd_bad_starts = 0, rd_last_auth_reply_ns = 0,
      rd_token_secret = put_u64 rnd1 @ put_u64 rnd2, rd_quiet_acks = 0, rd_last_version_reply_ns = 0,
      rd_advertised_rwnd = kRwndUnlimited, rd_last_rx_ns = now, rd_res = new_lane_result,
      rd_returned = False\<rparr>"

section \<open>Small operations\<close>

definition sock_send :: "byte list option \<Rightarrow> PeerAddr \<Rightarrow> 's recv_lane \<Rightarrow> 's recv_lane" where
  "sock_send dg to l = (case dg of None \<Rightarrow> l | Some d \<Rightarrow> l\<lparr>rl_sent := rl_sent l @ [(d, to)]\<rparr>)"

definition sock_send_all :: "byte list list \<Rightarrow> PeerAddr \<Rightarrow> 's recv_lane \<Rightarrow> 's recv_lane" where
  "sock_send_all dgs to l = l\<lparr>rl_sent := rl_sent l @ map (\<lambda>d. (d, to)) dgs\<rparr>"

definition upd_rd :: "(reader \<Rightarrow> reader) \<Rightarrow> 's recv_lane \<Rightarrow> 's recv_lane" where
  "upd_rd f l = l\<lparr>rl_rd := f (rl_rd l)\<rparr>"

definition upd_p :: "('s RxPipeline \<Rightarrow> 's RxPipeline) \<Rightarrow> 's recv_lane \<Rightarrow> 's recv_lane" where
  "upd_p f l = l\<lparr>rl_p := f (rl_p l)\<rparr>"

text \<open>What the lane signs and sends to its peer.\<close>

definition send_ctl :: "Crypto \<Rightarrow> byte list option \<Rightarrow> PeerAddr \<Rightarrow> 's recv_lane \<Rightarrow> 's recv_lane" where
  "send_ctl cr dg to l =
     (let (d, auth) = seal_ctl cr (rd_auth (rl_rd l)) dg (kMaxAuxDatagramSize + 64)
      in sock_send d to (upd_rd (\<lambda>r. r\<lparr>rd_auth := auth\<rparr>) l))"

definition probe_path :: "Crypto \<Rightarrow> u16 \<Rightarrow> PeerAddr \<Rightarrow> u64 \<Rightarrow> u64 \<Rightarrow> 's recv_lane \<Rightarrow> 's recv_lane" where
  "probe_path cr lane src now rnd l =
     (let r = rl_rd l; (challenge, path) = want_probe rnd src now (rd_path r) in
      case challenge of
        None \<Rightarrow> l\<lparr>rl_rd := r\<lparr>rd_path := path\<rparr>\<rparr>
      | Some c \<Rightarrow>
          let (dgs, auth) = send_path_probe cr MsgPathChallenge lane (rd_peer_nonce r) c (rd_auth r)
          in sock_send_all dgs src (l\<lparr>rl_rd := r\<lparr>rd_path := path, rd_auth := auth\<rparr>\<rparr>))"

definition send_resume_answer :: "'s recv_lane \<Rightarrow> 's recv_lane" where
  "send_resume_answer l = sock_send_all (rd_resume_answer (rl_rd l)) (rd_peer (rl_rd l)) l"

definition classify :: "TransferStatus \<Rightarrow> reader \<Rightarrow> TransferStatus" where
  "classify fallback r =
     (if \<not> rd_have_start r \<and> rd_bad_starts r > 0 then AuthFailed
      else let auth_sample = rd_delivered r + rd_auth_failures r in
        if auth_sample \<ge> 20 \<and> rd_auth_failures r * 2 > auth_sample then AuthFailed
        else fallback)"

definition leave :: "TransferStatus \<Rightarrow> reader \<Rightarrow> reader" where
  "leave st r =
     r\<lparr>rd_res := (rd_res r)\<lparr>lr_bytes := rd_written r, lr_auth_failures := rd_auth_failures r, lr_status := st\<rparr>,
       rd_returned := True\<rparr>"

definition give_up :: "Crypto \<Rightarrow> u16 \<Rightarrow> TransferStatus \<Rightarrow> 's recv_lane \<Rightarrow> 's recv_lane" where
  "give_up cr lane st l =
     (let r = rl_rd l;
          l = (if rd_have_peer r \<and> rd_have_start r
               then let (dgs, auth) = send_stream_close cr lane (rd_peer_nonce r) kStreamCloseAborted (rd_auth r)
                    in sock_send_all dgs (rd_peer r) (upd_rd (\<lambda>r. r\<lparr>rd_auth := auth\<rparr>) l)
               else l)
      in upd_rd (leave st) l)"

text \<open>Reading a ring's free space may refresh the producer's copy of the head.\<close>

fun writable_sum :: "nat list \<Rightarrow> 's RxPipeline \<Rightarrow> u64 \<times> 's RxPipeline" where
  "writable_sum [] p = (0, p)"
| "writable_sum (k # ks) p =
     (let (w, r) = writable (rp_ring p (Writer k));
          (rest, p) = writable_sum ks (p\<lparr>rp_ring := (rp_ring p)(Writer k := r)\<rparr>)
      in (w + rest, p))"

definition receive_window :: "'s recv_lane \<Rightarrow> u32 \<times> 's recv_lane" where
  "receive_window l =
     (let (w, p) = writable_sum [0..<unat (rp_writers (rl_p l))] (rl_p l)
      in (ucast (min (rd_pending (rl_rd l) + w) kWindow), l\<lparr>rl_p := p\<rparr>))"

section \<open>Datagrams\<close>

text \<open>
  The session key a \<^verbatim>\<open>StreamStart\<close> proves, and the signer made from it: \<^term>\<open>Some (None, None)\<close> in a
  plaintext session, \<^term>\<open>None\<close> when it does not authenticate.
\<close>

definition start_key ::
  "Crypto \<Rightarrow> byte list \<Rightarrow> u16 \<Rightarrow> StreamStart \<Rightarrow> byte list \<Rightarrow> (byte list option \<times> ControlAuth option) option" where
  "start_key cr psk lane ss dg =
     (let salted = (\<exists>b \<in> set (ss_session_salt ss). b \<noteq> 0); want_crypto = (psk \<noteq> []) in
      if \<not> want_crypto \<and> \<not> salted then Some (None, None)
      else if want_crypto \<and> salted then
        (case derive_session_key cr (Some psk) (Some (ss_session_salt ss)) of
           None \<Rightarrow> None
         | Some key \<Rightarrow>
             let (ok, trial) = control_auth_init cr (Some key) lane 1 new_control_auth in
             if ok \<and> control_open cr dg trial \<noteq> None then Some (Some key, Some trial) else None)
      else None)"

definition refuse_start :: "Crypto \<Rightarrow> u16 \<Rightarrow> u64 \<Rightarrow> StreamStart \<Rightarrow> PeerAddr \<Rightarrow> 's recv_lane \<Rightarrow> 's recv_lane" where
  "refuse_start cr lane t ss src l =
     (let l = upd_rd (\<lambda>r. r\<lparr>rd_bad_starts := rd_bad_starts r + 1\<rparr>) l in
      if t - rd_last_auth_reply_ns (rl_rd l) > 100000000
      then sock_send_all (fst (send_stream_close cr lane (ss_nonce ss) kStreamCloseAuthFailed None)) src
             (upd_rd (\<lambda>r. r\<lparr>rd_last_auth_reply_ns := t\<rparr>) l)
      else l)"

text \<open>The first lane to get here sizes the output; every other lane must agree on the total.\<close>

definition claim_total :: "'s Sink \<Rightarrow> StreamStart \<Rightarrow> 's RxPipeline \<Rightarrow> bool \<times> 's RxPipeline" where
  "claim_total so ss p =
     (if rp_file_total p = u64_max then
        let (ok, s) = so_prepare so (ss_file_total_bytes ss) (ss_file_id ss) (rp_sink p) in
        (True, p\<lparr>rp_file_total := ss_file_total_bytes ss, rp_sink := s,
                 rp_session_total := if ok then ss_file_total_bytes ss - so_resumed_bytes so s
                                     else rp_session_total p,
                 rp_sink_state := if ok then SinkReady else SinkFailed\<rparr>)
      else (rp_file_total p = ss_file_total_bytes ss, p))"

definition begin_session ::
  "Crypto \<Rightarrow> u16 \<Rightarrow> 's Sink \<Rightarrow> byte list option \<Rightarrow> ControlAuth option \<Rightarrow> StreamStart \<Rightarrow> PeerAddr \<Rightarrow>
   's recv_lane \<Rightarrow> 's recv_lane option" where
  "begin_session cr lane so key trial ss src l =
     (let p = rl_p l;
          p = (case key of None \<Rightarrow> p | Some k \<Rightarrow> p\<lparr>rp_key := \<lparr>lk_key = k, lk_ready = True\<rparr>\<rparr>);
          base = ss_stream_base_offset ss
      in do {
        (want, expected) \<leftarrow> wanted_ranges base (so_missing so base (base + ss_total_bytes ss) (rp_sink p));
        let (answer, auth) = encode_resume_answer cr lane (ss_nonce ss) (so_resumed so (rp_sink p)) want
                               (case trial of None \<Rightarrow> rd_auth (rl_rd l) | Some a \<Rightarrow> Some a);
        let r = (rl_rd l)\<lparr>rd_auth := auth, rd_have_start := True, rd_peer_nonce := ss_nonce ss, rd_peer := src,
                   rd_have_peer := True, rd_lane_base := base, rd_shard_bytes := ss_total_bytes ss,
                   rd_expected_bytes := expected, rd_resume_answer := answer,
                   rd_res := (rd_res (rl_rd l))\<lparr>lr_expected := expected, lr_started := True\<rparr>\<rparr>;
        Some (send_resume_answer (l\<lparr>rl_rd := r, rl_p := p\<rparr>))
      })"

definition on_stream_start ::
  "Crypto \<Rightarrow> byte list \<Rightarrow> u16 \<Rightarrow> 's Sink \<Rightarrow> u64 \<Rightarrow> u64 \<Rightarrow> byte list \<Rightarrow> PeerAddr \<Rightarrow> 's recv_lane \<Rightarrow>
   's recv_lane option" where
  "on_stream_start cr psk lane so t rnd dg src l =
     (case decode_stream_start dg of
        accept ss \<Rightarrow>
          (let r = rl_rd l; want_token = address_token (rd_token_secret r) src (ss_nonce ss) in
           if ss_token ss \<noteq> want_token then
             Some (sock_send (encode_retry \<lparr>rt_stream_id = lane, rt_nonce = ss_nonce ss, rt_token = want_token\<rparr>
                                (kMaxAuxDatagramSize + 64)) src l)
           else if \<not> rd_have_start r then
             (case start_key cr psk lane ss dg of
                None \<Rightarrow> Some (refuse_start cr lane t ss src l)
              | Some (key, trial) \<Rightarrow>
                  if \<not> sizes_fit ss then Some l
                  else
                    let (agree, p) = claim_total so ss (rl_p l); l = l\<lparr>rl_p := p\<rparr> in
                    if \<not> agree then Some l
                    else (case rp_sink_state p of
                            SinkFailed \<Rightarrow>
                              Some (upd_rd (\<lambda>r. r\<lparr>rd_res := (rd_res r)\<lparr>lr_status := ResourceLimit\<rparr>,
                                                   rd_returned := True\<rparr>) l)
                          | SinkPending \<Rightarrow> Some l
                          | SinkReady \<Rightarrow> begin_session cr lane so key trial ss src l))
           else if ss_nonce ss = rd_peer_nonce r \<and> ctl_authentic cr (rd_auth r) dg then
             Some (send_resume_answer (if \<not> peer_eq src (rd_peer r) then probe_path cr lane src t rnd l else l))
           else Some l)
      | _ \<Rightarrow> Some l)"

definition on_stream_close :: "Crypto \<Rightarrow> byte list \<Rightarrow> byte list \<Rightarrow> 's recv_lane \<Rightarrow> 's recv_lane" where
  "on_stream_close cr psk dg l =
     (case decode_stream_close dg of
        accept sc \<Rightarrow>
          (let r = rl_rd l in
           if rd_have_start r then
             if sc_nonce sc \<noteq> rd_peer_nonce r \<or> \<not> ctl_authentic cr (rd_auth r) dg then l
             else if sc_reason sc = kStreamCloseAborted then upd_rd (\<lambda>r. r\<lparr>rd_peer_aborted := True\<rparr>) l
             else upd_rd (\<lambda>r. r\<lparr>rd_peer_finished := True\<rparr>) l
           else if sc_reason sc = kStreamCloseAborted \<and> psk = [] then upd_rd (\<lambda>r. r\<lparr>rd_peer_aborted := True\<rparr>) l
           else l)
      | _ \<Rightarrow> l)"

definition on_path_probe ::
  "Crypto \<Rightarrow> u16 \<Rightarrow> MsgType \<Rightarrow> byte list \<Rightarrow> PeerAddr \<Rightarrow> 's recv_lane \<Rightarrow> 's recv_lane" where
  "on_path_probe cr lane type dg src l =
     (let r = rl_rd l in
      if \<not> rd_have_start r then l
      else case decode_path_probe type dg of
        accept pp \<Rightarrow>
          if pp_nonce pp \<noteq> rd_peer_nonce r \<or> \<not> ctl_authentic cr (rd_auth r) dg then l
          else if type = MsgPathChallenge then
            (let (dgs, auth) = send_path_probe cr MsgPathResponse lane (rd_peer_nonce r) (pp_challenge pp) (rd_auth r)
             in sock_send_all dgs src (l\<lparr>rl_rd := r\<lparr>rd_auth := auth\<rparr>\<rparr>))
          else (let (ok, path) = validated src (pp_challenge pp) (rd_path r);
                    r = r\<lparr>rd_path := path\<rparr>
                in l\<lparr>rl_rd := if ok then r\<lparr>rd_peer := src\<rparr> else r\<rparr>)
      | _ \<Rightarrow> l)"

definition on_file_digest :: "Crypto \<Rightarrow> u16 \<Rightarrow> byte list \<Rightarrow> PeerAddr \<Rightarrow> 's recv_lane \<Rightarrow> 's recv_lane" where
  "on_file_digest cr lane dg src l =
     (if lane \<noteq> 0 \<or> \<not> rd_have_start (rl_rd l) then l
      else case decode_digest dg of
        accept dm \<Rightarrow>
          if dm_nonce dm \<noteq> rd_peer_nonce (rl_rd l) \<or> \<not> ctl_authentic cr (rd_auth (rl_rd l)) dg then l
          else send_ctl cr (encode_digest dm (kMaxAuxDatagramSize + 64)) src
                 (if rp_have_digest (rl_p l) then l
                  else upd_p (\<lambda>p. p\<lparr>rp_digest := dm_digest dm, rp_have_digest := True\<rparr>) l)
      | _ \<Rightarrow> l)"

text \<open>The ring a block goes to: runs of adjacent blocks to one writer, retransmissions apart.\<close>

definition route :: "u16 \<Rightarrow> BlockHeader \<Rightarrow> chan" where
  "route writers hdr =
     (if bh_flags hdr AND kFlagRetransmission \<noteq> 0 then Rtx
      else Writer (unat (ucast (bh_seq_no hdr div kRouteRun mod ucast writers) :: u16)))"

definition on_data :: "byte list \<Rightarrow> PeerAddr \<Rightarrow> 's recv_lane \<Rightarrow> 's recv_lane" where
  "on_data dg src l =
     (let r = rl_rd l in
      if \<not> rd_have_start r then l
      else case decode_data_datagram dg of
        accept (hdr, _, _) \<Rightarrow>
          (let base = rs_base_seq_no (rd_rx r); seq = bh_seq_no hdr; i = unat (seq mod kWindow) in
           if seq < base then l
           else if seq - base \<ge> kWindow \<or> is_received (rd_rx r) (seq - base) then l
           else if rd_dispatched r ! i = seq then l
           else
             let c = route (rp_writers (rl_p l)) hdr;
                 (room, ring) = writable (rp_ring (rl_p l) c);
                 l = upd_p (\<lambda>p. p\<lparr>rp_ring := (rp_ring p)(c := ring)\<rparr>) l
             in if room = 0 then l
                else
                  let s = \<lparr>pk_src = src, pk_lane_base = rd_lane_base r, pk_lane_total = rd_shard_bytes r, pk_dg = dg\<rparr>
                  in upd_p (\<lambda>p. p\<lparr>rp_ring := (rp_ring p)(c := commit 1 (write_slots 0 [s] ring))\<rparr>)
                       (upd_rd (\<lambda>r. r\<lparr>rd_dispatched := (rd_dispatched r)[i := seq],
                                      rd_pending := rd_pending r + 1\<rparr>) l))
      | _ \<Rightarrow> l)"

definition on_foreign :: "u64 \<Rightarrow> byte list \<Rightarrow> PeerAddr \<Rightarrow> 's recv_lane \<Rightarrow> 's recv_lane" where
  "on_foreign t dg src l =
     (if is_foreign_version dg = Some True \<and> t - rd_last_version_reply_ns (rl_rd l) > 100000000
      then sock_send (encode_version_mismatch (kMaxAuxDatagramSize + 64)) src
             (upd_rd (\<lambda>r. r\<lparr>rd_last_version_reply_ns := t\<rparr>) l)
      else l)"

definition on_datagram ::
  "Crypto \<Rightarrow> byte list \<Rightarrow> u16 \<Rightarrow> 's Sink \<Rightarrow> u64 \<Rightarrow> u64 \<Rightarrow> byte list \<Rightarrow> PeerAddr \<Rightarrow> 's recv_lane \<Rightarrow>
   's recv_lane option" where
  "on_datagram cr psk lane so t rnd dg src l =
     (case peek_msg_type dg of
        accept type \<Rightarrow>
          if type = MsgStreamStart then on_stream_start cr psk lane so t rnd dg src l
          else if type = MsgStreamClose then Some (on_stream_close cr psk dg l)
          else if type = MsgPathChallenge \<or> type = MsgPathResponse then Some (on_path_probe cr lane type dg src l)
          else if type = MsgFileDigest then Some (on_file_digest cr lane dg src l)
          else if type \<noteq> MsgData then Some l
          else Some (on_data dg src l)
      | _ \<Rightarrow> Some (on_foreign t dg src l))"

section \<open>Verdicts\<close>

text \<open>A retransmission that arrives after a NACK measures one round trip on the receiver's clock.\<close>

definition sample_rtt :: "u64 \<Rightarrow> Completion \<Rightarrow> reader \<Rightarrow> reader" where
  "sample_rtt now c r =
     (if co_flags c AND kFlagRetransmission \<noteq> 0 \<and> rd_nack_sent_ns r \<noteq> 0
      then let sample = now - rd_nack_sent_ns r; est = rd_rtt_est_ns r in
        r\<lparr>rd_rtt_est_ns := if est = 0 then sample else (est * 7 + sample) div 8, rd_nack_sent_ns := 0\<rparr>
      else r)"

definition accepted_block :: "Crypto \<Rightarrow> u16 \<Rightarrow> u64 \<Rightarrow> u64 \<Rightarrow> Completion \<Rightarrow> 's recv_lane \<Rightarrow> 's recv_lane" where
  "accepted_block cr lane now rnd c l =
     upd_rd (\<lambda>r. r\<lparr>rd_written := rd_written r + ucast (co_bytes c), rd_delivered := rd_delivered r + 1\<rparr>)
       (upd_rd (sample_rtt now c)
         (if \<not> peer_eq (co_src c) (rd_peer (rl_rd l)) then probe_path cr lane (co_src c) now rnd l else l))"

text \<open>The block is no longer with a consumer.\<close>

definition take_back :: "u64 \<Rightarrow> reader \<Rightarrow> reader" where
  "take_back seq r =
     (let i = unat (seq mod kWindow) in
      r\<lparr>rd_pending := rd_pending r - 1,
        rd_dispatched := if rd_dispatched r ! i = seq then (rd_dispatched r)[i := u64_max] else rd_dispatched r\<rparr>)"

text \<open>One completion; \<open>now\<close> is the clock while it is handled.\<close>

definition collect_one :: "Crypto \<Rightarrow> u16 \<Rightarrow> u64 \<Rightarrow> u64 \<Rightarrow> Completion \<Rightarrow> 's recv_lane \<Rightarrow> 's recv_lane" where
  "collect_one cr lane now rnd c l =
     (let r = take_back (co_seq c) (rl_rd l) in
      case co_result c of
        WrAuthFailed \<Rightarrow> l\<lparr>rl_rd := r\<lparr>rd_auth_failures := rd_auth_failures r + 1\<rparr>\<rparr>
      | WrIoFailed \<Rightarrow> l\<lparr>rl_rd := r\<rparr>
      | WrWritten \<Rightarrow>
          let r = (if co_flags c AND kFlagLastBlock \<noteq> 0 then r\<lparr>rd_final_seq := co_seq c\<rparr> else r);
              (verdict, rx) = on_receive (rd_rx r) (co_seq c) (co_send_time c) now;
              l = l\<lparr>rl_rd := r\<lparr>rd_rx := rx\<rparr>\<rparr>
          in if verdict = Accepted then accepted_block cr lane now rnd c l else l)"

definition drain_results :: "Crypto \<Rightarrow> u16 \<Rightarrow> u64 \<Rightarrow> u64 \<Rightarrow> chan \<Rightarrow> 's recv_lane \<Rightarrow> 's recv_lane" where
  "drain_results cr lane now rnd ch l =
     (let (n, d) = readable (rp_done (rl_p l) ch);
          cs = map (\<lambda>j. sr_slots d ! slot_for_read (of_nat j) d) [0..<unat n];
          l = fold (collect_one cr lane now rnd) cs l
      in upd_p (\<lambda>p. p\<lparr>rp_done := (rp_done p)(ch := if n \<noteq> 0 then consume n d else d)\<rparr>) l)"

definition drain_all :: "Crypto \<Rightarrow> u16 \<Rightarrow> u64 \<Rightarrow> u64 \<Rightarrow> 's recv_lane \<Rightarrow> 's recv_lane" where
  "drain_all cr lane now rnd l =
     upd_rd (\<lambda>r. r\<lparr>rd_res := (rd_res r)\<lparr>lr_bytes := rd_written r\<rparr>\<rparr>)
       (drain_results cr lane now rnd Rtx
         (fold (\<lambda>k. drain_results cr lane now rnd (Writer k)) [0..<unat (rp_writers (rl_p l))] l))"

section \<open>Acknowledgements\<close>

definition send_ack :: "Crypto \<Rightarrow> u32 \<Rightarrow> 's recv_lane \<Rightarrow> 's recv_lane" where
  "send_ack cr rwnd l =
     (let r = rl_rd l; ack = (build_ack (rd_rx r))\<lparr>ack_nonce := rd_peer_nonce r, ack_rwnd := rwnd\<rparr>
      in send_ctl cr (encode_ack ack (kMaxAuxDatagramSize + 64)) (rd_peer r) l)"

definition ack_tick :: "Crypto \<Rightarrow> u64 \<Rightarrow> 's recv_lane \<Rightarrow> 's recv_lane" where
  "ack_tick cr t l =
     (let r = rl_rd l;
          heard_since_ack = (rd_last_rx_ns r > rd_last_ack_ns r);
          (rwnd_now, l) = receive_window l;
          window_update = (rd_advertised_rwnd r < ucast (kWindow div 4) \<and> rwnd_now \<ge> 2 * rd_advertised_rwnd r + 8)
      in if rd_delivered r - rd_last_ack_blocks r \<ge> 8 \<or> window_update \<or>
            (t - rd_last_ack_ns r > 200000 \<and> (heard_since_ack \<or> rd_quiet_acks r < kMaxQuietAcks))
         then send_ack cr rwnd_now
                (upd_rd (\<lambda>r. r\<lparr>rd_quiet_acks := if heard_since_ack then 0 else rd_quiet_acks r + 1,
                               rd_last_ack_blocks := rd_delivered r, rd_last_ack_ns := t,
                               rd_advertised_rwnd := rwnd_now\<rparr>) l)
         else l)"

definition clamp :: "'a :: linorder \<Rightarrow> 'a \<Rightarrow> 'a \<Rightarrow> 'a" where
  "clamp x lo hi = (if x < lo then lo else if hi < x then hi else x)"

definition reorder_ns :: "u64 \<Rightarrow> u64" where
  "reorder_ns est = (if est = 0 then 3000000 else clamp (est div 2) 1000000 100000000)"

definition renack_ns :: "u64 \<Rightarrow> u64" where
  "renack_ns est = (if est = 0 then 40000000 else clamp (est * 3 div 2) 20000000 500000000)"

definition nack_tick :: "Crypto \<Rightarrow> u64 \<Rightarrow> 's recv_lane \<Rightarrow> 's recv_lane" where
  "nack_tick cr t l =
     (let r = rl_rd l;
          (rx, nack) = collect_nacks (rd_rx r) t (reorder_ns (rd_rtt_est_ns r)) (renack_ns (rd_rtt_est_ns r))
                         \<lparr>nk_stream_id = 0, nk_count = 0, nk_missing = replicate kMaxWindow 0\<rparr>;
          l = l\<lparr>rl_rd := r\<lparr>rd_rx := rx\<rparr>\<rparr>
      in if nk_count nack > 0
         then upd_rd (\<lambda>r. r\<lparr>rd_nack_sent_ns := t\<rparr>)
                (send_ctl cr (encode_nack nack (kMaxAuxDatagramSize + 64)) (rd_peer r) l)
         else l)"

text \<open>Whether the lane is complete and may leave.\<close>

definition completion_tick :: "u16 \<Rightarrow> 's Sink \<Rightarrow> u64 \<Rightarrow> 's recv_lane \<Rightarrow> bool \<times> 's recv_lane" where
  "completion_tick lane so t l =
     (let r = rl_rd l in
      if rd_final_seq r \<noteq> u64_max \<and> rs_base_seq_no (rd_rx r) > rd_final_seq r then
        let r = (if rd_completed_at_ns r = 0
                 then r\<lparr>rd_completed_at_ns := t, rd_res := (rd_res r)\<lparr>lr_end_ns := t\<rparr>\<rparr> else r);
            awaiting_digest = (lane = 0 \<and> so_resumed so (rp_sink (rl_p l)) \<and> \<not> rp_have_digest (rl_p l))
        in (\<not> awaiting_digest \<and>
            (rd_peer_finished r \<or> t - rd_completed_at_ns r > kCloseGraceNs \<or>
             t - max (rd_completed_at_ns r) (rd_last_rx_ns r) \<ge> kQuietAfterCompletionNs),
            l\<lparr>rl_rd := r\<rparr>)
      else (False, l))"

definition final_ack :: "Crypto \<Rightarrow> 's recv_lane \<Rightarrow> 's recv_lane" where
  "final_ack cr l = (let (w, l) = receive_window l in send_ack cr w l)"

definition finish_lane :: "Crypto \<Rightarrow> 's recv_lane \<Rightarrow> 's recv_lane" where
  "finish_lane cr l =
     (let l = (if rd_peer_finished (rl_rd l) then l else (final_ack cr ^^ 8) l);
          r = rl_rd l
      in upd_rd (leave (classify (if rd_written r = rd_expected_bytes r then Ok else Incomplete) r)) l)"

section \<open>The loop\<close>

text \<open>What ends a lane before it looks at its socket.\<close>

definition loop_top :: "Crypto \<Rightarrow> u16 \<Rightarrow> bool \<Rightarrow> 's recv_lane \<Rightarrow> 's recv_lane" where
  "loop_top cr lane cancelled l =
     (if cancelled then upd_p (\<lambda>p. p\<lparr>rp_stop_all := True\<rparr>) (give_up cr lane Cancelled l)
      else if rp_stop_all (rl_p l) then give_up cr lane (classify PeerAborted (rl_rd l)) l
      else if rp_io_failed (rl_p l) then upd_p (\<lambda>p. p\<lparr>rp_stop_all := True\<rparr>) (give_up cr lane IoError l)
      else l)"

definition idle_limit_ns :: "u32 \<Rightarrow> u64" where
  "idle_limit_ns timeout_ms = ucast timeout_ms * 1000000 + 1000000000"

definition note_arrival :: "Crypto \<Rightarrow> u16 \<Rightarrow> u32 \<Rightarrow> u64 \<Rightarrow> bool \<Rightarrow> 's recv_lane \<Rightarrow> 's recv_lane" where
  "note_arrival cr lane timeout_ms now arrived l =
     (if arrived then upd_rd (\<lambda>r. r\<lparr>rd_last_rx_ns := now,
                     rd_res := if lr_start_ns (rd_res r) = 0 then (rd_res r)\<lparr>lr_start_ns := now\<rparr> else rd_res r\<rparr>) l
      else if now - rd_last_rx_ns (rl_rd l) > idle_limit_ns timeout_ms
      then give_up cr lane (classify Timeout (rl_rd l)) l
      else l)"

fun on_batch ::
  "Crypto \<Rightarrow> byte list \<Rightarrow> u16 \<Rightarrow> 's Sink \<Rightarrow> (u64 \<times> u64 \<times> byte list \<times> PeerAddr) list \<Rightarrow> 's recv_lane \<Rightarrow>
   's recv_lane option" where
  "on_batch cr psk lane so [] l = Some l"
| "on_batch cr psk lane so ((t, rnd, dg, src) # rest) l =
     do {
       l \<leftarrow> on_datagram cr psk lane so t rnd dg src l;
       if rd_returned (rl_rd l) then Some l else on_batch cr psk lane so rest l
     }"

definition after_batch :: "Crypto \<Rightarrow> u16 \<Rightarrow> 's Sink \<Rightarrow> u64 \<Rightarrow> u64 \<Rightarrow> u64 \<Rightarrow> 's recv_lane \<Rightarrow> 's recv_lane" where
  "after_batch cr lane so now rnd t l =
     (let l = drain_all cr lane now rnd l; r = rl_rd l in
      if rd_peer_aborted r then
        upd_p (\<lambda>p. p\<lparr>rp_stop_all := True\<rparr>) (upd_rd (leave (classify PeerAborted r)) l)
      else if \<not> rd_have_peer r \<or> \<not> rd_have_start r then l
      else
        let (exit, l) = completion_tick lane so t (nack_tick cr t (ack_tick cr t l))
        in if exit then finish_lane cr l else l)"

record turn =
  tn_cancelled :: bool
  tn_now :: u64
  tn_batch :: "(u64 \<times> u64 \<times> byte list \<times> PeerAddr) list"
  tn_drain_now :: u64
  tn_rnd :: u64
  tn_tick :: u64

definition recv_turn ::
  "Crypto \<Rightarrow> byte list \<Rightarrow> u32 \<Rightarrow> u16 \<Rightarrow> 's Sink \<Rightarrow> turn \<Rightarrow> 's recv_lane \<Rightarrow> 's recv_lane option" where
  "recv_turn cr psk timeout_ms lane so e l =
     (let l = loop_top cr lane (tn_cancelled e) l in
      if rd_returned (rl_rd l) then Some l
      else
        let l = note_arrival cr lane timeout_ms (tn_now e) (tn_batch e \<noteq> []) l in
        if rd_returned (rl_rd l) then Some l
        else do {
          l \<leftarrow> on_batch cr psk lane so (tn_batch e) l;
          if rd_returned (rl_rd l) then Some l
          else Some (after_batch cr lane so (tn_drain_now e) (tn_rnd e) (tn_tick e) l)
        })"

section \<open>Before a session\<close>

lemma stream_start_length: "decode_stream_start dg = accept ss \<Longrightarrow> 80 \<le> length dg"
  unfolding decode_stream_start_def by (auto simp: Option.bind_eq_Some_conv split: if_splits)

lemma path_probe_unstarted [simp]: "\<not> rd_have_start (rl_rd l) \<Longrightarrow> on_path_probe cr lane type dg src l = l"
  by (simp add: on_path_probe_def)

lemma file_digest_unstarted [simp]: "\<not> rd_have_start (rl_rd l) \<Longrightarrow> on_file_digest cr lane dg src l = l"
  by (simp add: on_file_digest_def)

lemma data_unstarted [simp]: "\<not> rd_have_start (rl_rd l) \<Longrightarrow> on_data dg src l = l"
  by (simp add: on_data_def)

text \<open>What a lane without a session does to its reader, and what it answers, is \<open>idle_effect\<close>.\<close>

definition idle_effect :: "byte list \<Rightarrow> byte list \<Rightarrow> PeerAddr \<Rightarrow> 's recv_lane \<Rightarrow> 's recv_lane \<Rightarrow> bool" where
  "idle_effect psk dg src l l' \<longleftrightarrow>
     rl_p l' = rl_p l \<and>
     (\<exists>v ab. rl_rd l' = (rl_rd l)\<lparr>rd_last_version_reply_ns := v, rd_peer_aborted := ab\<rparr> \<and>
        (ab \<longrightarrow> rd_peer_aborted (rl_rd l) \<or> psk = [])) \<and>
     (rl_sent l' = rl_sent l \<or>
      (\<exists>reply. rl_sent l' = rl_sent l @ [(reply, src)] \<and> length reply \<le> max 3 (length dg)))"

lemma idle_effect_refl [simp]: "idle_effect psk dg src l l"
proof -
  have "rl_rd l = (rl_rd l)\<lparr>rd_last_version_reply_ns := rd_last_version_reply_ns (rl_rd l), rd_peer_aborted := rd_peer_aborted (rl_rd l)\<rparr>"
    by simp
  then show ?thesis unfolding idle_effect_def by blast
qed

lemma idle_effect_close: "\<not> rd_have_start (rl_rd l) \<Longrightarrow> idle_effect psk dg src l (on_stream_close cr psk dg l)"
proof -
  assume n: "\<not> rd_have_start (rl_rd l)"
  have "idle_effect psk dg src l (upd_rd (\<lambda>r. r\<lparr>rd_peer_aborted := True\<rparr>) l)" if "psk = []"
    unfolding idle_effect_def using that
    by (auto simp: upd_rd_def intro!: exI [of _ "rd_last_version_reply_ns (rl_rd l)"] exI [of _ True])
  then show ?thesis using n by (auto simp: on_stream_close_def Let_def split: option.splits)
qed

lemma idle_effect_foreign: "idle_effect psk dg src l (on_foreign t dg src l)"
proof -
  have "idle_effect psk dg src l (sock_send (encode_version_mismatch (kMaxAuxDatagramSize + 64)) src
      (upd_rd (\<lambda>r. r\<lparr>rd_last_version_reply_ns := t\<rparr>) l))"
    unfolding idle_effect_def
    by (auto simp: upd_rd_def sock_send_def encode_version_mismatch_def
        intro!: exI [of _ t] exI [of _ "rd_peer_aborted (rl_rd l)"])
  then show ?thesis by (simp add: on_foreign_def)
qed

lemma idle_effect_retry:
  assumes "decode_stream_start dg = accept ss"
  shows "idle_effect psk dg src l (sock_send (encode_retry r cap) src l)"
proof -
  have "idle_effect psk dg src l l" by simp
  moreover have "length (retry_bytes r) = 20" by (simp add: retry_bytes_def put_outer_def)
  ultimately show ?thesis
    using stream_start_length [OF assms] unfolding idle_effect_def
    by (auto simp: sock_send_def encode_retry_def split: option.splits)
qed


definition idle_lane :: "MemorySink recv_lane" where
  "idle_lane =
     \<lparr>rl_rd = new_reader 0 1 2 0,
      rl_p = \<lparr>rp_writers = 1, rp_ring = \<lambda>_. small_ring demo_packet, rp_done = \<lambda>_. small_ring new_completion,
        rp_key = \<lparr>lk_key = [], lk_ready = False\<rparr>, rp_file_total = u64_max, rp_sink_state = SinkPending, rp_io_failed = False,
        rp_session_total = u64_max, rp_digest = [], rp_have_digest = False, rp_stop_all = False, rp_sink = \<lparr>ms_out = []\<rparr>\<rparr>,
      rl_sent = []\<rparr>"

definition tokenless_start :: "byte list" where
  "tokenless_start = [8, 7] @ replicate 78 0"


end
