(* ===== verification/Lane_System.thy ===== *)
theory Lane_System
  imports Recv_Lane
begin

text \<open>
  A receiving lane at work: the reader of \<^verbatim>\<open>recv_lane\<close>, its consumers, the consumers of the other lanes and
  the sink, under every interleaving of their steps. What the lane acknowledges is in the output,
  and a lane that ends with \<^term>\<open>Ok\<close> has every block its sender made.
\<close>

section \<open>The negative acknowledgements keep the window\<close>

lemma collect_nacks_keeps:
  assumes "rs_inv s" "collect_nacks s now reorder renack out = (s', nk)"
  shows "rs_inv s'" "got s' = got s" "rs_base_seq_no s' = rs_base_seq_no s"
proof -
  have l: "length (snd (fold (nack_upd s now reorder renack) ds st)) = length (snd st)" for ds st
    by (induction ds arbitrary: st) (auto simp: nack_upd_def)
  obtain ts where s': "s' = s\<lparr>rs_last_nack_ns := ts\<rparr>" and ts: "length ts = length (rs_last_nack_ns s)"
  proof (cases "\<not> rs_lossless s \<or> \<not> rs_have_any s \<or> rs_highest_received s < rs_base_seq_no s")
    case True
    then have "s' = s\<lparr>rs_last_nack_ns := rs_last_nack_ns s\<rparr>" using assms(2) by (auto simp: collect_nacks_def)
    then show ?thesis using that by blast
  next
    case False
    let ?span = "rs_highest_received s - rs_base_seq_no s"
    have "unat (rs_highest_received s) = unat (rs_base_seq_no s) + unat ?span"
      using False by (simp add: unat_sub word_le_nat_alt not_less)
    moreover have "unat (rs_highest_received s) \<in> got s" "unat (rs_window_size s) \<le> 1024"
      using assms(1) False by (simp_all add: rs_inv_def rs_pre_def)
    ultimately have span: "unat ?span < 1024" using got_bound [OF assms(1)] by fastforce
    have "fst (collect_nacks s now reorder renack out) =
        s\<lparr>rs_last_nack_ns := snd (fold (\<lambda>w. bits_loop (nack_bit s now reorder renack w) (nack_word s ?span w))
        (takeWhile (\<lambda>w. w * 64 \<le> unat ?span) [0..<kMaskWords]) ([], rs_last_nack_ns s))\<rparr>"
      using False unfolding collect_nacks_def Let_def by (simp add: case_prod_beta del: kMaskWords_def)
    then have "s' = s\<lparr>rs_last_nack_ns := snd (fold (\<lambda>w. bits_loop (nack_bit s now reorder renack w) (nack_word s ?span w))
        (takeWhile (\<lambda>w. w * 64 \<le> unat ?span) [0..<kMaskWords]) ([], rs_last_nack_ns s))\<rparr>"
      unfolding assms(2) fst_conv .
    then show ?thesis
      unfolding nack_positions [OF assms(1) span] by (rule that) (simp add: l)
  qed
  have "rs_inv s' = rs_inv s" using ts by (simp add: s' rs_inv_def rs_pre_def got_def ring_bit_def)
  then show "rs_inv s'" using assms(1) by blast
  show "got s' = got s" "rs_base_seq_no s' = rs_base_seq_no s" by (simp_all add: s' got_def ring_bit_def)
qed

section \<open>Steps that leave the data alone\<close>

text \<open>
  \<open>quiet l l'\<close>: what the lane has received, what its rings hold, its place in the output, its key, its
  sink and its status are the same.
\<close>

definition ring_same :: "'a SpscRing \<Rightarrow> 'a SpscRing \<Rightarrow> bool" where
  "ring_same r r' \<longleftrightarrow> (sr_inv r \<longrightarrow> sr_inv r' \<and> sr_contents r' = sr_contents r)"

definition quiet :: "'s recv_lane \<Rightarrow> 's recv_lane \<Rightarrow> bool" where
  "quiet l l' \<longleftrightarrow>
     (rs_inv (rd_rx (rl_rd l)) \<longrightarrow> rs_inv (rd_rx (rl_rd l')) \<and> got (rd_rx (rl_rd l')) = got (rd_rx (rl_rd l)) \<and>
        rs_base_seq_no (rd_rx (rl_rd l')) = rs_base_seq_no (rd_rx (rl_rd l))) \<and>
     rd_have_start (rl_rd l') = rd_have_start (rl_rd l) \<and> rd_lane_base (rl_rd l') = rd_lane_base (rl_rd l) \<and>
     rd_shard_bytes (rl_rd l') = rd_shard_bytes (rl_rd l) \<and> rd_final_seq (rl_rd l') = rd_final_seq (rl_rd l) \<and>
     lr_status (rd_res (rl_rd l')) = lr_status (rd_res (rl_rd l)) \<and>
     rp_key (rl_p l') = rp_key (rl_p l) \<and> rp_sink (rl_p l') = rp_sink (rl_p l) \<and>
     (\<forall>c. ring_same (rp_ring (rl_p l) c) (rp_ring (rl_p l') c)) \<and>
     (\<forall>c. ring_same (rp_done (rl_p l) c) (rp_done (rl_p l') c))"

lemma ring_same_refl [simp]: "ring_same r r" by (simp add: ring_same_def)

lemma ring_same_trans: "ring_same a b \<Longrightarrow> ring_same b c \<Longrightarrow> ring_same a c" by (simp add: ring_same_def)

lemma ring_same_writable: "writable r = (w, r') \<Longrightarrow> ring_same r r'"
  using writable_grants by (auto simp: ring_same_def)

lemma quiet_refl [simp]: "quiet l l" by (simp add: quiet_def)

lemma quiet_trans: "quiet a b \<Longrightarrow> quiet b c \<Longrightarrow> quiet a c"
  unfolding quiet_def by (metis (no_types, lifting) ring_same_trans)

lemma quiet_rd:
  assumes "quiet a b" "rl_p b' = rl_p b" "rd_rx (rl_rd b') = rd_rx (rl_rd b)" "rd_have_start (rl_rd b') = rd_have_start (rl_rd b)"
    "rd_lane_base (rl_rd b') = rd_lane_base (rl_rd b)" "rd_shard_bytes (rl_rd b') = rd_shard_bytes (rl_rd b)"
    "rd_final_seq (rl_rd b') = rd_final_seq (rl_rd b)" "lr_status (rd_res (rl_rd b')) = lr_status (rd_res (rl_rd b))"
  shows "quiet a b'"
  using assms by (simp add: quiet_def)

text \<open>Steps that keep a lane quiet, each after any other.\<close>

named_theorems quiets

lemmas lane_defs = sock_send_def sock_send_all_def upd_rd_def upd_p_def send_ctl_def send_resume_answer_def

lemma quiet_upd_rd [quiets]:
  assumes "quiet a b" "\<And>r. rd_rx (f r) = rd_rx r" "\<And>r. rd_have_start (f r) = rd_have_start r"
    "\<And>r. rd_lane_base (f r) = rd_lane_base r" "\<And>r. rd_shard_bytes (f r) = rd_shard_bytes r"
    "\<And>r. rd_final_seq (f r) = rd_final_seq r" "\<And>r. lr_status (rd_res (f r)) = lr_status (rd_res r)"
  shows "quiet a (upd_rd f b)"
  by (rule quiet_rd [OF assms(1)]) (simp_all add: upd_rd_def assms)

lemma quiet_sock_send [quiets]: "quiet a b \<Longrightarrow> quiet a (sock_send d to b)"
  by (erule quiet_rd) (simp_all add: lane_defs split: option.splits)

lemma quiet_sock_send_all [quiets]: "quiet a b \<Longrightarrow> quiet a (sock_send_all d to b)"
  by (erule quiet_rd) (simp_all add: lane_defs)

lemma quiet_resume_answer [quiets]: "quiet a b \<Longrightarrow> quiet a (send_resume_answer b)"
  by (simp add: send_resume_answer_def quiet_sock_send_all)

lemma quiet_probe [quiets]: "quiet a b \<Longrightarrow> quiet a (probe_path cr lane src now rnd b)"
  by (erule quiet_rd) (auto simp: probe_path_def lane_defs Let_def split: prod.splits option.splits)

lemma quiet_send_ctl [quiets]: "quiet a b \<Longrightarrow> quiet a (send_ctl cr dg to b)"
  by (erule quiet_rd) (auto simp: lane_defs split: prod.splits option.splits)

lemma quiet_digest_set [quiets]: "quiet a b \<Longrightarrow> quiet a (upd_p (\<lambda>p. p\<lparr>rp_digest := d, rp_have_digest := h\<rparr>) b)"
  by (simp add: quiet_def lane_defs)

lemma quiet_stop_all [quiets]: "quiet a b \<Longrightarrow> quiet a (upd_p (\<lambda>p. p\<lparr>rp_stop_all := h\<rparr>) b)"
  by (simp add: quiet_def lane_defs)

lemma quiet_send_ack [quiets]: "quiet a b \<Longrightarrow> quiet a (send_ack cr w b)"
  by (simp add: send_ack_def Let_def quiet_send_ctl)

lemma quiet_writable_sum: "writable_sum ks (rl_p l) = (w, p) \<Longrightarrow> quiet l (l\<lparr>rl_p := p\<rparr>)"
proof (induction ks arbitrary: l w p)
  case (Cons k ks)
  obtain v r where v: "writable (rp_ring (rl_p l) (Writer k)) = (v, r)" by force
  let ?l = "l\<lparr>rl_p := (rl_p l)\<lparr>rp_ring := (rp_ring (rl_p l))(Writer k := r)\<rparr>\<rparr>"
  obtain u where "writable_sum ks (rl_p ?l) = (u, p)" using Cons.prems v by (auto split: prod.splits)
  from Cons.IH [OF this] have "quiet ?l (l\<lparr>rl_p := p\<rparr>)" by simp
  moreover have "quiet l ?l" using ring_same_writable [OF v] by (simp add: quiet_def)
  ultimately show ?case by (rule quiet_trans [rotated])
qed simp

lemma quiet_window: "quiet a l \<Longrightarrow> receive_window l = (w, l') \<Longrightarrow> quiet a l'"
  using quiet_trans [OF _ quiet_writable_sum] by (auto simp: receive_window_def split: prod.splits)

lemma quiet_start:
  assumes "rd_have_start (rl_rd l)" "on_stream_start cr psk lane so t rnd dg src l = Some l'"
  shows "quiet l l'"
  using assms by (auto simp: on_stream_start_def Let_def intro!: quiets split: option.splits if_splits)

lemma quiet_control:
  "quiet l (on_stream_close cr psk dg l)" "quiet l (on_path_probe cr lane type dg src l)" "quiet l (on_foreign t dg src l)"
  "quiet l (on_file_digest cr lane dg src l)"
proof -
  show "quiet l (on_path_probe cr lane type dg src l)"
    by (rule quiet_rd [OF quiet_refl]; auto simp: on_path_probe_def lane_defs Let_def split: option.splits prod.splits)
qed (auto simp: on_stream_close_def on_foreign_def on_file_digest_def Let_def intro!: quiets split: option.splits)

lemma quiet_ack_tick: "quiet l (ack_tick cr t l)"
proof -
  obtain w l1 where w: "receive_window l = (w, l1)" by force
  note quiet_window [OF quiet_refl w]
  then show ?thesis unfolding ack_tick_def Let_def w prod.case by (auto intro!: quiets)
qed

lemma quiet_final_acks: "quiet l ((final_ack cr ^^ n) l)"
proof (induction n)
  case (Suc n)
  have "quiet a (final_ack cr b)" if "quiet a b" for a b :: "'a recv_lane"
    using quiet_window [OF that] by (auto simp: final_ack_def split: prod.splits intro!: quiets)
  then show ?case using Suc by simp
qed simp

lemma quiet_nack_tick: "quiet l (nack_tick cr t l)"
proof -
  let ?r = "rl_rd l"
  obtain rx nack where n: "collect_nacks (rd_rx ?r) t (reorder_ns (rd_rtt_est_ns ?r)) (renack_ns (rd_rtt_est_ns ?r))
      \<lparr>nk_stream_id = 0, nk_count = 0, nk_missing = replicate kMaxWindow 0\<rparr> = (rx, nack)" by force
  have "quiet l (l\<lparr>rl_rd := ?r\<lparr>rd_rx := rx\<rparr>\<rparr>)" using collect_nacks_keeps [OF _ n] by (simp add: quiet_def)
  then show ?thesis unfolding nack_tick_def Let_def n prod.case by (auto intro!: quiets)
qed

lemma quiet_completion: "completion_tick lane so t l = (b, l') \<Longrightarrow> quiet l l'"
  by (rule quiet_rd [OF quiet_refl]) (auto simp: completion_tick_def Let_def split: if_splits)

section \<open>The sender's blocks\<close>

text \<open>
  The sender cut the lane into \<open>blks\<close>: block \<open>n\<close> has sequence number \<open>n\<close>, an offset in the lane and its
  bytes. Positions in the output are those of the lane moved by \<open>base\<close>.
\<close>

type_synonym blocks = "(u64 \<times> byte list) list"

definition blk_range :: "u64 \<Rightarrow> blocks \<Rightarrow> nat \<Rightarrow> nat set" where
  "blk_range base blks n =
     {unat base + unat (fst (blks ! n))..<unat base + unat (fst (blks ! n)) + length (snd (blks ! n))}"

definition blks_ok :: "byte list \<Rightarrow> u64 \<Rightarrow> u64 \<Rightarrow> blocks \<Rightarrow> bool" where
  "blks_ok src base len blks \<longleftrightarrow>
     (\<forall>(off, b) \<in> set blks. unat off + length b \<le> unat len \<and> b = take (length b) (drop (unat base + unat off) src)) \<and>
     unat base + unat len \<le> length src \<and> length src < 2 ^ 64 \<and> length blks < 2 ^ 64 - 1"

text \<open>What opens under the lane's key is a block of the sender, marked as the last one if it is.\<close>

definition sealed_by :: "Crypto \<Rightarrow> LaneKey option \<Rightarrow> u16 \<Rightarrow> blocks \<Rightarrow> byte list \<Rightarrow> bool" where
  "sealed_by cr key lane blks dg \<longleftrightarrow>
     (\<forall>hdr b. block_body cr key lane dg = Some (hdr, b) \<longrightarrow>
        unat (bh_seq_no hdr) < length blks \<and> blks ! unat (bh_seq_no hdr) = (bh_offset hdr, b) \<and>
        (bh_flags hdr AND kFlagLastBlock \<noteq> 0 \<longrightarrow> Suc (unat (bh_seq_no hdr)) = length blks))"

definition carried :: "Crypto \<Rightarrow> LaneKey option \<Rightarrow> u16 \<Rightarrow> u64 \<Rightarrow> u64 \<Rightarrow> blocks \<Rightarrow> PacketSlot \<Rightarrow> bool" where
  "carried cr key lane base len blks s \<longleftrightarrow>
     pk_lane_base s = base \<and> pk_lane_total s = len \<and> sealed_by cr key lane blks (pk_dg s)"

lemma blks_ok_place:
  assumes "blks_ok src base len blks" "n < length blks" "blks ! n = (off, b)"
  shows "unat (base + off) = unat base + unat off" "unat base + unat off + length b \<le> length src"
    "off \<le> len" "of_nat (length b) \<le> len - off" "b = take (length b) (drop (unat base + unat off) src)"
proof -
  have i: "unat off + length b \<le> unat len" "b = take (length b) (drop (unat base + unat off) src)"
    "unat base + unat len \<le> length src" "length src < 2 ^ 64"
    using assms nth_mem [OF assms(2)] by (auto simp: blks_ok_def)
  show "unat (base + off) = unat base + unat off" using unat_add_lt [of base "unat off"] i by simp
  show le: "off \<le> len" using i by (simp add: word_le_nat_alt)
  show "unat base + unat off + length b \<le> length src" "b = take (length b) (drop (unat base + unat off) src)"
    using i by auto
  have "length b < 2 ^ 64" using i by linarith
  then have "unat (of_nat (length b) :: u64) = length b" using unat_add_lt [of 0 "length b"] by simp
  moreover have "unat (len - off) = unat len - unat off" using le by (simp add: unat_sub)
  ultimately show "of_nat (length b) \<le> len - off" using i(1) by (simp add: word_le_nat_alt)
qed

lemma carried_place:
  assumes "blks_ok src base len blks" "carried cr key lane base len blks s"
  shows "genuine cr key lane src s"
    "block_body cr key lane (pk_dg s) = Some (hdr, b) \<Longrightarrow>
       block_range cr key lane s = blk_range base blks (unat (bh_seq_no hdr))"
proof -
  have p: "unat (bh_seq_no hdr) < length blks" "blks ! unat (bh_seq_no hdr) = (bh_offset hdr, b)"
    if "block_body cr key lane (pk_dg s) = Some (hdr, b)" for hdr b
    using assms(2) that by (auto simp: carried_def sealed_by_def)
  have s: "pk_lane_base s = base" "pk_lane_total s = len" using assms(2) by (auto simp: carried_def)
  show "genuine cr key lane src s"
    unfolding genuine_def s using blks_ok_place [OF assms(1) p] by auto
  assume b: "block_body cr key lane (pk_dg s) = Some (hdr, b)"
  then show "block_range cr key lane s = blk_range base blks (unat (bh_seq_no hdr))"
    using blks_ok_place [OF assms(1) p [OF b]] p [OF b] by (simp add: block_range_def blk_range_def s)
qed

section \<open>The invariant\<close>

definition lane_key :: "byte list \<Rightarrow> 's RxPipeline \<Rightarrow> LaneKey option" where
  "lane_key psk p = (if psk = [] then None else Some (rp_key p))"

definition has_block :: "u64 \<Rightarrow> blocks \<Rightarrow> nat set \<Rightarrow> nat \<Rightarrow> bool" where
  "has_block base blks P n \<longleftrightarrow> n < length blks \<and> blk_range base blks n \<subseteq> P"

definition verdict_ok :: "u64 \<Rightarrow> blocks \<Rightarrow> nat set \<Rightarrow> Completion \<Rightarrow> bool" where
  "verdict_ok base blks P c \<longleftrightarrow>
     (co_result c = WrWritten \<longrightarrow> has_block base blks P (unat (co_seq c)) \<and>
        (co_flags c AND kFlagLastBlock \<noteq> 0 \<longrightarrow> Suc (unat (co_seq c)) = length blks))"

text \<open>\<open>P\<close> are positions where the output is known to be the sender's file.\<close>

record lane_ctx =
  cx_cr :: Crypto
  cx_psk :: "byte list"
  cx_lane :: u16
  cx_key :: "LaneKey option"
  cx_src :: "byte list"
  cx_base :: u64
  cx_total :: u64
  cx_blks :: blocks

definition reader_inv :: "lane_ctx \<Rightarrow> nat set \<Rightarrow> reader \<Rightarrow> bool" where
  "reader_inv x P r \<longleftrightarrow>
     rd_have_start r \<and> rd_lane_base r = cx_base x \<and> rd_shard_bytes r = cx_total x \<and> rs_inv (rd_rx r) \<and>
     (\<forall>n \<in> got (rd_rx r). has_block (cx_base x) (cx_blks x) P n) \<and>
     (rd_final_seq r \<noteq> u64_max \<longrightarrow> Suc (unat (rd_final_seq r)) = length (cx_blks x)) \<and>
     (lr_status (rd_res r) = Ok \<longrightarrow> (\<forall>n < length (cx_blks x). blk_range (cx_base x) (cx_blks x) n \<subseteq> P))"

text \<open>\<open>Q\<close> is what is known of the sink.\<close>

definition rings_inv :: "lane_ctx \<Rightarrow> nat set \<Rightarrow> ('s \<Rightarrow> bool) \<Rightarrow> 's RxPipeline \<Rightarrow> bool" where
  "rings_inv x P Q p \<longleftrightarrow>
     lane_key (cx_psk x) p = cx_key x \<and> Q (rp_sink p) \<and>
     (\<forall>c. sr_inv (rp_ring p c) \<and>
        (\<forall>s \<in> set (sr_contents (rp_ring p c)).
           carried (cx_cr x) (cx_key x) (cx_lane x) (cx_base x) (cx_total x) (cx_blks x) s)) \<and>
     (\<forall>c. sr_inv (rp_done p c) \<and> (\<forall>d \<in> set (sr_contents (rp_done p c)). verdict_ok (cx_base x) (cx_blks x) P d))"

definition lane_inv :: "lane_ctx \<Rightarrow> nat set \<Rightarrow> ('s \<Rightarrow> bool) \<Rightarrow> 's recv_lane \<Rightarrow> bool" where
  "lane_inv x P Q l \<longleftrightarrow> reader_inv x P (rl_rd l) \<and> rings_inv x P Q (rl_p l)"

lemma has_block_mono: "has_block base blks P n \<Longrightarrow> P \<subseteq> P' \<Longrightarrow> has_block base blks P' n"
  by (auto simp: has_block_def)

lemma lane_inv_mono: "lane_inv x P Q l \<Longrightarrow> P \<subseteq> P' \<Longrightarrow> lane_inv x P' Q l"
  unfolding lane_inv_def reader_inv_def rings_inv_def verdict_ok_def
  by (meson has_block_mono order.trans)

lemma quiet_inv: "quiet l l' \<Longrightarrow> lane_inv x P Q l \<Longrightarrow> lane_inv x P Q l'"
  by (auto simp: quiet_def lane_inv_def reader_inv_def rings_inv_def ring_same_def lane_key_def)

lemma leave_inv:
  "lane_inv x P Q l \<Longrightarrow> st \<noteq> Ok \<or> (\<forall>n < length (cx_blks x). blk_range (cx_base x) (cx_blks x) n \<subseteq> P) \<Longrightarrow>
     lane_inv x P Q (upd_rd (leave st) l)"
  by (auto simp: lane_inv_def reader_inv_def upd_rd_def leave_def)

section \<open>Every handler keeps it\<close>

lemma on_data_inv:
  assumes i: "lane_inv x P Q l" and s: "sealed_by (cx_cr x) (cx_key x) (cx_lane x) (cx_blks x) dg"
  shows "lane_inv x P Q (on_data dg src l)"
proof -
  have push: "lane_inv x P Q (upd_p (\<lambda>p. p\<lparr>rp_ring := (rp_ring p)(c := commit 1 (write_slots 0 [y] ring))\<rparr>)
      (upd_rd (\<lambda>r. r\<lparr>rd_dispatched := a r, rd_pending := b r\<rparr>)
        (upd_p (\<lambda>p. p\<lparr>rp_ring := (rp_ring p)(c := ring)\<rparr>) l)))"
    if w: "writable (rp_ring (rl_p l) c) = (room, ring)" "room \<noteq> 0"
      and y: "carried (cx_cr x) (cx_key x) (cx_lane x) (cx_base x) (cx_total x) (cx_blks x) y" for c room ring y a b
  proof -
    have r: "sr_inv (rp_ring (rl_p l) c)" using i by (simp add: lane_inv_def rings_inv_def)
    note wg = writable_grants [OF r w(1)]
    have "unat room \<noteq> 0" using w(2) by (simp add: unat_eq_0)
    then have "unat (sr_tail ring - sr_head_cache ring) + length [y] \<le> unat (sr_cap ring)" using wg(2) by simp
    note rp = ring_push [OF wg(1) this]
    show ?thesis using i rp wg(3) y by (auto simp: lane_inv_def reader_inv_def rings_inv_def lane_defs lane_key_def)
  qed
  have full: "quiet l (upd_p (\<lambda>p. p\<lparr>rp_ring := (rp_ring p)(c := ring)\<rparr>) l)"
    if "writable (rp_ring (rl_p l) c) = (room, ring)" for c room ring
    using ring_same_writable [OF that] by (simp add: quiet_def lane_defs)
  have "carried (cx_cr x) (cx_key x) (cx_lane x) (cx_base x) (cx_total x) (cx_blks x)
      \<lparr>pk_src = src, pk_lane_base = rd_lane_base (rl_rd l), pk_lane_total = rd_shard_bytes (rl_rd l), pk_dg = dg\<rparr>"
    using i s by (simp add: carried_def lane_inv_def reader_inv_def)
  note pushed = push [OF _ _ this]
  show ?thesis
    unfolding on_data_def Let_def
    using i pushed quiet_inv [OF full i] by (auto split: option.splits prod.splits)
qed

lemma on_datagram_inv:
  assumes "lane_inv x P Q l" "sealed_by (cx_cr x) (cx_key x) (cx_lane x) (cx_blks x) dg"
    "on_datagram (cx_cr x) (cx_psk x) (cx_lane x) so t rnd dg src l = Some l'"
  shows "lane_inv x P Q l'"
proof -
  note kept = quiet_control [THEN quiet_inv, OF assms(1)]
  have "rd_have_start (rl_rd l)" using assms(1) by (simp add: lane_inv_def reader_inv_def)
  then show ?thesis
    using assms(1,3) on_data_inv [OF assms(1,2)] quiet_inv [OF quiet_start assms(1)] kept
    unfolding on_datagram_def by (auto split: option.splits if_splits)
qed

text \<open>A verdict enters the window only if its block is in the output.\<close>

lemma rl_p_upd_rd [simp]: "rl_p (upd_rd f l) = rl_p l"
  by (simp add: upd_rd_def)

lemma rl_p_probe_path [simp]: "rl_p (probe_path cr lane src now rnd l) = rl_p l"
  by (simp add: probe_path_def Let_def sock_send_all_def split: prod.split option.split)

lemma sample_rtt_simps [simp]:
  "rd_rx (sample_rtt now c r) = rd_rx r" "rd_have_start (sample_rtt now c r) = rd_have_start r"
  "rd_lane_base (sample_rtt now c r) = rd_lane_base r" "rd_shard_bytes (sample_rtt now c r) = rd_shard_bytes r"
  "rd_final_seq (sample_rtt now c r) = rd_final_seq r" "rd_res (sample_rtt now c r) = rd_res r"
  by (simp_all add: sample_rtt_def Let_def)

lemma quiet_accepted [quiets]: "quiet a b \<Longrightarrow> quiet a (accepted_block cr lane now rnd c b)"
  by (auto simp: accepted_block_def intro!: quiets)

lemma accepted_block_p [simp]: "rl_p (accepted_block cr lane now rnd c l) = rl_p l"
  by (simp add: accepted_block_def)

lemma collect_one_p: "rl_p (collect_one cr lane now rnd c l) = rl_p l"
  by (cases "co_result c") (simp_all add: collect_one_def Let_def split: prod.split)

lemma quiet_take_back: "quiet l (l\<lparr>rl_rd := take_back seq (rl_rd l)\<rparr>)"
  by (rule quiet_rd [OF quiet_refl]) (simp_all add: take_back_def Let_def)

lemma collect_one_inv:
  assumes i: "lane_inv x P Q l" and v: "verdict_ok (cx_base x) (cx_blks x) P c" and n: "length (cx_blks x) < 2 ^ 64 - 1"
  shows "lane_inv x P Q (collect_one cr lane now rnd c l)"
proof (cases "co_result c")
  case WrWritten
  let ?r = "take_back (co_seq c) (rl_rd l)"
  define r2 where "r2 = (if co_flags c AND kFlagLastBlock \<noteq> 0 then ?r\<lparr>rd_final_seq := co_seq c\<rparr> else ?r)"
  obtain verdict rx where o: "on_receive (rd_rx r2) (co_seq c) (co_send_time c) now = (verdict, rx)" by force
  have hb: "has_block (cx_base x) (cx_blks x) P (unat (co_seq c))"
    "co_flags c AND kFlagLastBlock \<noteq> 0 \<Longrightarrow> Suc (unat (co_seq c)) = length (cx_blks x)"
    using v WrWritten by (auto simp: verdict_ok_def)
  have rx: "rd_rx r2 = rd_rx (rl_rd l)" by (simp add: r2_def take_back_def Let_def)
  have "unat (co_seq c) + 1 < 2 ^ 64" using hb(1) n by (simp add: has_block_def)
  from on_receive_refines [OF _ this o] i
  have o': "rs_inv rx" "got rx \<subseteq> insert (unat (co_seq c)) (got (rd_rx (rl_rd l)))"
    unfolding rx by (auto simp: lane_inv_def reader_inv_def spec_receive_def split: if_splits)
  let ?l = "l\<lparr>rl_rd := r2\<lparr>rd_rx := rx\<rparr>\<rparr>"
  have inv: "lane_inv x P Q ?l"
    using i o' hb by (auto simp: lane_inv_def reader_inv_def r2_def take_back_def Let_def)
  have "quiet ?l (collect_one cr lane now rnd c l)"
    unfolding collect_one_def Let_def WrWritten WriteResult.case r2_def [symmetric] o prod.case
    by (auto intro!: quiets)
  then show ?thesis by (rule quiet_inv [OF _ inv])
next
  case WrAuthFailed
  have "quiet l (l\<lparr>rl_rd := (take_back (co_seq c) (rl_rd l))\<lparr>rd_auth_failures := e\<rparr>\<rparr>)" for e
    by (rule quiet_rd [OF quiet_take_back]) simp_all
  then show ?thesis using quiet_inv [OF _ i] WrAuthFailed by (simp add: collect_one_def Let_def)
next
  case WrIoFailed
  then show ?thesis using quiet_inv [OF quiet_take_back i] by (simp add: collect_one_def)
qed

lemma drain_results_inv:
  assumes i: "lane_inv x P Q l" and n: "length (cx_blks x) < 2 ^ 64 - 1"
  shows "lane_inv x P Q (drain_results cr lane now rnd ch l)"
proof -
  let ?d0 = "rp_done (rl_p l) ch"
  obtain a d where a: "readable ?d0 = (a, d)" by force
  let ?cs = "map (\<lambda>j. sr_slots d ! slot_for_read (of_nat j) d) [0..<unat a]"
  have d0: "sr_inv ?d0" "\<forall>c \<in> set (sr_contents ?d0). verdict_ok (cx_base x) (cx_blks x) P c"
    using i by (auto simp: lane_inv_def rings_inv_def)
  note ro = readable_offers [OF d0(1) a]
  have "unat a \<le> unat (sr_tail_cache d - sr_head d)" using ro(2) by simp
  note c = consume_returns [OF ro(1) this]
  have cons: "sr_contents ?d0 = ?cs @ sr_contents (consume a d)" using c(2) ro(3) by simp
  have "lane_inv x P Q (fold (collect_one cr lane now rnd) cs l) \<and> rl_p (fold (collect_one cr lane now rnd) cs l) = rl_p l"
    if "\<forall>c \<in> set cs. verdict_ok (cx_base x) (cx_blks x) P c" "lane_inv x P Q l" for cs and l :: "'a recv_lane"
    using that by (induction cs arbitrary: l) (simp_all add: collect_one_inv [OF _ _ n] collect_one_p)
  from this [of ?cs l] have f: "lane_inv x P Q (fold (collect_one cr lane now rnd) ?cs l)"
    "rl_p (fold (collect_one cr lane now rnd) ?cs l) = rl_p l" using d0(2) cons i by auto
  have "sr_inv (if a \<noteq> 0 then consume a d else d)" "set (sr_contents (if a \<noteq> 0 then consume a d else d)) \<subseteq> set (sr_contents ?d0)"
    using c(1) ro(1,3) cons by (auto split: if_splits)
  then show ?thesis
    unfolding drain_results_def a prod.case Let_def
    using f d0 by (auto simp: lane_inv_def rings_inv_def upd_p_def lane_key_def)
qed

lemma drain_all_inv:
  assumes "lane_inv x P Q l" "length (cx_blks x) < 2 ^ 64 - 1"
  shows "lane_inv x P Q (drain_all cr lane now rnd l)"
proof -
  have "lane_inv x P Q (fold (\<lambda>k. drain_results cr lane now rnd (Writer k)) ks l)" if "lane_inv x P Q l" for ks and l :: "'a recv_lane"
    using that by (induction ks arbitrary: l) (simp_all add: drain_results_inv [OF _ assms(2)])
  from this [OF assms(1)] have "lane_inv x P Q (drain_results cr lane now rnd Rtx
      (fold (\<lambda>k. drain_results cr lane now rnd (Writer k)) [0..<unat (rp_writers (rl_p l))] l))"
    by (intro drain_results_inv assms(2))
  then show ?thesis unfolding drain_all_def by (rule quiet_inv [rotated]) (auto intro!: quiets)
qed

text \<open>When the window has passed the last block, every block is in the output.\<close>

lemma completed_blocks:
  assumes "reader_inv x P r" "rd_final_seq r \<noteq> u64_max" "rd_final_seq r < rs_base_seq_no (rd_rx r)"
    "n < length (cx_blks x)"
  shows "blk_range (cx_base x) (cx_blks x) n \<subseteq> P"
proof -
  have "n \<le> unat (rd_final_seq r)" using assms by (simp add: reader_inv_def)
  then have "n \<in> got (rd_rx r)" using assms(3) by (simp add: got_def word_less_nat_alt)
  then show ?thesis using assms(1) by (auto simp: reader_inv_def has_block_def)
qed

lemma classify_not_ok: "st \<noteq> Ok \<Longrightarrow> classify st r \<noteq> Ok"
  by (simp add: classify_def Let_def)

lemma give_up_inv:
  assumes "lane_inv x P Q l" "st \<noteq> Ok"
  shows "lane_inv x P Q (give_up cr lane st l)"
proof -
  have left: "lane_inv x P Q (upd_rd (leave st) l')" if "quiet l l'" for l'
    using leave_inv [OF quiet_inv [OF that assms(1)]] assms(2) by blast
  show ?thesis unfolding give_up_def Let_def by (rule left) (auto intro!: quiets split: prod.splits)
qed

lemma after_batch_inv:
  assumes i: "lane_inv x P Q l" and n: "length (cx_blks x) < 2 ^ 64 - 1"
  shows "lane_inv x P Q (after_batch cr lane so now rnd t l)"
proof -
  let ?l = "drain_all cr lane now rnd l"
  have l: "lane_inv x P Q ?l" by (rule drain_all_inv [OF i n])
  let ?m = "nack_tick cr t (ack_tick cr t ?l)"
  have m: "lane_inv x P Q ?m" by (intro quiet_inv [OF quiet_nack_tick] quiet_inv [OF quiet_ack_tick] l)
  obtain exit l2 where c: "completion_tick lane so t ?m = (exit, l2)" by force
  have l2: "lane_inv x P Q l2" by (rule quiet_inv [OF quiet_completion [OF c] m])
  have "lane_inv x P Q (finish_lane cr l2)" if exit
  proof -
    have "rd_final_seq (rl_rd l2) \<noteq> u64_max" "rd_final_seq (rl_rd l2) < rs_base_seq_no (rd_rx (rl_rd l2))"
      using c that by (auto simp: completion_tick_def Let_def split: if_splits)
    then have all: "\<forall>n < length (cx_blks x). blk_range (cx_base x) (cx_blks x) n \<subseteq> P"
      using completed_blocks [of x P "rl_rd l2"] l2 by (auto simp: lane_inv_def)
    have "lane_inv x P Q (if rd_peer_finished (rl_rd l2) then l2 else (final_ack cr ^^ 8) l2)"
      using l2 quiet_inv [OF quiet_final_acks l2] by simp
    then show ?thesis unfolding finish_lane_def Let_def by (rule leave_inv) (use all in blast)
  qed
  moreover have "lane_inv x P Q (upd_p (\<lambda>p. p\<lparr>rp_stop_all := True\<rparr>) (upd_rd (leave (classify PeerAborted r)) ?l))" for r
    by (rule quiet_inv [OF quiet_stop_all [OF quiet_refl] leave_inv [OF l]]) (simp add: classify_not_ok)
  ultimately show ?thesis unfolding after_batch_def Let_def c prod.case using l l2 by auto
qed

lemma loop_top_inv: "lane_inv x P Q l \<Longrightarrow> lane_inv x P Q (loop_top cr lane cancelled l)"
  unfolding loop_top_def
  by (auto intro!: quiet_inv [OF quiet_stop_all [OF quiet_refl]] give_up_inv classify_not_ok)

lemma note_arrival_inv: "lane_inv x P Q l \<Longrightarrow> lane_inv x P Q (note_arrival cr lane timeout_ms now arrived l)"
  unfolding note_arrival_def
  by (auto intro!: give_up_inv classify_not_ok intro: quiet_inv [OF quiet_upd_rd [OF quiet_refl]])

section \<open>Every interleaving of a lane\<close>

text \<open>
  The reader's handlers, the lane's consumers, the consumers of the other lanes and what the other
  readers do to the shared flags, in any order. What arrives is any traffic in which only the sender's
  blocks open.
\<close>

record 's lane_sys =
  sy_lane :: "'s recv_lane"
  sy_ks :: "chan \<Rightarrow> LaneKeySchedule option"

definition chan_consumer :: "chan \<Rightarrow> 's lane_sys \<Rightarrow> 's consumer" where
  "chan_consumer c y =
     (let p = rl_p (sy_lane y) in
      \<lparr>cn_in = rp_ring p c, cn_out = rp_done p c, cn_ks = sy_ks y c, cn_sink = rp_sink p, cn_io_failed = rp_io_failed p\<rparr>)"

definition put_consumer :: "chan \<Rightarrow> 's consumer \<Rightarrow> 's lane_sys \<Rightarrow> 's lane_sys" where
  "put_consumer c q y =
     y\<lparr>sy_lane := upd_p (\<lambda>p. p\<lparr>rp_ring := (rp_ring p)(c := cn_in q), rp_done := (rp_done p)(c := cn_out q),
                            rp_sink := cn_sink q, rp_io_failed := cn_io_failed q\<rparr>) (sy_lane y),
       sy_ks := (sy_ks y)(c := cn_ks q)\<rparr>"

inductive lane_step ::
  "lane_ctx \<Rightarrow> u32 \<Rightarrow> 's Sink \<Rightarrow> (u64 \<Rightarrow> byte list list \<Rightarrow> 's \<Rightarrow> (bool \<times> 's) option) set \<Rightarrow>
   's lane_sys \<Rightarrow> 's lane_sys \<Rightarrow> bool"
  for x timeout_ms so wrs where
  step_top: "lane_step x timeout_ms so wrs y (y\<lparr>sy_lane := loop_top (cx_cr x) (cx_lane x) cancelled (sy_lane y)\<rparr>)"
| step_arrival: "lane_step x timeout_ms so wrs y
    (y\<lparr>sy_lane := note_arrival (cx_cr x) (cx_lane x) timeout_ms now arrived (sy_lane y)\<rparr>)"
| step_datagram: "lane_step x timeout_ms so wrs y (y\<lparr>sy_lane := l'\<rparr>)"
  if "sealed_by (cx_cr x) (cx_key x) (cx_lane x) (cx_blks x) dg"
    "on_datagram (cx_cr x) (cx_psk x) (cx_lane x) so t rnd dg src (sy_lane y) = Some l'"
| step_after: "lane_step x timeout_ms so wrs y
    (y\<lparr>sy_lane := after_batch (cx_cr x) (cx_lane x) so now rnd t (sy_lane y)\<rparr>)"
| step_consumer: "lane_step x timeout_ms so wrs y (put_consumer c q y)"
  if "wr \<in> wrs"
    "drain_channel (cx_cr x) wr (lane_key (cx_psk x) (rl_p (sy_lane y))) (cx_lane x) (chan_consumer c y) = Some (worked, q)"
| step_other: "lane_step x timeout_ms so wrs y
    (y\<lparr>sy_lane := upd_p (\<lambda>p. p\<lparr>rp_sink := s', rp_io_failed := failed, rp_stop_all := stop, rp_session_total := sess,
                              rp_digest := dig, rp_have_digest := hv\<rparr>) (sy_lane y)\<rparr>)"
  if "wr \<in> wrs" "wr off iov (rp_sink (rl_p (sy_lane y))) = Some (ok, s')"
    "concat iov = take n (drop (unat off) (cx_src x))" "unat off + n \<le> length (cx_src x)"

text \<open>A turn of the reader's loop is such a run.\<close>

lemma batch_steps:
  "\<forall>(t, rnd, dg, src) \<in> set ds. sealed_by (cx_cr x) (cx_key x) (cx_lane x) (cx_blks x) dg \<Longrightarrow>
     on_batch (cx_cr x) (cx_psk x) (cx_lane x) so ds (sy_lane y) = Some l' \<Longrightarrow>
     (lane_step x timeout_ms so wrs)\<^sup>*\<^sup>* y (y\<lparr>sy_lane := l'\<rparr>)"
proof (induction ds arbitrary: y)
  case Nil
  then have "y\<lparr>sy_lane := l'\<rparr> = y" by (cases y) simp
  then show ?case by simp
next
  case (Cons d ds)
  obtain t rnd dg src where d: "d = (t, rnd, dg, src)" by (cases d) auto
  from Cons.prems(2) obtain l1 where l1: "on_datagram (cx_cr x) (cx_psk x) (cx_lane x) so t rnd dg src (sy_lane y) = Some l1"
    "l' = l1 \<or> on_batch (cx_cr x) (cx_psk x) (cx_lane x) so ds l1 = Some l'"
    by (auto simp: d Option.bind_eq_Some_conv split: if_splits)
  have 1: "lane_step x timeout_ms so wrs y (y\<lparr>sy_lane := l1\<rparr>)"
    by (rule step_datagram [OF _ l1(1)]) (use Cons.prems(1) in \<open>simp add: d\<close>)
  from l1(2) show ?case
  proof
    assume "on_batch (cx_cr x) (cx_psk x) (cx_lane x) so ds l1 = Some l'"
    then show ?thesis using Cons.IH [of "y\<lparr>sy_lane := l1\<rparr>"] Cons.prems(1) 1
      by (auto intro: converse_rtranclp_into_rtranclp)
  qed (use 1 in auto)
qed

lemma recv_turn_steps:
  assumes "\<forall>(t, rnd, dg, src) \<in> set (tn_batch e). sealed_by (cx_cr x) (cx_key x) (cx_lane x) (cx_blks x) dg"
    "recv_turn (cx_cr x) (cx_psk x) timeout_ms (cx_lane x) so e (sy_lane y) = Some l'"
  shows "(lane_step x timeout_ms so wrs)\<^sup>*\<^sup>* y (y\<lparr>sy_lane := l'\<rparr>)"
proof -
  let ?step = "lane_step x timeout_ms so wrs"
  let ?l1 = "loop_top (cx_cr x) (cx_lane x) (tn_cancelled e) (sy_lane y)"
  let ?l2 = "note_arrival (cx_cr x) (cx_lane x) timeout_ms (tn_now e) (tn_batch e \<noteq> []) ?l1"
  have 1: "?step y (y\<lparr>sy_lane := ?l1\<rparr>)" by (rule step_top)
  have 2: "?step (y\<lparr>sy_lane := ?l1\<rparr>) (y\<lparr>sy_lane := ?l2\<rparr>)"
    using step_arrival [of x timeout_ms so wrs "y\<lparr>sy_lane := ?l1\<rparr>"] by simp
  have 12: "?step\<^sup>*\<^sup>* y (y\<lparr>sy_lane := ?l2\<rparr>)" by (rule rtranclp.rtrancl_into_rtrancl [OF r_into_rtranclp [of ?step, OF 1] 2])
  consider "l' = ?l1" | "l' = ?l2" | l3 where "on_batch (cx_cr x) (cx_psk x) (cx_lane x) so (tn_batch e) ?l2 = Some l3"
      "l' = l3 \<or> l' = after_batch (cx_cr x) (cx_lane x) so (tn_drain_now e) (tn_rnd e) (tn_tick e) l3"
    using assms(2) unfolding recv_turn_def Let_def by (auto simp: Option.bind_eq_Some_conv split: if_splits)
  then show ?thesis
  proof cases
    case (3 l3)
    from batch_steps [OF assms(1), of so "y\<lparr>sy_lane := ?l2\<rparr>" l3] 3(1)
    have "?step\<^sup>*\<^sup>* (y\<lparr>sy_lane := ?l2\<rparr>) (y\<lparr>sy_lane := l3\<rparr>)" by simp
    with 12 have 4: "?step\<^sup>*\<^sup>* y (y\<lparr>sy_lane := l3\<rparr>)" by (rule rtranclp_trans)
    have "?step (y\<lparr>sy_lane := l3\<rparr>) (y\<lparr>sy_lane := after_batch (cx_cr x) (cx_lane x) so now rnd t l3\<rparr>)" for now rnd t
      using step_after [of x timeout_ms so wrs "y\<lparr>sy_lane := l3\<rparr>"] by simp
    with 3(2) 4 show ?thesis by (auto intro: rtranclp.rtrancl_into_rtrancl)
  qed (use 1 12 in auto)
qed

section \<open>The system keeps the invariant\<close>

definition sink_ok :: "lane_ctx \<Rightarrow> ('s \<Rightarrow> bool) \<Rightarrow> ('s \<Rightarrow> byte list) \<Rightarrow> nat set \<Rightarrow> 's \<Rightarrow> bool" where
  "sink_ok x sinv view P s \<longleftrightarrow> sinv s \<and> agrees (cx_src x) P (view s)"

definition sys_inv :: "lane_ctx \<Rightarrow> ('s \<Rightarrow> bool) \<Rightarrow> ('s \<Rightarrow> byte list) \<Rightarrow> nat set \<Rightarrow> 's lane_sys \<Rightarrow> bool" where
  "sys_inv x sinv view P y \<longleftrightarrow>
     lane_inv x P (sink_ok x sinv view P) (sy_lane y) \<and>
     (\<forall>c. consumer_ks_ok (cx_cr x) (cx_key x) (cx_lane x) (sy_ks y c))"

lemma drained_verdicts:
  assumes b: "blks_ok src base len blks" and c: "\<forall>s \<in> set ps. carried cr key lane base len blks s"
    and h: "\<forall>i < length cs. co_result (cs ! i) = WrWritten \<longrightarrow>
        (\<exists>hdr b. block_body cr key lane (pk_dg (ps ! i)) = Some (hdr, b) \<and>
           co_seq (cs ! i) = bh_seq_no hdr \<and> co_flags (cs ! i) = bh_flags hdr)"
    and l: "length cs = length ps" and P: "reported cr key lane ps cs \<subseteq> P"
  shows "\<forall>d \<in> set cs. verdict_ok base blks P d"
proof
  fix d assume "d \<in> set cs"
  then obtain i where i: "i < length cs" "d = cs ! i" by (auto simp: in_set_conv_nth)
  show "verdict_ok base blks P d"
  proof (cases "co_result d = WrWritten")
    case True
    with h i obtain hdr b where hb: "block_body cr key lane (pk_dg (ps ! i)) = Some (hdr, b)"
      "co_seq d = bh_seq_no hdr" "co_flags d = bh_flags hdr" by auto
    have ca: "carried cr key lane base len blks (ps ! i)" using c i(1) l by simp
    have "block_range cr key lane (ps ! i) \<subseteq> P" using P i True by (auto simp: reported_def)
    then have "blk_range base blks (unat (bh_seq_no hdr)) \<subseteq> P" using carried_place(2) [OF b ca hb(1)] by simp
    then show ?thesis using ca hb by (auto simp: verdict_ok_def has_block_def carried_def sealed_by_def)
  qed (simp add: verdict_ok_def)
qed

lemma consumer_step_inv:
  assumes i: "sys_inv x sinv view P y" and b: "blks_ok (cx_src x) (cx_base x) (cx_total x) (cx_blks x)"
    and w: "sink sinv view wr"
    and d: "drain_channel (cx_cr x) wr (lane_key (cx_psk x) (rl_p (sy_lane y))) (cx_lane x) (chan_consumer c y) = Some (worked, q)"
  shows "\<exists>P'. P \<subseteq> P' \<and> sys_inv x sinv view P' (put_consumer c q y)"
proof -
  let ?p = "rl_p (sy_lane y)" and ?q = "chan_consumer c y"
  have key: "lane_key (cx_psk x) ?p = cx_key x" using i by (simp add: sys_inv_def lane_inv_def rings_inv_def)
  note d = d [unfolded key]
  have q: "cn_in ?q = rp_ring ?p c" "cn_out ?q = rp_done ?p c" "cn_ks ?q = sy_ks y c" "cn_sink ?q = rp_sink ?p"
    by (simp_all add: chan_consumer_def Let_def)
  have qi: "sr_inv (cn_in ?q)" "sr_inv (cn_out ?q)" "sinv (cn_sink ?q)" "consumer_ks_ok (cx_cr x) (cx_key x) (cx_lane x) (cn_ks ?q)"
    "agrees (cx_src x) P (view (cn_sink ?q))" using i by (auto simp: q sys_inv_def lane_inv_def rings_inv_def sink_ok_def)
  have ca: "\<forall>s \<in> set (sr_contents (cn_in ?q)). carried (cx_cr x) (cx_key x) (cx_lane x) (cx_base x) (cx_total x) (cx_blks x) s"
    using i by (auto simp: q sys_inv_def lane_inv_def rings_inv_def)
  obtain P' where P': "P \<subseteq> P'" "agrees (cx_src x) P' (view (cn_sink q))" "sinv (cn_sink q)"
    "sr_inv (cn_in q)" "sr_inv (cn_out q)" "consumer_ks_ok (cx_cr x) (cx_key x) (cx_lane x) (cn_ks q)"
    "set (sr_contents (cn_in q)) \<subseteq> set (sr_contents (cn_in ?q))"
    "\<forall>v \<in> set (sr_contents (cn_out q)). verdict_ok (cx_base x) (cx_blks x) P' v \<or> v \<in> set (sr_contents (cn_out ?q))"
  proof (cases worked)
    case True
    have "length (cx_src x) < 2 ^ 64" using b by (simp add: blks_ok_def)
    moreover have "\<forall>s \<in> set (sr_contents (cn_in ?q)). genuine (cx_cr x) (cx_key x) (cx_lane x) (cx_src x) s"
      using ca carried_place(1) [OF b] by blast
    ultimately obtain ps cs where n:
      "sr_contents (cn_in ?q) = ps @ sr_contents (cn_in q)" "sr_contents (cn_out q) = sr_contents (cn_out ?q) @ cs"
      "length cs = length ps" "agrees (cx_src x) (P \<union> reported (cx_cr x) (cx_key x) (cx_lane x) ps cs) (view (cn_sink q))"
      "\<forall>i < length cs. co_result (cs ! i) = WrWritten \<longrightarrow>
        (\<exists>hdr b. block_body (cx_cr x) (cx_key x) (cx_lane x) (pk_dg (ps ! i)) = Some (hdr, b) \<and>
           co_seq (cs ! i) = bh_seq_no hdr \<and> co_flags (cs ! i) = bh_flags hdr)"
      "sr_inv (cn_in q)" "sr_inv (cn_out q)" "sinv (cn_sink q)" "consumer_ks_ok (cx_cr x) (cx_key x) (cx_lane x) (cn_ks q)"
      using sink.drain_agrees [OF w qi(1-4) _ qi(5), of q] d True by auto
    have "\<forall>s \<in> set ps. carried (cx_cr x) (cx_key x) (cx_lane x) (cx_base x) (cx_total x) (cx_blks x) s" using ca n(1) by simp
    from drained_verdicts [OF b this n(5,3), of "P \<union> reported (cx_cr x) (cx_key x) (cx_lane x) ps cs"] n
    show ?thesis by (intro that [of "P \<union> reported (cx_cr x) (cx_key x) (cx_lane x) ps cs"]) auto
  next
    case False
    with d have "drain_channel (cx_cr x) wr (cx_key x) (cx_lane x) ?q = Some (False, q)" by simp
    from drain_idle [OF this qi(1,2)] qi show ?thesis by (intro that [of P]) auto
  qed
  have "lane_inv x P' (sink_ok x sinv view P) (sy_lane y)" using i lane_inv_mono [OF _ P'(1)] by (auto simp: sys_inv_def)
  then have "sys_inv x sinv view P' (put_consumer c q y)"
    using i P' ca q by (auto simp: sys_inv_def lane_inv_def rings_inv_def put_consumer_def upd_p_def lane_key_def sink_ok_def)
  then show ?thesis using P'(1) by blast
qed

lemma lane_step_inv:
  assumes s: "lane_step x timeout_ms so wrs y y'" and i: "sys_inv x sinv view P y"
    and b: "blks_ok (cx_src x) (cx_base x) (cx_total x) (cx_blks x)" and w: "\<forall>wr \<in> wrs. sink sinv view wr"
  shows "\<exists>P'. P \<subseteq> P' \<and> sys_inv x sinv view P' y'"
proof -
  let ?Q = "sink_ok x sinv view P"
  have l: "lane_inv x P ?Q (sy_lane y)" and n: "length (cx_blks x) < 2 ^ 64 - 1"
    using i b by (simp_all add: sys_inv_def blks_ok_def)
  have reader: ?thesis if "y' = y\<lparr>sy_lane := l'\<rparr>" "lane_inv x P ?Q l'" for l'
    using i that by (intro exI [of _ P]) (simp add: sys_inv_def)
  from s show ?thesis
  proof cases
    case (step_top cancelled)
    show ?thesis by (rule reader [OF step_top loop_top_inv [OF l]])
  next
    case (step_arrival now arrived)
    show ?thesis by (rule reader [OF step_arrival note_arrival_inv [OF l]])
  next
    case (step_datagram dg t rnd src l')
    show ?thesis by (rule reader [OF step_datagram(1) on_datagram_inv [OF l step_datagram(2,3)]])
  next
    case (step_after now rnd t)
    show ?thesis by (rule reader [OF step_after after_batch_inv [OF l n]])
  next
    case (step_consumer wr c q worked)
    then show ?thesis using consumer_step_inv [OF i b _ step_consumer(3)] w by blast
  next
    case (step_other wr off iov ok s' n failed stop sess dig hv)
    have "sink sinv view wr" using w step_other(2) by blast
    from sink.write_agrees [OF this _ _ step_other(4,5,3), of P] l
    have "?Q s'" by (auto simp: lane_inv_def rings_inv_def sink_ok_def agrees_def split: if_splits)
    then show ?thesis
      using l by (intro reader [OF step_other(1)]) (auto simp: lane_inv_def rings_inv_def upd_p_def lane_key_def)
  qed
qed

lemma lane_run_inv:
  assumes "(lane_step x timeout_ms so wrs)\<^sup>*\<^sup>* y y'" "sys_inv x sinv view P y"
    "blks_ok (cx_src x) (cx_base x) (cx_total x) (cx_blks x)" "\<forall>wr \<in> wrs. sink sinv view wr"
  shows "\<exists>P'. P \<subseteq> P' \<and> sys_inv x sinv view P' y'"
  using assms(1)
proof induction
  case (step y z)
  then show ?case using lane_step_inv [OF step(2) _ assms(3,4)] by (meson order.trans)
qed (use assms(2) in blast)

section \<open>The start of a session\<close>

text \<open>A lane that has received nothing yet.\<close>

definition fresh_lane :: "'s recv_lane \<Rightarrow> bool" where
  "fresh_lane l \<longleftrightarrow>
     rs_inv (rd_rx (rl_rd l)) \<and> got (rd_rx (rl_rd l)) = {} \<and> rd_final_seq (rl_rd l) = u64_max \<and>
     lr_status (rd_res (rl_rd l)) \<noteq> Ok \<and>
     (\<forall>c. sr_inv (rp_ring (rl_p l) c) \<and> sr_contents (rp_ring (rl_p l) c) = []) \<and>
     (\<forall>c. sr_inv (rp_done (rl_p l) c) \<and> sr_contents (rp_done (rl_p l) c) = [])"

definition session_ctx :: "Crypto \<Rightarrow> byte list \<Rightarrow> u16 \<Rightarrow> byte list \<Rightarrow> blocks \<Rightarrow> StreamStart \<Rightarrow> 's recv_lane \<Rightarrow> lane_ctx" where
  "session_ctx cr psk lane src blks ss l =
     \<lparr>cx_cr = cr, cx_psk = psk, cx_lane = lane, cx_key = lane_key psk (rl_p l), cx_src = src,
      cx_base = ss_stream_base_offset ss, cx_total = ss_total_bytes ss, cx_blks = blks\<rparr>"

lemma begin_session_fields:
  assumes "begin_session cr lane so key trial ss a l0 = Some l"
  shows "rd_rx (rl_rd l) = rd_rx (rl_rd l0)" "rd_final_seq (rl_rd l) = rd_final_seq (rl_rd l0)"
    "lr_status (rd_res (rl_rd l)) = lr_status (rd_res (rl_rd l0))" "rd_have_start (rl_rd l)"
    "rd_lane_base (rl_rd l) = ss_stream_base_offset ss" "rd_shard_bytes (rl_rd l) = ss_total_bytes ss"
    "rp_ring (rl_p l) = rp_ring (rl_p l0)" "rp_done (rl_p l) = rp_done (rl_p l0)" "rp_sink (rl_p l) = rp_sink (rl_p l0)"
proof -
  let ?p = "case key of None \<Rightarrow> rl_p l0 | Some k \<Rightarrow> (rl_p l0)\<lparr>rp_key := \<lparr>lk_key = k, lk_ready = True\<rparr>\<rparr>"
  from assms obtain answer auth expected where
    l: "l = send_resume_answer (l0\<lparr>rl_rd := (rl_rd l0)\<lparr>rd_auth := auth, rd_have_start := True, rd_peer_nonce := ss_nonce ss,
          rd_peer := a, rd_have_peer := True, rd_lane_base := ss_stream_base_offset ss, rd_shard_bytes := ss_total_bytes ss,
          rd_expected_bytes := expected, rd_resume_answer := answer,
          rd_res := (rd_res (rl_rd l0))\<lparr>lr_expected := expected, lr_started := True\<rparr>\<rparr>, rl_p := ?p\<rparr>)"
    unfolding begin_session_def Let_def by (auto simp: Option.bind_eq_Some_conv case_prod_beta)
  show "rd_rx (rl_rd l) = rd_rx (rl_rd l0)" "rd_final_seq (rl_rd l) = rd_final_seq (rl_rd l0)"
    "lr_status (rd_res (rl_rd l)) = lr_status (rd_res (rl_rd l0))" "rd_have_start (rl_rd l)"
    "rd_lane_base (rl_rd l) = ss_stream_base_offset ss" "rd_shard_bytes (rl_rd l) = ss_total_bytes ss"
    "rp_ring (rl_p l) = rp_ring (rl_p l0)" "rp_done (rl_p l) = rp_done (rl_p l0)" "rp_sink (rl_p l) = rp_sink (rl_p l0)"
    by (simp_all add: l lane_defs split: option.split)
qed

lemma begin_session_inv:
  assumes "fresh_lane l0" "begin_session cr lane so key trial ss a l0 = Some l" "Q (rp_sink (rl_p l0))"
  shows "lane_inv (session_ctx cr psk lane src blks ss l) P Q l"
  using assms(1,3) begin_session_fields [OF assms(2)]
  by (simp add: fresh_lane_def lane_inv_def reader_inv_def rings_inv_def session_ctx_def)

text \<open>The lane as it is created, over new rings.\<close>

lemma new_reader_fresh:
  assumes "\<And>c. sr_inv (rp_ring p c) \<and> sr_contents (rp_ring p c) = []" "\<And>c. sr_inv (rp_done p c) \<and> sr_contents (rp_done p c) = []"
  shows "fresh_lane \<lparr>rl_rd = new_reader lane r1 r2 now, rl_p = p, rl_sent = []\<rparr>"
  using assms rs_inv_new got_new by (simp add: fresh_lane_def new_reader_def new_lane_result_def)

section \<open>Properties\<close>

text \<open>
  C2: the end-to-end guarantee of a receiving lane with a file sink. From the start of its session,
  under every interleaving of its reader, its consumers, the consumers and readers of other lanes, for
  every clock, loss, duplication and reordering and every way the operating system answers the
  writes: each block the lane's acknowledgement acknowledges is a block of the sender and is in the
  output at its place, and a lane that reports \<^term>\<open>Ok\<close> has every block of the sender in the output. The
  only assumption on the traffic is that what opens under the lane's key was sealed by the sender.
\<close>

theorem ok_lane_has_every_block:
  assumes start: "fresh_lane l0" "begin_session cr lane so key trial ss a l0 = Some l"
    and b: "blks_ok src (ss_stream_base_offset ss) (ss_total_bytes ss) blks"
    and s: "fs_inv (rp_sink (rl_p l0))" "agrees src W (fs_view (rp_sink (rl_p l0)))"
    and run: "(lane_step (session_ctx cr psk lane src blks ss l) timeout_ms so file_writes)\<^sup>*\<^sup>* \<lparr>sy_lane = l, sy_ks = \<lambda>_. None\<rparr> y"
  shows "(\<forall>nxt k. acked (build_ack (rd_rx (rl_rd (sy_lane y)))) 0 nxt k \<longrightarrow> unat k < length blks \<and>
      agrees src (blk_range (ss_stream_base_offset ss) blks (unat k)) (fs_view (rp_sink (rl_p (sy_lane y))))) \<and>
    (lr_status (rd_res (rl_rd (sy_lane y))) = Ok \<longrightarrow>
      agrees src (W \<union> (\<Union>n < length blks. blk_range (ss_stream_base_offset ss) blks n)) (fs_view (rp_sink (rl_p (sy_lane y)))))"
proof -
  let ?x = "session_ctx cr psk lane src blks ss l" and ?base = "ss_stream_base_offset ss"
  let ?v = "fs_view (rp_sink (rl_p (sy_lane y)))" and ?r = "rl_rd (sy_lane y)"
  have x: "cx_src ?x = src" "cx_base ?x = ?base" "cx_total ?x = ss_total_bytes ss" "cx_blks ?x = blks"
    by (simp_all add: session_ctx_def)
  have "lane_inv ?x W (sink_ok ?x fs_inv fs_view W) l"
    by (rule begin_session_inv [OF start]) (use s x in \<open>simp add: sink_ok_def\<close>)
  then have "sys_inv ?x fs_inv fs_view W \<lparr>sy_lane = l, sy_ks = \<lambda>_. None\<rparr>"
    by (simp add: sys_inv_def consumer_ks_ok_def split: option.split)
  from lane_run_inv [OF run this] b file_sink.sink_axioms obtain P where
    P: "W \<subseteq> P" "sys_inv ?x fs_inv fs_view P y" by (auto simp: x file_writes_def)
  have r: "reader_inv ?x P ?r" and ag: "agrees src P ?v"
    using P(2) by (simp_all add: sys_inv_def lane_inv_def rings_inv_def sink_ok_def x)
  have sub: "agrees src X ?v" if "X \<subseteq> P" for X using ag that by (auto simp: agrees_def)
  show ?thesis
  proof (intro conjI allI impI)
    fix nxt k assume "acked (build_ack (rd_rx ?r)) 0 nxt k"
    then have "has_block ?base blks P (unat k)" using r acked_build_ack by (auto simp: reader_inv_def x)
    then show "unat k < length blks" "agrees src (blk_range ?base blks (unat k)) ?v"
      using sub by (auto simp: has_block_def)
  next
    assume "lr_status (rd_res ?r) = Ok"
    then show "agrees src (W \<union> (\<Union>n < length blks. blk_range ?base blks n)) ?v"
      using r P(1) by (intro sub) (auto simp: reader_inv_def x)
  qed
qed

definition demo_peer :: PeerAddr where
  "demo_peer = Inet 4433 [127, 0, 0, 1]"

definition demo_start :: StreamStart where
  "demo_start = \<lparr>ss_stream_id = 0, ss_total_blocks = 1, ss_block_size = 3, ss_total_bytes = 3, ss_session_salt = replicate 16 0,
     ss_nonce = 9, ss_stream_base_offset = 0, ss_file_total_bytes = 3, ss_file_id = 5, ss_token = 1, ss_ext_len = 0, ss_ext = []\<rparr>"

definition demo_block :: "byte list" where
  "demo_block = [8, 0, 0, 0] @ replicate 8 0 @ [2, 0, 3] @ replicate 16 0 @ [7, 8, 9]"

definition demo_slot :: PacketSlot where
  "demo_slot = \<lparr>pk_src = demo_peer, pk_lane_base = 0, pk_lane_total = 3, pk_dg = demo_block\<rparr>"

definition demo_close :: "byte list" where
  "demo_close = [8, 11, 0, 0, 0, 0, 0, 0, 0, 0, 0, 9, 0]"

abbreviation demo_ops :: "FileSink Sink" where "demo_ops \<equiv> file_sink_ops True True"

definition demo_lane :: "FileSink recv_lane" where
  "demo_lane =
     \<lparr>rl_rd = new_reader 0 1 2 0,
      rl_p = \<lparr>rp_writers = 1, rp_ring = \<lambda>_. small_ring demo_slot, rp_done = \<lambda>_. small_ring new_completion,
        rp_key = \<lparr>lk_key = [], lk_ready = False\<rparr>, rp_file_total = 3, rp_sink_state = SinkReady, rp_io_failed = False,
        rp_session_total = 3, rp_digest = [], rp_have_digest = False, rp_stop_all = False, rp_sink = demo_sink\<rparr>,
      rl_sent = []\<rparr>"

definition demo_answer :: "byte list list" where
  "demo_answer = fst (encode_resume_answer demo_crypto 0 9 False [(0, 3)] None)"

definition demo_begun :: "FileSink recv_lane" where
  "demo_begun = demo_lane\<lparr>rl_rd := (new_reader 0 1 2 0)\<lparr>rd_have_start := True, rd_peer_nonce := 9, rd_peer := demo_peer, rd_have_peer := True,
      rd_shard_bytes := 3, rd_expected_bytes := 3, rd_resume_answer := demo_answer,
      rd_res := new_lane_result\<lparr>lr_expected := 3, lr_started := True\<rparr>\<rparr>,
    rl_sent := map (\<lambda>d. (d, demo_peer)) demo_answer\<rparr>"

lemma demo_begins: "begin_session demo_crypto 0 demo_ops None None demo_start demo_peer demo_lane = Some demo_begun"
proof -
  have w: "wanted_ranges 0 (fs_missing 0 3 demo_sink) = Some ([(0, 3)], 3)" by code_simp
  have r: "fs_resumed demo_sink = False" by code_simp
  have e: "snd (encode_resume_answer demo_crypto 0 9 False [(0, 3)] None) = None" by code_simp
  have "encode_resume_answer demo_crypto 0 9 False [(0, 3)] None = (demo_answer, None)"
    unfolding demo_answer_def using e by (metis prod.collapse)
  then show ?thesis
    unfolding begin_session_def Let_def
    by (simp add: demo_lane_def demo_begun_def demo_start_def file_sink_ops_def new_reader_def w r send_resume_answer_def
        sock_send_all_def)
qed

lemma demo_decoded:
  "peek_msg_type demo_block = accept MsgData"
  "decode_data_datagram demo_block =
     accept (\<lparr>bh_stream_id = 0, bh_seq_no = 0, bh_flags = 2, bh_payload_len = 3, bh_offset = 0\<rparr>, 0, Some [7, 8, 9])"
  "peek_msg_type demo_close = accept MsgStreamClose"
  "decode_stream_close demo_close = accept \<lparr>sc_stream_id = 0, sc_nonce = 9, sc_reason = 0\<rparr>"
  by code_simp+

lemma demo_window:
  assumes "on_receive (new_receiver 0 1024 True) 0 t now = (v, rx)"
  shows "v = Accepted" "rs_inv rx" "got rx = {0}" "rs_base_seq_no rx = 1" "rs_highest_received rx = 0"
proof -
  have n: "rs_window_size (new_receiver 0 1024 True) = 1024" by (simp add: new_receiver_def clamp_window_def)
  from on_receive_refines [OF rs_inv_new _ assms] show v: "v = Accepted" "rs_inv rx" and g: "got rx = {0}"
    by (auto simp: got_new spec_receive_def n split: if_splits)
  have "unat (rs_base_seq_no rx) = 1" unfolding base_least [OF v(2)] g by (rule Least_equality) auto
  then show "rs_base_seq_no rx = 1" by (simp add: word_unat_eq_iff)
  then have "rs_have_any rx" using v(2) by (auto simp: rs_inv_def rs_pre_def split: if_splits)
  then have "unat (rs_highest_received rx) \<in> got rx" using v(2) by (simp add: rs_inv_def rs_pre_def)
  then show "rs_highest_received rx = 0" by (simp add: g unat_eq_0)
qed


definition demo_ring1 :: "PacketSlot SpscRing" where
  "demo_ring1 = commit 1 (write_slots 0 [demo_slot] (small_ring demo_slot))"

definition demo_given :: "FileSink recv_lane" where
  "demo_given = upd_p (\<lambda>p. p\<lparr>rp_ring := (rp_ring p)(Writer 0 := demo_ring1)\<rparr>)
     (upd_rd (\<lambda>r. r\<lparr>rd_dispatched := (rd_dispatched r)[0 := 0], rd_pending := rd_pending r + 1\<rparr>) demo_begun)"

lemma demo_gives: "on_datagram demo_crypto [] 0 demo_ops 0 0 demo_block demo_peer demo_begun = Some demo_given"
proof -
  have w: "writable (small_ring demo_slot) = (2, small_ring demo_slot)" by (simp add: writable_def small_ring_def)
  have n: "rs_window_size (new_receiver 0 1024 True) = 1024" by (simp add: new_receiver_def clamp_window_def)
  have "unat (0 :: u64) \<notin> got (new_receiver 0 1024 True)" by (simp add: got_new)
  then have rt: "\<not> ring_test (new_receiver 0 1024 True) 0"
    using ring_test_in_window(1) [OF rs_inv_new, of 0 1024 True 0] n by (simp add: new_receiver_def)
  have c: "route 1 \<lparr>bh_stream_id = 0, bh_seq_no = 0, bh_flags = 2, bh_payload_len = 3, bh_offset = 0\<rparr> = Writer 0" by code_simp
  have b: "rs_base_seq_no (new_receiver 0 1024 True) = 0" by (simp add: new_receiver_def)
  have "on_data demo_block demo_peer demo_begun = demo_given"
    unfolding on_data_def Let_def demo_decoded
    by (simp add: demo_begun_def demo_lane_def new_reader_def b is_received_def rt c w demo_given_def demo_ring1_def
        demo_slot_def [symmetric] upd_p_def upd_rd_def nth_list_update)
  then show ?thesis by (simp add: on_datagram_def demo_decoded)
qed

definition demo_verdict :: Completion where
  "demo_verdict = \<lparr>co_src = demo_peer, co_seq = 0, co_send_time = 0, co_bytes = 3, co_flags = 2, co_result = WrWritten\<rparr>"

definition demo_drain_in :: "FileSink consumer" where
  "demo_drain_in = \<lparr>cn_in = demo_ring1, cn_out = small_ring new_completion, cn_ks = None, cn_sink = demo_sink, cn_io_failed = False\<rparr>"

lemma demo_consumes:
  "case drain_channel demo_crypto demo_write None 0 demo_drain_in of
     Some (True, q) \<Rightarrow>
       (case readable (cn_out q) of (a, r) \<Rightarrow> a = 1 \<and> sr_slots r ! slot_for_read 0 r = demo_verdict) \<and> \<not> fs_resumed (cn_sink q)
   | _ \<Rightarrow> False"
  by code_simp

definition demo_q :: "FileSink consumer" where
  "demo_q = snd (the (drain_channel demo_crypto demo_write None 0 demo_drain_in))"

lemma demo_q:
  "drain_channel demo_crypto demo_write None 0 demo_drain_in = Some (True, demo_q)"
  "\<exists>r. readable (cn_out demo_q) = (1, r) \<and> sr_slots r ! slot_for_read 0 r = demo_verdict" "\<not> fs_resumed (cn_sink demo_q)"
  using demo_consumes by (auto simp: demo_q_def split: option.splits prod.splits bool.splits)

definition demo_written :: "FileSink lane_sys" where
  "demo_written = put_consumer (Writer 0) demo_q \<lparr>sy_lane = demo_given, sy_ks = \<lambda>_. None\<rparr>"

definition demo_closed :: "FileSink recv_lane" where
  "demo_closed = upd_rd (\<lambda>r. r\<lparr>rd_peer_finished := True\<rparr>) (sy_lane demo_written)"

lemma demo_closes: "on_datagram demo_crypto [] 0 demo_ops 0 0 demo_close demo_peer (sy_lane demo_written) = Some demo_closed"
  by (simp add: on_datagram_def demo_decoded on_stream_close_def demo_written_def demo_closed_def put_consumer_def
      demo_given_def demo_begun_def demo_lane_def new_reader_def upd_p_def upd_rd_def ctl_authentic_def)


lemma demo_reader:
  "rd_rx (rl_rd demo_closed) = new_receiver 0 1024 True" "rd_dispatched (rl_rd demo_closed) = (replicate 1024 u64_max)[0 := 0]"
  "rd_final_seq (rl_rd demo_closed) = u64_max" "rd_written (rl_rd demo_closed) = 0" "rd_expected_bytes (rl_rd demo_closed) = 3"
  "rd_delivered (rl_rd demo_closed) = 0" "rd_last_ack_blocks (rl_rd demo_closed) = 0" "rd_last_ack_ns (rl_rd demo_closed) = 0"
  "rd_auth_failures (rl_rd demo_closed) = 0" "rd_nack_sent_ns (rl_rd demo_closed) = 0" "rd_have_start (rl_rd demo_closed)"
  "rd_have_peer (rl_rd demo_closed)" "rd_peer_finished (rl_rd demo_closed)" "\<not> rd_peer_aborted (rl_rd demo_closed)"
  "rd_peer (rl_rd demo_closed) = demo_peer" "rd_advertised_rwnd (rl_rd demo_closed) = kRwndUnlimited"
  "rd_completed_at_ns (rl_rd demo_closed) = 0" "rp_writers (rl_p demo_closed) = 1"
  "rp_sink (rl_p demo_closed) = cn_sink demo_q" "rp_done (rl_p demo_closed) = (\<lambda>_. small_ring new_completion)(Writer 0 := cn_out demo_q)"
  by (simp_all add: demo_closed_def demo_written_def put_consumer_def demo_given_def demo_begun_def demo_lane_def new_reader_def
      upd_p_def upd_rd_def)


text \<open>The reader after it has taken the verdict.\<close>

definition demo_rx :: ReceiverStream where
  "demo_rx = snd (on_receive (new_receiver 0 1024 True) 0 0 0)"

lemma demo_rx:
  "on_receive (new_receiver 0 1024 True) 0 0 0 = (Accepted, demo_rx)" "rs_base_seq_no demo_rx = 1" "rs_highest_received demo_rx = 0"
proof -
  obtain v rx where o: "on_receive (new_receiver 0 1024 True) 0 0 0 = (v, rx)" by force
  from demo_window [OF o] o show "on_receive (new_receiver 0 1024 True) 0 0 0 = (Accepted, demo_rx)"
    "rs_base_seq_no demo_rx = 1" "rs_highest_received demo_rx = 0" by (simp_all add: demo_rx_def)
qed

lemma demo_collected:
  assumes "l1 = drain_all demo_crypto 0 0 0 demo_closed"
  shows "rd_rx (rl_rd l1) = demo_rx" "rd_final_seq (rl_rd l1) = 0" "rd_written (rl_rd l1) = 3" "rd_expected_bytes (rl_rd l1) = 3"
    "rd_delivered (rl_rd l1) = 1" "rd_last_ack_blocks (rl_rd l1) = 0" "rd_last_ack_ns (rl_rd l1) = 0"
    "rd_auth_failures (rl_rd l1) = 0" "rd_have_start (rl_rd l1)" "rd_have_peer (rl_rd l1)" "rd_peer_finished (rl_rd l1)"
    "\<not> rd_peer_aborted (rl_rd l1)" "rd_advertised_rwnd (rl_rd l1) = kRwndUnlimited" "rp_sink (rl_p l1) = rp_sink (rl_p demo_closed)"
proof -
  let ?c = "collect_one demo_crypto 0 0 0 demo_verdict demo_closed"
  obtain d where d: "readable (cn_out demo_q) = (1, d)" "sr_slots d ! slot_for_read 0 d = demo_verdict" using demo_q(2) by blast
  have rt: "readable (small_ring new_completion) = (0, small_ring new_completion)" by (simp add: readable_def small_ring_def)
  have peq: "peer_eq demo_peer demo_peer" by code_simp
  have c: "?c = upd_rd (\<lambda>r. r\<lparr>rd_written := 3, rd_delivered := 1\<rparr>)
     (demo_closed\<lparr>rl_rd := (take_back 0 (rl_rd demo_closed))\<lparr>rd_final_seq := 0, rd_rx := demo_rx\<rparr>\<rparr>)"
    unfolding collect_one_def Let_def
    by (simp add: demo_verdict_def demo_reader take_back_def demo_rx(1) accepted_block_def sample_rtt_def upd_rd_def peq)
  have "l1 = upd_rd (\<lambda>r. r\<lparr>rd_res := (rd_res r)\<lparr>lr_bytes := rd_written r\<rparr>\<rparr>)
      (upd_p (\<lambda>p. p\<lparr>rp_done := (rp_done p)(Rtx := small_ring new_completion)\<rparr>)
      (upd_p (\<lambda>p. p\<lparr>rp_done := (rp_done p)(Writer 0 := consume 1 d)\<rparr>) ?c))"
    unfolding assms drain_all_def drain_results_def Let_def
    by (simp add: demo_reader d rt upd_p_def collect_one_p)
  then show "rd_rx (rl_rd l1) = demo_rx" "rd_final_seq (rl_rd l1) = 0" "rd_written (rl_rd l1) = 3" "rd_expected_bytes (rl_rd l1) = 3"
    "rd_delivered (rl_rd l1) = 1" "rd_last_ack_blocks (rl_rd l1) = 0" "rd_last_ack_ns (rl_rd l1) = 0"
    "rd_auth_failures (rl_rd l1) = 0" "rd_have_start (rl_rd l1)" "rd_have_peer (rl_rd l1)" "rd_peer_finished (rl_rd l1)"
    "\<not> rd_peer_aborted (rl_rd l1)" "rd_advertised_rwnd (rl_rd l1) = kRwndUnlimited" "rp_sink (rl_p l1) = rp_sink (rl_p demo_closed)"
    by (simp_all add: c upd_rd_def upd_p_def take_back_def Let_def demo_reader)
qed

lemma demo_finishes:
  "lr_status (rd_res (rl_rd (after_batch demo_crypto 0 demo_ops 0 0 0 demo_closed))) = Ok"
proof -
  let ?l1 = "drain_all demo_crypto 0 0 0 demo_closed"
  note f = demo_collected [OF refl]
  obtain w l2 where w: "receive_window ?l1 = (w, l2)" by force
  have l2: "rl_rd l2 = rl_rd ?l1" using w by (auto simp: receive_window_def split: prod.splits)
  have at: "ack_tick demo_crypto 0 ?l1 = l2"
    unfolding ack_tick_def Let_def w prod.case by (simp add: f word_le_nat_alt)
  let ?n = "nack_tick demo_crypto 0 l2"
  have nt: "rl_rd ?n = rl_rd ?l1" unfolding nack_tick_def Let_def by (simp add: l2 f collect_nacks_def demo_rx)
  have "rp_sink (rl_p ?n) = cn_sink demo_q"
    using quiet_nack_tick [of l2 demo_crypto 0] quiet_window [OF quiet_refl w] by (simp add: quiet_def f demo_reader)
  then have "fst (completion_tick 0 demo_ops 0 ?n)"
    and c: "rd_written (rl_rd (snd (completion_tick 0 demo_ops 0 ?n))) = 3"
      "rd_expected_bytes (rl_rd (snd (completion_tick 0 demo_ops 0 ?n))) = 3" "rd_have_start (rl_rd (snd (completion_tick 0 demo_ops 0 ?n)))"
      "rd_auth_failures (rl_rd (snd (completion_tick 0 demo_ops 0 ?n))) = 0" "rd_peer_finished (rl_rd (snd (completion_tick 0 demo_ops 0 ?n)))"
    by (simp_all add: completion_tick_def Let_def nt f demo_rx file_sink_ops_def demo_q)
  then obtain l3 where l3: "completion_tick 0 demo_ops 0 ?n = (True, l3)" by (metis prod.collapse)
  with c have "lr_status (rd_res (rl_rd (finish_lane demo_crypto l3))) = Ok"
    by (simp add: finish_lane_def Let_def upd_rd_def leave_def classify_def)
  then show ?thesis unfolding after_batch_def Let_def at l3 prod.case by (simp add: f)
qed

lemma demo_sealed: "sealed_by demo_crypto None 0 [(0, [7, 8, 9])] demo_block" "sealed_by demo_crypto None 0 blks demo_close"
proof -
  have "decode_data_datagram demo_close = refuse" by code_simp
  then show "sealed_by demo_crypto None 0 [(0, [7, 8, 9])] demo_block" "sealed_by demo_crypto None 0 blks demo_close"
    by (auto simp: sealed_by_def block_body_def demo_decoded)
qed

lemma demo_steps:
  assumes x: "cx_cr x = demo_crypto" "cx_psk x = []" "cx_lane x = 0" "cx_key x = None"
  shows "lane_step x 0 demo_ops file_writes \<lparr>sy_lane = demo_given, sy_ks = \<lambda>_. None\<rparr> demo_written"
    and "lane_step x 0 demo_ops file_writes demo_written (demo_written\<lparr>sy_lane := demo_closed\<rparr>)"
    and "lane_step x 0 demo_ops file_writes (demo_written\<lparr>sy_lane := demo_closed\<rparr>)
      (demo_written\<lparr>sy_lane := after_batch demo_crypto 0 demo_ops 0 0 0 demo_closed\<rparr>)"
proof -
  let ?y1 = "\<lparr>sy_lane = demo_given, sy_ks = \<lambda>_. None\<rparr>"
  have "demo_write \<in> file_writes"
    by (auto simp: file_writes_def demo_write_def fun_eq_iff intro!: exI [of _ "\<lambda>_ _. [Eintr, Wrote 1, Wrote 2]"])
  moreover have "chan_consumer (Writer 0) ?y1 = demo_drain_in"
    by (simp add: chan_consumer_def demo_given_def demo_begun_def demo_lane_def upd_p_def upd_rd_def demo_drain_in_def)
  ultimately show "lane_step x 0 demo_ops file_writes ?y1 demo_written"
    using step_consumer [of demo_write file_writes x ?y1 "Writer 0"] demo_q(1) x by (simp add: demo_written_def lane_key_def)
  show "lane_step x 0 demo_ops file_writes demo_written (demo_written\<lparr>sy_lane := demo_closed\<rparr>)"
    using step_datagram [of x demo_close demo_ops 0 0 demo_peer demo_written] demo_sealed(2) demo_closes x by simp
  show "lane_step x 0 demo_ops file_writes (demo_written\<lparr>sy_lane := demo_closed\<rparr>)
      (demo_written\<lparr>sy_lane := after_batch demo_crypto 0 demo_ops 0 0 0 demo_closed\<rparr>)"
    using step_after [of x 0 demo_ops file_writes "demo_written\<lparr>sy_lane := demo_closed\<rparr>"] x by simp
qed

lemma demo_fresh:
  "fresh_lane demo_lane" "fs_inv (rp_sink (rl_p demo_lane))" "agrees [7, 8, 9] {} (fs_view (rp_sink (rl_p demo_lane)))"
proof -
  show "fresh_lane demo_lane"
    unfolding demo_lane_def by (rule new_reader_fresh) (simp_all add: new_spsc_inv [OF small_ring_new])
  show "fs_inv (rp_sink (rl_p demo_lane))" "agrees [7, 8, 9] {} (fs_view (rp_sink (rl_p demo_lane)))"
    using fs_session_good [OF demo_sink_session(1)] by (auto simp: demo_lane_def fs_good_def fs_inv_def agrees_def fs_view_def)
qed

theorem ok_lane_has_every_block_witness:
  "\<exists>y. (lane_step (session_ctx demo_crypto [] 0 [7, 8, 9] [(0, [7, 8, 9])] demo_start demo_begun) 0 demo_ops file_writes)\<^sup>*\<^sup>*
       \<lparr>sy_lane = demo_begun, sy_ks = \<lambda>_. None\<rparr> y \<and>
     lr_status (rd_res (rl_rd (sy_lane y))) = Ok \<and> fs_view (rp_sink (rl_p (sy_lane y))) = [7, 8, 9]"
proof -
  let ?x = "session_ctx demo_crypto [] 0 [7, 8, 9] [(0, [7, 8, 9])] demo_start demo_begun"
  let ?step = "lane_step ?x 0 demo_ops file_writes"
  let ?y = "demo_written\<lparr>sy_lane := after_batch demo_crypto 0 demo_ops 0 0 0 demo_closed\<rparr>"
  have x: "cx_cr ?x = demo_crypto" "cx_psk ?x = []" "cx_lane ?x = 0" "cx_key ?x = None" "cx_blks ?x = [(0, [7, 8, 9])]"
    by (simp_all add: session_ctx_def lane_key_def)
  have s1: "?step \<lparr>sy_lane = demo_begun, sy_ks = \<lambda>_. None\<rparr> \<lparr>sy_lane = demo_given, sy_ks = \<lambda>_. None\<rparr>"
    using step_datagram [of ?x demo_block demo_ops 0 0 demo_peer "\<lparr>sy_lane = demo_begun, sy_ks = \<lambda>_. None\<rparr>"] demo_sealed(1) demo_gives x
    by simp
  note st = demo_steps [OF x(1-4)]
  have run: "?step\<^sup>*\<^sup>* \<lparr>sy_lane = demo_begun, sy_ks = \<lambda>_. None\<rparr> ?y"
    by (rule rtranclp.rtrancl_into_rtrancl [OF rtranclp.rtrancl_into_rtrancl [OF rtranclp.rtrancl_into_rtrancl
          [OF r_into_rtranclp [of ?step, OF s1] st(1)] st(2)] st(3)])
  have b: "blks_ok [7, 8, 9] (ss_stream_base_offset demo_start) (ss_total_bytes demo_start) [(0, [7, 8, 9])]"
    by (simp add: blks_ok_def demo_start_def)
  have u: "{} \<union> (\<Union>n < length [(0, [7, 8, 9])]. blk_range (ss_stream_base_offset demo_start) [(0, [7, 8, 9])] n) = {0..<3}"
    by (auto simp: blk_range_def demo_start_def)
  have "agrees [7, 8, 9] {0..<3} (fs_view (rp_sink (rl_p (sy_lane ?y))))"
    by (rule ok_lane_has_every_block [OF demo_fresh(1) demo_begins b demo_fresh(2,3) run, unfolded u, THEN conjunct2, THEN mp])
      (simp add: demo_finishes)
  then have "fs_view (rp_sink (rl_p (sy_lane ?y))) = [7, 8, 9]"
    by (intro nth_equalityI) (auto simp: agrees_def)
  then show ?thesis using run demo_finishes by (intro exI [of _ ?y]) simp
qed

end
