(* ===== verification/Send_Lane.thy ===== *)
theory Send_Lane
  imports Rx_Pipeline Registry Congestion
begin

text \<open>
  A sending lane: \<^verbatim>\<open>send_lane\<close> in \<^verbatim>\<open>src/src/proto/transfer.cpp\<close>. The handshake with the receiver, the
  batches of blocks cut from the session's plan, retransmissions, the receiver's control messages, the
  retransmission timeout, the adaptive block size and the digest that ends a resumed transfer.

  The function's local variables are the records \<open>handshake\<close> and \<open>sender\<close>. What is given to the socket
  are the lists \<open>sd_data\<close> (data datagrams) and \<open>sd_ctl\<close> (control datagrams, with their destination);
  \<open>sd_blocks\<close> records the blocks cut so far, in the order of their sequence numbers. Each handler is
  given the clock readings and random numbers it would obtain, and whether the socket accepts a
  datagram. The pacing interval, computed in floating point, is an argument.
\<close>

section \<open>Configuration and state\<close>

definition kGsoBudget :: nat where [simp]: "kGsoBudget = 60000"
definition kCleanBatchesToGrow :: u32 where [simp]: "kCleanBatchesToGrow = 8"
definition kMaxGsoSegments :: nat where [simp]: "kMaxGsoSegments = 64"
definition kRtoHoles :: nat where [simp]: "kRtoHoles = 8"

abbreviation send_window :: u64 where "send_window \<equiv> 1024"

record send_cfg =
  sg_lane :: u16
  sg_keys :: Keys
  sg_data :: "byte list"
  sg_block_size :: u16
  sg_timeout_ms :: u32
  sg_connect_timeout_ms :: u32

definition shard_bytes :: "send_cfg \<Rightarrow> u64" where
  "shard_bytes cfg = of_nat (length (sg_data cfg))"

definition tag_room :: "send_cfg \<Rightarrow> nat" where
  "tag_room cfg = (if ky_enabled (sg_keys cfg) then kAeadTagLen else 0)"

definition block_ceiling :: "send_cfg \<Rightarrow> u16" where
  "block_ceiling cfg = of_nat (kMaxPayloadSize - tag_room cfg)"

definition first_block :: "send_cfg \<Rightarrow> u16" where
  "first_block cfg = min (sg_block_size cfg) (block_ceiling cfg)"

text \<open>How far a block may grow on a path whose MTU the kernel reports as \<open>mtu\<close> (0: unknown).\<close>

definition mtu_bound :: "send_cfg \<Rightarrow> nat \<Rightarrow> nat \<Rightarrow> u16" where
  "mtu_bound cfg mtu ip_overhead =
     (let overhead = ip_overhead + kDataPrefixSize + tag_room cfg; block = first_block cfg in
      if mtu > overhead
      then of_nat (max (unat block) (min (unat (block_ceiling cfg)) (mtu - overhead)))
      else block)"

definition max_units :: "send_cfg \<Rightarrow> u16 \<Rightarrow> u64" where
  "max_units cfg mtu_ceiling =
     min 65535 (max send_window (send_window * ucast mtu_ceiling div ucast (first_block cfg)))"

record sender =
  sd_reg :: SenderRegistry
  sd_cipher :: LaneKeySchedule
  sd_auth :: "ControlAuth option"
  sd_path :: PathValidator
  sd_dst :: PeerAddr
  sd_nonce :: u64
  sd_plan :: "ResumeRange list"
  sd_session_bytes :: u64
  sd_resumed :: bool
  sd_block :: u16
  sd_growth_ceiling :: u16
  sd_mtu_ceiling :: u16
  sd_pre_growth_block :: u16
  sd_clean_since_growth :: u32
  sd_reprobe_after :: u32
  sd_clean_at_ceiling :: u32
  sd_clean_batches :: u32
  sd_cc :: CongestionController
  sd_sent_bytes :: u64
  sd_acked_bytes :: u64
  sd_next_batch_ns :: u64
  sd_peer_rwnd :: u32
  sd_received_end :: u64
  sd_base :: u64
  sd_next_seq :: u64
  sd_retransmits :: u64
  sd_ri :: nat
  sd_next_offset :: u64
  sd_last_base :: u64
  sd_last_progress :: u64
  sd_last_real_progress :: u64
  sd_last_rtt_echo :: u64
  sd_sent_last :: bool
  sd_loss_seen :: bool
  sd_res :: LaneResult
  sd_returned :: bool
  sd_stop_all :: bool
  sd_blocks :: "(u64 \<times> byte list) list"
  sd_data :: "byte list list"
  sd_ctl :: "(byte list \<times> PeerAddr) list"

text \<open>The lane as the handshake leaves it, with the plan the receiver asked for.\<close>

definition new_sender ::
  "send_cfg \<Rightarrow> nat \<Rightarrow> u64 \<Rightarrow> LaneKeySchedule \<Rightarrow> ControlAuth option \<Rightarrow> PeerAddr \<Rightarrow> u64 \<Rightarrow> resume_answer \<Rightarrow> sender" where
  "new_sender cfg mtu now cipher auth dst nonce answer =
     (let (plan, bytes) = session_plan (shard_bytes cfg) (ra_answer answer);
          ceiling = mtu_bound cfg mtu (ip_udp_overhead dst)
      in \<lparr>sd_reg = new_registry (sg_lane cfg) (ucast send_window), sd_cipher = cipher, sd_auth = auth,
          sd_path = new_path_validator, sd_dst = dst, sd_nonce = nonce, sd_plan = plan,
          sd_session_bytes = bytes, sd_resumed = ra_resumed answer, sd_block = first_block cfg,
          sd_growth_ceiling = ceiling, sd_mtu_ceiling = ceiling, sd_pre_growth_block = 0,
          sd_clean_since_growth = 0, sd_reprobe_after = 64, sd_clean_at_ceiling = 0, sd_clean_batches = 0,
          sd_cc = enable_slow_start 128 (new_controller (ucast (max_units cfg ceiling)) True 1 16),
          sd_sent_bytes = 0, sd_acked_bytes = 0, sd_next_batch_ns = 0, sd_peer_rwnd = kRwndUnlimited,
          sd_received_end = 0, sd_base = 0, sd_next_seq = 0, sd_retransmits = 0, sd_ri = 0,
          sd_next_offset = (case plan of [] \<Rightarrow> 0 | r # _ \<Rightarrow> fst r), sd_last_base = 0,
          sd_last_progress = now, sd_last_real_progress = now, sd_last_rtt_echo = 0, sd_sent_last = False,
          sd_loss_seen = False,
          sd_res = new_lane_result\<lparr>lr_expected := bytes, lr_skipped := shard_bytes cfg - bytes,
                     lr_started := True, lr_start_ns := now\<rparr>,
          sd_returned = False, sd_stop_all = False, sd_blocks = [], sd_data = [], sd_ctl = []\<rparr>)"

section \<open>Cutting and sending blocks\<close>

definition seal_block ::
  "Crypto \<Rightarrow> send_cfg \<Rightarrow> u64 \<Rightarrow> u64 \<Rightarrow> u8 \<Rightarrow> byte list \<Rightarrow> LaneKeySchedule \<Rightarrow> byte list option \<times> LaneKeySchedule" where
  "seal_block cr cfg seq offset flags pt ks =
     (let (c, ks) = cipher_for cr seq ks in
      (case c of
         None \<Rightarrow> None
       | Some ci \<Rightarrow> lane_seal cr ci (sg_lane cfg) seq (build_aad (sg_lane cfg) seq offset flags) pt, ks))"

text \<open>
  A block's datagram, and the key schedule. \<open>body\<close> are the bytes the pointer leads to, of which the
  block is the first \<open>len\<close>; \<open>room\<close> is the space in the buffer.
\<close>

definition block_datagram ::
  "Crypto \<Rightarrow> send_cfg \<Rightarrow> u64 \<Rightarrow> u64 \<Rightarrow> u64 \<Rightarrow> u8 \<Rightarrow> u16 \<Rightarrow> byte list \<Rightarrow> nat \<Rightarrow> LaneKeySchedule \<Rightarrow>
   byte list option \<times> LaneKeySchedule" where
  "block_datagram cr cfg time seq offset flags len body room ks =
     (let hdr = \<lparr>bh_stream_id = sg_lane cfg, bh_seq_no = seq, bh_flags = flags, bh_payload_len = len,
                 bh_offset = offset\<rparr> in
      if ky_enabled (sg_keys cfg) then
        (case seal_block cr cfg seq offset flags (take (unat len) body) ks of
           (None, ks) \<Rightarrow> (None, ks)
         | (Some sealed, ks) \<Rightarrow>
             (encode_data_datagram (hdr\<lparr>bh_payload_len := len + of_nat kAeadTagLen\<rparr>) time (Some sealed)
                (replicate room 0), ks))
      else (encode_data_datagram hdr time (Some body) (replicate room 0), ks))"

definition range_end :: "sender \<Rightarrow> u64" where
  "range_end s = (if sd_ri s < length (sd_plan s) then fst (sd_plan s ! sd_ri s) + snd (sd_plan s ! sd_ri s) else 0)"

definition cut_len :: "sender \<Rightarrow> u16" where
  "cut_len s = ucast (min (ucast (sd_block s)) (range_end s - sd_next_offset s))"

definition cut_is_last :: "sender \<Rightarrow> bool" where
  "cut_is_last s \<longleftrightarrow>
     Suc (sd_ri s) \<ge> length (sd_plan s) \<and> sd_next_offset s + ucast (cut_len s) \<ge> range_end s"

definition cut_flags :: "sender \<Rightarrow> u8" where
  "cut_flags s = (if cut_is_last s then kFlagLastBlock else 0)"

text \<open>The sender after a block has been cut and encoded.\<close>

definition advance :: "send_cfg \<Rightarrow> byte list \<Rightarrow> sender \<Rightarrow> sender" where
  "advance cfg dg s =
     (let len = cut_len s; next = sd_next_offset s + ucast len; fin = range_end s;
          done = (sd_ri s < length (sd_plan s) \<and> next \<ge> fin);
          ri = (if done then Suc (sd_ri s) else sd_ri s)
      in s\<lparr>sd_next_seq := sd_next_seq s + 1, sd_sent_bytes := sd_sent_bytes s + ucast len, sd_ri := ri,
           sd_next_offset := if done \<and> ri < length (sd_plan s) then fst (sd_plan s ! ri) else next,
           sd_sent_last := sd_sent_last s \<or> cut_is_last s,
           sd_blocks := sd_blocks s @ [(sd_next_offset s, take (unat len) (drop (unat (sd_next_offset s)) (sg_data cfg)))],
           sd_data := sd_data s @ [dg]\<rparr>)"

text \<open>
  The packing loop, with \<open>n\<close> places left in the batch; \<open>used\<close> are the bytes already staged. The times
  are the clock readings for the registry and for the wire.
\<close>

fun pack_loop ::
  "Crypto \<Rightarrow> send_cfg \<Rightarrow> (u64 \<times> u64) list \<Rightarrow> nat \<Rightarrow> bool \<Rightarrow> nat \<Rightarrow> nat \<Rightarrow> sender \<Rightarrow> byte list list \<times> sender" where
  "pack_loop cr cfg ((now, wire) # ts) seg need_empty packed used s =
     (if \<not> (sd_ri s < length (sd_plan s) \<or> need_empty) \<or>
         (range_end s - sd_next_offset s < ucast (sd_block s) \<and> packed > 0) then ([], s)
      else
        let len = cut_len s; flags = cut_flags s; off = sd_next_offset s; seq = sd_next_seq s;
            body = drop (unat off) (sg_data cfg);
            s = s\<lparr>sd_reg := fst (store (sd_reg s) seq (Some body) len now off flags)\<rparr>;
            (dg, ks) = block_datagram cr cfg wire seq off flags len body (kGsoBudget + kMaxDatagramSize - used) (sd_cipher s);
            s = s\<lparr>sd_cipher := ks\<rparr>
        in case dg of
             None \<Rightarrow> ([], s)
           | Some d \<Rightarrow>
               let last = cut_is_last s; s = advance cfg d s in
               if last \<or> length d \<noteq> seg then ([d], s)
               else let (ds, s) = pack_loop cr cfg ts seg need_empty (Suc packed) (used + length d) s in (d # ds, s))"
| "pack_loop cr cfg [] seg need_empty packed used s = ([], s)"

definition segment_size :: "send_cfg \<Rightarrow> sender \<Rightarrow> nat" where
  "segment_size cfg s = unat (of_nat (kDataPrefixSize + unat (sd_block s) + tag_room cfg) :: u16)"

definition rwnd_bytes :: "sender \<Rightarrow> u64" where
  "rwnd_bytes s =
     (if sd_peer_rwnd s = kRwndUnlimited then 0xFFFFFFFFFFFFFFFF
      else ucast (max (sd_peer_rwnd s) 4) * ucast (sd_block s))"

definition window_bytes :: "send_cfg \<Rightarrow> sender \<Rightarrow> u64" where
  "window_bytes cfg s =
     min (ucast (max 4 (cc_window (sd_cc s))) * ucast (first_block cfg)) (rwnd_bytes s)"

definition need_empty_last :: "sender \<Rightarrow> bool" where
  "need_empty_last s \<longleftrightarrow> sd_plan s = [] \<and> sd_next_seq s = 0"

definition max_segs :: "send_cfg \<Rightarrow> sender \<Rightarrow> nat" where
  "max_segs cfg s =
     (let inflight = sd_sent_bytes s - sd_acked_bytes s; block = ucast (sd_block s) :: u64;
          byte_room = (window_bytes cfg s - inflight + block - 1) div block;
          burst_cap = (if cc_srtt_ns (sd_cc s) > 1000000 then 16 else kMaxGsoSegments)
      in min (min (kGsoBudget div segment_size cfg s) (unat (send_window - (sd_next_seq s - sd_base s))))
             (min (unat byte_room) burst_cap))"

text \<open>
  The datagrams of a batch go out as one segmented send, or one by one when that is refused; the
  fallback cuts the staging buffer every \<open>seg\<close> bytes.
\<close>

fun slice_batch :: "nat \<Rightarrow> nat \<Rightarrow> byte list \<Rightarrow> byte list list" where
  "slice_batch seg 0 bytes = []"
| "slice_batch seg (Suc n) bytes = (if bytes = [] then [] else take seg bytes # slice_batch seg n (drop seg bytes))"

text \<open>\<open>ts\<close> are the clock readings of the loop, as many as it may need; \<open>pace\<close> is the pacing interval.\<close>

definition send_batch :: "Crypto \<Rightarrow> send_cfg \<Rightarrow> u64 \<Rightarrow> (u64 \<times> u64) list \<Rightarrow> u64 \<Rightarrow> u64 \<Rightarrow> sender \<Rightarrow> bool \<times> sender" where
  "send_batch cr cfg now ts after pace s =
     (if (sd_ri s < length (sd_plan s) \<or> need_empty_last s) \<and> sd_next_seq s < sd_base s + send_window \<and>
         sd_sent_bytes s - sd_acked_bytes s < window_bytes cfg s \<and> now \<ge> sd_next_batch_ns s
      then let (ds, s) = pack_loop cr cfg (take (max_segs cfg s) ts) (segment_size cfg s) (need_empty_last s) 0 0 s
           in (ds \<noteq> [], if ds \<noteq> [] then s\<lparr>sd_next_batch_ns := after + pace\<rparr> else s)
      else (False, s))"

section \<open>Retransmission\<close>

text \<open>\<open>accepts\<close>: whether the socket takes the datagram.\<close>

definition resend :: "Crypto \<Rightarrow> send_cfg \<Rightarrow> u64 \<Rightarrow> bool \<Rightarrow> u64 \<Rightarrow> sender \<Rightarrow> bool \<times> sender" where
  "resend cr cfg wire accepts seq s =
     (case lookup (sd_reg s) seq of
        None \<Rightarrow> (False, s)
      | Some sl \<Rightarrow>
          let flags = sl_flags sl OR kFlagRetransmission;
              (dg, ks) = block_datagram cr cfg wire seq (sl_offset sl) flags (sl_payload_len sl) (sl_payload sl)
                           (kMaxDatagramSize + 64) (sd_cipher s);
              s = s\<lparr>sd_cipher := ks\<rparr>
          in case dg of
               None \<Rightarrow> (False, s)
             | Some d \<Rightarrow> if accepts then (True, s\<lparr>sd_data := sd_data s @ [d], sd_retransmits := sd_retransmits s + 1\<rparr>)
                         else (False, s))"

section \<open>Control messages\<close>

definition ctl_send :: "byte list list \<Rightarrow> PeerAddr \<Rightarrow> sender \<Rightarrow> sender" where
  "ctl_send dgs to s = s\<lparr>sd_ctl := sd_ctl s @ map (\<lambda>d. (d, to)) dgs\<rparr>"

definition give_up_send :: "Crypto \<Rightarrow> send_cfg \<Rightarrow> TransferStatus \<Rightarrow> bool \<Rightarrow> sender \<Rightarrow> sender" where
  "give_up_send cr cfg st tell_peer s =
     (let s = (if tell_peer
               then let (dgs, auth) = send_stream_close cr (sg_lane cfg) (sd_nonce s) kStreamCloseAborted (sd_auth s)
                    in ctl_send dgs (sd_dst s) (s\<lparr>sd_auth := auth\<rparr>)
               else s)
      in s\<lparr>sd_res := (sd_res s)\<lparr>lr_retransmits := sd_retransmits s, lr_status := st\<rparr>, sd_returned := True\<rparr>)"

definition sender_probe :: "Crypto \<Rightarrow> send_cfg \<Rightarrow> u64 \<Rightarrow> u64 \<Rightarrow> PeerAddr \<Rightarrow> sender \<Rightarrow> sender" where
  "sender_probe cr cfg now rnd src s =
     (let (challenge, path) = want_probe rnd src now (sd_path s); s = s\<lparr>sd_path := path\<rparr> in
      case challenge of
        None \<Rightarrow> s
      | Some c \<Rightarrow>
          let (dgs, auth) = send_path_probe cr MsgPathChallenge (sg_lane cfg) (sd_nonce s) c (sd_auth s)
          in ctl_send dgs src (s\<lparr>sd_auth := auth\<rparr>))"

definition sender_on_ack :: "Crypto \<Rightarrow> send_cfg \<Rightarrow> u64 \<Rightarrow> u64 \<Rightarrow> u64 \<Rightarrow> Ack \<Rightarrow> PeerAddr \<Rightarrow> sender \<Rightarrow> sender" where
  "sender_on_ack cr cfg now wire rnd ack src s =
     (if ack_nonce ack \<noteq> sd_nonce s then s
      else
        let s = (if \<not> peer_eq src (sd_dst s) then sender_probe cr cfg now rnd src s else s);
            (reg, base, re, bytes) = apply_ack (sd_reg s) ack (sd_base s) (sd_next_seq s) (Some (sd_received_end s));
            acked_bytes = sd_acked_bytes s + bytes;
            fresh = (ack_echoed_send_time ack > 0 \<and> ack_echoed_send_time ack \<noteq> sd_last_rtt_echo s)
        in s\<lparr>sd_reg := reg, sd_base := base, sd_received_end := the re, sd_acked_bytes := acked_bytes,
             sd_peer_rwnd := ack_rwnd ack, sd_res := (sd_res s)\<lparr>lr_bytes := acked_bytes\<rparr>,
             sd_last_rtt_echo := if fresh then ack_echoed_send_time ack else sd_last_rtt_echo s,
             sd_cc := if fresh then on_rtt_sample (rtt_sample_from_echo wire (ack_echoed_send_time ack)) (sd_cc s)
                      else sd_cc s\<rparr>)"

text \<open>The socket's answers to the retransmissions of a NACK are \<open>oks\<close>.\<close>

fun resend_list :: "Crypto \<Rightarrow> send_cfg \<Rightarrow> u64 \<Rightarrow> (u64 \<times> bool) list \<Rightarrow> sender \<Rightarrow> sender" where
  "resend_list cr cfg wire [] s = s"
| "resend_list cr cfg wire ((seq, ok) # rest) s = resend_list cr cfg wire rest (snd (resend cr cfg wire ok seq s))"

definition sender_on_nack :: "Crypto \<Rightarrow> send_cfg \<Rightarrow> u64 \<Rightarrow> (u64 \<Rightarrow> bool) \<Rightarrow> Nack \<Rightarrow> sender \<Rightarrow> sender" where
  "sender_on_nack cr cfg wire accepts nack s =
     resend_list cr cfg wire (map (\<lambda>q. (q, accepts q)) (take (unat (nk_count nack)) (nk_missing nack)))
       (s\<lparr>sd_cc := on_loss (sd_cc s), sd_loss_seen := True\<rparr>)"

definition sender_on_path ::
  "Crypto \<Rightarrow> send_cfg \<Rightarrow> MsgType \<Rightarrow> byte list \<Rightarrow> PeerAddr \<Rightarrow> sender \<Rightarrow> sender" where
  "sender_on_path cr cfg type dg src s =
     (case decode_path_probe type dg of
        accept pp \<Rightarrow>
          if pp_nonce pp \<noteq> sd_nonce s then s
          else if type = MsgPathChallenge then
            (let (dgs, auth) = send_path_probe cr MsgPathResponse (sg_lane cfg) (sd_nonce s) (pp_challenge pp) (sd_auth s)
             in ctl_send dgs src (s\<lparr>sd_auth := auth\<rparr>))
          else (let (ok, path) = validated src (pp_challenge pp) (sd_path s); s = s\<lparr>sd_path := path\<rparr>
                in if ok then s\<lparr>sd_dst := src\<rparr> else s)
      | _ \<Rightarrow> s)"

definition sender_on_close :: "Crypto \<Rightarrow> send_cfg \<Rightarrow> byte list \<Rightarrow> sender \<Rightarrow> sender" where
  "sender_on_close cr cfg dg s =
     (case decode_stream_close dg of
        accept sc \<Rightarrow>
          if sc_nonce sc = sd_nonce s \<and> sc_reason sc = kStreamCloseAborted
          then (give_up_send cr cfg PeerAborted False s)\<lparr>sd_stop_all := True\<rparr>
          else s
      | _ \<Rightarrow> s)"

definition sender_on_datagram ::
  "Crypto \<Rightarrow> send_cfg \<Rightarrow> u64 \<Rightarrow> u64 \<Rightarrow> u64 \<Rightarrow> (u64 \<Rightarrow> bool) \<Rightarrow> byte list \<Rightarrow> PeerAddr \<Rightarrow> sender \<Rightarrow> sender" where
  "sender_on_datagram cr cfg now wire rnd accepts dg src s =
     (case peek_msg_type dg of
        accept type \<Rightarrow>
          if \<not> ctl_authentic cr (sd_auth s) dg then s
          else if type = MsgAck then
            (case decode_ack dg of accept ack \<Rightarrow> sender_on_ack cr cfg now wire rnd ack src s | _ \<Rightarrow> s)
          else if type = MsgNack then
            (case decode_nack dg of accept nack \<Rightarrow> sender_on_nack cr cfg wire accepts nack s | _ \<Rightarrow> s)
          else if type = MsgPathChallenge \<or> type = MsgPathResponse then sender_on_path cr cfg type dg src s
          else if type = MsgStreamClose then sender_on_close cr cfg dg s
          else s
      | _ \<Rightarrow> s)"

section \<open>Timers and the block size\<close>

text \<open>The holes loop of the retransmission timeout: how many were found, whether one was sent or refused.\<close>

function rto_loop ::
  "Crypto \<Rightarrow> send_cfg \<Rightarrow> u64 \<Rightarrow> (u64 \<Rightarrow> bool) \<Rightarrow> u64 \<Rightarrow> u64 \<Rightarrow> nat \<Rightarrow> bool \<Rightarrow> sender \<Rightarrow>
   nat \<times> bool \<times> bool \<times> sender" where
  "rto_loop cr cfg wire accepts next_seq q holes sent s =
     (if q < next_seq \<and> holes < kRtoHoles \<and> \<not> (q \<noteq> sd_base s \<and> q \<ge> sd_received_end s) then
        (if lookup (sd_reg s) q = None then rto_loop cr cfg wire accepts next_seq (q + 1) holes sent s
         else
           case resend cr cfg wire (accepts q) q s of
             (True, s) \<Rightarrow> rto_loop cr cfg wire accepts next_seq (q + 1) (Suc holes) True s
           | (False, s) \<Rightarrow> (Suc holes, sent, True, s))
      else (holes, sent, False, s))"
  by pat_completeness auto
termination
  by (relation "measure (\<lambda>(cr, cfg, wire, accepts, next_seq, q, holes, sent, s). unat next_seq - unat q)")
     (auto simp: word_less_nat_alt unat_suc_less)

declare rto_loop.simps [simp del]

text \<open>\<open>t\<close> is the time of this turn; the answer is whether the base has moved.\<close>

definition rto_tick :: "Crypto \<Rightarrow> send_cfg \<Rightarrow> u64 \<Rightarrow> u64 \<Rightarrow> (u64 \<Rightarrow> bool) \<Rightarrow> sender \<Rightarrow> bool \<times> sender" where
  "rto_tick cr cfg t wire accepts s =
     (let rto = rto_ns 5000000 1000000000 1000000000 (sd_cc s) in
      if sd_base s \<noteq> sd_last_base s
      then (True, s\<lparr>sd_last_base := sd_base s, sd_last_progress := t, sd_last_real_progress := t,
                    sd_cc := on_progress (sd_cc s)\<rparr>)
      else if t - sd_last_progress s > rto then
        let (holes, sent, refused, s) = rto_loop cr cfg wire accepts (sd_next_seq s) (sd_base s) 0 False s in
        (False, if holes = 0 then s\<lparr>sd_last_progress := t\<rparr>
                else if sent \<and> \<not> refused then s\<lparr>sd_cc := on_timeout (sd_cc s), sd_last_progress := t\<rparr>
                else s)
      else (False, s))"

definition note_clean :: "sender \<Rightarrow> sender" where
  "note_clean s =
     (let s = s\<lparr>sd_clean_since_growth := sd_clean_since_growth s + 1\<rparr> in
      if sd_growth_ceiling s < sd_mtu_ceiling s then
        if sd_clean_at_ceiling s + 1 \<ge> sd_reprobe_after s
        then s\<lparr>sd_growth_ceiling := sd_mtu_ceiling s, sd_clean_at_ceiling := 0\<rparr>
        else s\<lparr>sd_clean_at_ceiling := sd_clean_at_ceiling s + 1\<rparr>
      else s)"

definition shrink_block :: "send_cfg \<Rightarrow> sender \<Rightarrow> sender" where
  "shrink_block cfg s =
     (let s = (if sd_pre_growth_block s \<noteq> 0 \<and> sd_clean_since_growth s < kCleanBatchesToGrow
               then s\<lparr>sd_growth_ceiling := sd_pre_growth_block s,
                      sd_reprobe_after := min (sd_reprobe_after s * 2) 4096\<rparr>
               else s)
      in s\<lparr>sd_clean_at_ceiling := 0, sd_pre_growth_block := 0, sd_block := first_block cfg, sd_clean_batches := 0\<rparr>)"

definition grow_block :: "sender \<Rightarrow> sender" where
  "grow_block s =
     (let s = s\<lparr>sd_clean_batches := sd_clean_batches s + 1\<rparr> in
      if sd_clean_batches s \<ge> kCleanBatchesToGrow \<and> sd_block s < sd_growth_ceiling s
      then s\<lparr>sd_clean_batches := 0, sd_pre_growth_block := sd_block s, sd_clean_since_growth := 0,
             sd_block := ucast (min (ucast (sd_growth_ceiling s)) (ucast (sd_block s) * 2 :: u32))\<rparr>
      else s)"

definition adapt_block :: "send_cfg \<Rightarrow> bool \<Rightarrow> sender \<Rightarrow> sender" where
  "adapt_block cfg base_advanced s =
     (let s = (if base_advanced then note_clean s else s) in
      if sd_loss_seen s then shrink_block cfg s
      else if base_advanced then grow_block s
      else s)"

section \<open>The loop\<close>

definition send_top :: "Crypto \<Rightarrow> send_cfg \<Rightarrow> bool \<Rightarrow> u64 \<Rightarrow> sender \<Rightarrow> sender" where
  "send_top cr cfg cancelled now s =
     (if cancelled then (give_up_send cr cfg Cancelled True s)\<lparr>sd_stop_all := True\<rparr>
      else if sd_stop_all s then give_up_send cr cfg PeerAborted True s
      else s\<lparr>sd_cc := cc_poll now (sd_cc s), sd_loss_seen := False\<rparr>)"

text \<open>The end of a turn: the first component is whether the loop is left with everything acknowledged.\<close>

definition send_bottom :: "Crypto \<Rightarrow> send_cfg \<Rightarrow> u64 \<Rightarrow> sender \<Rightarrow> bool \<times> sender" where
  "send_bottom cr cfg t s =
     (let s = s\<lparr>sd_res := (sd_res s)\<lparr>lr_retransmits := sd_retransmits s\<rparr>\<rparr> in
      if sd_sent_last s \<and> sd_base s \<ge> sd_next_seq s then (True, s)
      else if t - sd_last_real_progress s > ucast (sg_timeout_ms cfg) * 1000000
      then (False, give_up_send cr cfg TransferStatus.Timeout True s)
      else (False, s))"

definition finish_send :: "Crypto \<Rightarrow> send_cfg \<Rightarrow> sender \<Rightarrow> sender" where
  "finish_send cr cfg s =
     (let (dgs, auth) = send_stream_close cr (sg_lane cfg) (sd_nonce s) kStreamCloseFinished (sd_auth s);
          s = ctl_send dgs (sd_dst s) (s\<lparr>sd_auth := auth\<rparr>)
      in s\<lparr>sd_res := (sd_res s)\<lparr>lr_bytes := sd_session_bytes s, lr_retransmits := sd_retransmits s,
                       lr_final_block := ucast (sd_block s), lr_status := Ok\<rparr>,
           sd_returned := True\<rparr>)"

text \<open>
  One turn of the loop: the clock readings and random numbers it obtains, the datagrams that have
  arrived (at most 64 are read) and the answers of the socket. The first component is whether the loop is
  left with everything acknowledged.
\<close>

record send_turn_in =
  su_cancelled :: bool
  su_poll :: u64
  su_batch_now :: u64
  su_times :: "(u64 \<times> u64) list"
  su_after :: u64
  su_pace :: u64
  su_arrived :: "(u64 \<times> u64 \<times> u64 \<times> byte list \<times> PeerAddr) list"
  su_accepts :: "u64 \<Rightarrow> bool"
  su_t :: u64
  su_wire :: u64

fun send_drain ::
  "Crypto \<Rightarrow> send_cfg \<Rightarrow> (u64 \<Rightarrow> bool) \<Rightarrow> (u64 \<times> u64 \<times> u64 \<times> byte list \<times> PeerAddr) list \<Rightarrow> sender \<Rightarrow> sender" where
  "send_drain cr cfg accepts [] s = s"
| "send_drain cr cfg accepts ((now, wire, rnd, dg, src) # rest) s =
     (let s = sender_on_datagram cr cfg now wire rnd accepts dg src s in
      if sd_returned s then s else send_drain cr cfg accepts rest s)"

definition send_turn :: "Crypto \<Rightarrow> send_cfg \<Rightarrow> send_turn_in \<Rightarrow> sender \<Rightarrow> bool \<times> sender" where
  "send_turn cr cfg e s =
     (let s = send_top cr cfg (su_cancelled e) (su_poll e) s in
      if sd_returned s then (False, s)
      else
        let s = snd (send_batch cr cfg (su_batch_now e) (su_times e) (su_after e) (su_pace e) s);
            s = send_drain cr cfg (su_accepts e) (take 64 (su_arrived e)) s
        in if sd_returned s then (False, s)
           else
             let (base_advanced, s) = rto_tick cr cfg (su_t e) (su_wire e) (su_accepts e) s
             in send_bottom cr cfg (su_t e) (adapt_block cfg base_advanced s))"

section \<open>The handshake\<close>

text \<open>What a lane does before its first datagram: its address, its socket and its keys.\<close>

definition send_setup ::
  "Crypto \<Rightarrow> send_cfg \<Rightarrow> bool \<Rightarrow> bool \<Rightarrow> TransferStatus + LaneKeySchedule \<times> ControlAuth option" where
  "send_setup cr cfg resolved opened =
     (if \<not> resolved then Inl ConfigError
      else if \<not> opened then Inl SocketError
      else if \<not> ky_enabled (sg_keys cfg) then Inr (new_key_schedule, None)
      else
        let (ok, ks) = key_schedule_init cr (Some (ky_key (sg_keys cfg))) (sg_lane cfg) new_key_schedule in
        if \<not> ok then Inl Unsupported
        else let (ok, auth) = control_auth_init cr (Some (ky_key (sg_keys cfg))) (sg_lane cfg) 0 new_control_auth in
             if \<not> ok then Inl Unsupported else Inr (ks, Some auth))"

record handshake =
  hk_ss :: StreamStart
  hk_auth :: "ControlAuth option"
  hk_acked :: bool
  hk_answer :: resume_answer
  hk_begin :: u64
  hk_resend_every_ns :: u64
  hk_next_send_ns :: u64
  hk_stop_all :: bool
  hk_status :: "TransferStatus option"
  hk_ctl :: "byte list list"

definition first_start :: "send_cfg \<Rightarrow> u64 \<Rightarrow> u64 \<Rightarrow> u64 \<Rightarrow> u64 \<Rightarrow> StreamStart" where
  "first_start cfg lane_base file_total file_id nonce =
     \<lparr>ss_stream_id = sg_lane cfg, ss_total_blocks = 0, ss_block_size = sg_block_size cfg, ss_total_bytes = shard_bytes cfg,
      ss_session_salt = (if ky_enabled (sg_keys cfg) then ky_salt (sg_keys cfg) else replicate 16 0), ss_nonce = nonce,
      ss_stream_base_offset = lane_base, ss_file_total_bytes = file_total, ss_file_id = file_id, ss_token = 0,
      ss_ext_len = 0, ss_ext = replicate kMaxExtensionBytes 0\<rparr>"

definition new_handshake :: "StreamStart \<Rightarrow> ControlAuth option \<Rightarrow> u64 \<Rightarrow> handshake" where
  "new_handshake ss auth now =
     \<lparr>hk_ss = ss, hk_auth = auth, hk_acked = False, hk_answer = no_answer, hk_begin = now,
      hk_resend_every_ns = 1000000, hk_next_send_ns = 0, hk_stop_all = False, hk_status = None, hk_ctl = []\<rparr>"

definition hs_limit_ns :: "send_cfg \<Rightarrow> u64" where
  "hs_limit_ns cfg = ucast (min (sg_connect_timeout_ms cfg) (sg_timeout_ms cfg)) * 1000000"

definition hs_top :: "Crypto \<Rightarrow> send_cfg \<Rightarrow> bool \<Rightarrow> u64 \<Rightarrow> handshake \<Rightarrow> handshake" where
  "hs_top cr cfg cancelled t h =
     (if cancelled \<or> hk_stop_all h \<or> t - hk_begin h > hs_limit_ns cfg then
        let (dgs, auth) = send_stream_close cr (sg_lane cfg) (ss_nonce (hk_ss h)) kStreamCloseAborted (hk_auth h)
        in h\<lparr>hk_auth := auth, hk_ctl := hk_ctl h @ dgs,
             hk_status := Some (if cancelled then Cancelled else if hk_stop_all h then PeerAborted else TransferStatus.Timeout),
             hk_stop_all := hk_stop_all h \<or> cancelled\<rparr>
      else if t \<ge> hk_next_send_ns h then
        let (dg, auth) = seal_ctl cr (hk_auth h) (encode_stream_start (hk_ss h) (kMaxAuxDatagramSize + 64)) (kMaxAuxDatagramSize + 64)
        in h\<lparr>hk_auth := auth, hk_ctl := hk_ctl h @ (case dg of None \<Rightarrow> [] | Some d \<Rightarrow> [d]),
             hk_next_send_ns := t + hk_resend_every_ns h,
             hk_resend_every_ns := min (hk_resend_every_ns h * 2) 200000000\<rparr>
      else h)"

definition hs_receive :: "Crypto \<Rightarrow> byte list \<Rightarrow> handshake \<Rightarrow> handshake" where
  "hs_receive cr dg h =
     (case decode_version_mismatch dg of
        accept v \<Rightarrow> h\<lparr>hk_status := Some VersionMismatch, hk_stop_all := True\<rparr>
      | _ \<Rightarrow>
          (case peek_msg_type dg of
             accept mt \<Rightarrow>
               (let authentic = ctl_authentic cr (hk_auth h) dg; nonce = ss_nonce (hk_ss h) in
                if mt = MsgStreamClose then
                  (case decode_stream_close dg of
                     accept sc \<Rightarrow>
                       if sc_nonce sc = nonce \<and> sc_reason sc = kStreamCloseAuthFailed
                       then h\<lparr>hk_status := Some AuthFailed, hk_stop_all := True\<rparr> else h
                   | _ \<Rightarrow> h)
                else if mt = MsgRetry then
                  (case decode_retry dg of
                     accept r \<Rightarrow>
                       if rt_nonce r = nonce \<and> rt_token r \<noteq> ss_token (hk_ss h)
                       then h\<lparr>hk_ss := (hk_ss h)\<lparr>ss_token := rt_token r\<rparr>, hk_next_send_ns := 0\<rparr> else h
                   | _ \<Rightarrow> h)
                else if mt = MsgAck \<and> authentic then
                  (case decode_ack dg of
                     accept ack \<Rightarrow> if ack_nonce ack = nonce then h\<lparr>hk_acked := True\<rparr> else h
                   | _ \<Rightarrow> h)
                else if mt = MsgResumeRanges \<and> authentic then h\<lparr>hk_answer := on_resume_ranges nonce dg (hk_answer h)\<rparr>
                else h)
           | _ \<Rightarrow> h))"

definition hs_started :: "handshake \<Rightarrow> bool" where
  "hs_started h \<longleftrightarrow> hk_acked h \<and> answer_complete (hk_answer h)"

section \<open>The digest that ends a resumed transfer\<close>

definition digest_top :: "Crypto \<Rightarrow> send_cfg \<Rightarrow> byte list \<Rightarrow> bool \<Rightarrow> u64 \<Rightarrow> u64 \<Rightarrow> u64 \<Rightarrow> sender \<Rightarrow> u64 \<times> sender" where
  "digest_top cr cfg dg cancelled start t next_send s =
     (if cancelled then (next_send, (give_up_send cr cfg Cancelled True s)\<lparr>sd_stop_all := True\<rparr>)
      else if sd_stop_all s then (next_send, give_up_send cr cfg PeerAborted True s)
      else if t - start > ucast (sg_timeout_ms cfg) * 1000000
      then (next_send, give_up_send cr cfg TransferStatus.Timeout True s)
      else if t \<ge> next_send then (t + 50000000, ctl_send [dg] (sd_dst s) s)
      else (next_send, s))"

text \<open>A datagram while waiting for the receiver's echo of the digest \<open>dm\<close>: whether it is the echo.\<close>

definition digest_receive :: "Crypto \<Rightarrow> send_cfg \<Rightarrow> DigestMessage \<Rightarrow> byte list \<Rightarrow> sender \<Rightarrow> bool \<times> sender" where
  "digest_receive cr cfg dm dg s =
     (case peek_msg_type dg of
        accept type \<Rightarrow>
          if \<not> ctl_authentic cr (sd_auth s) dg then (False, s)
          else if type = MsgFileDigest then
            (case decode_digest dg of
               accept echo \<Rightarrow> (dm_nonce echo = sd_nonce s \<and> dm_digest echo = dm_digest dm, s)
             | _ \<Rightarrow> (False, s))
          else if type = MsgStreamClose then (False, sender_on_close cr cfg dg s)
          else (False, s)
      | _ \<Rightarrow> (False, s))"

end
