(* ===== verification/Send_Blocks.thy ===== *)
theory Send_Blocks
  imports Send_Lane
begin

text \<open>
  What a sending lane puts on the wire. Whatever the receiver answers and whenever, the blocks the lane
  cuts tile the session's plan in order, each data datagram, first transmission or retransmission,
  opens under the lane's key to the block its sequence number stands for, only the final block is
  marked as the last one, and no unacknowledged block leaves the registry.
\<close>

section \<open>A block's datagram opens to the block\<close>

text \<open>The key the lane's blocks are sealed with, and a key schedule that belongs to it.\<close>

definition send_key :: "send_cfg \<Rightarrow> LaneKey option" where
  "send_key cfg =
     (if ky_enabled (sg_keys cfg) then Some \<lparr>lk_key = ky_key (sg_keys cfg), lk_ready = True\<rparr> else None)"

definition schedule_ok :: "Crypto \<Rightarrow> send_cfg \<Rightarrow> LaneKeySchedule \<Rightarrow> bool" where
  "schedule_ok cr cfg ks \<longleftrightarrow>
     (ky_enabled (sg_keys cfg) \<longrightarrow>
        ks_ok cr ks \<and> ks_ready ks \<and> ks_key ks = ky_key (sg_keys cfg) \<and> ks_lane ks = sg_lane cfg)"

text \<open>What is relied on of the cipher library: keys of the lane can be set and sealing succeeds.\<close>

definition seals_always :: "Crypto \<Rightarrow> bool" where
  "seals_always cr \<longleftrightarrow>
     (\<forall>key lane epoch. epoch_cipher cr key lane epoch \<noteq> None) \<and> (\<forall>key nonce aad pt. cr_encrypt cr key nonce aad pt \<noteq> None)"

lemma schedule_init:
  "key_schedule_init cr (Some (ky_key (sg_keys cfg))) (sg_lane cfg) new_key_schedule = (True, ks) \<Longrightarrow> schedule_ok cr cfg ks"
  using init_schedule_ok by (simp add: schedule_ok_def)

lemma seal_opens:
  assumes "aead_ok cr" "lane_seal cr e lane seq aad pt = Some out"
  shows "length out = length pt + 16" "lane_open cr e lane seq aad out = Some pt"
proof -
  obtain ct tag where "cr_encrypt cr (lc_key e) (build_nonce lane seq) aad pt = Some (ct, tag)" "out = ct @ tag"
    "lc_initialized e"
    using assms(2) by (cases "cr_encrypt cr (lc_key e) (build_nonce lane seq) aad pt")
      (auto simp: lane_seal_def split: if_splits)
  with assms(1) show "length out = length pt + 16" "lane_open cr e lane seq aad out = Some pt"
    unfolding aead_ok_def by (fastforce simp: lane_open_def)+
qed

lemma seal_block_opens:
  assumes "aead_ok cr" "schedule_ok cr cfg ks" "ky_enabled (sg_keys cfg)"
    "seal_block cr cfg seq off fl pt ks = (r, ks')"
  shows "schedule_ok cr cfg ks'"
    and "r = Some out \<Longrightarrow> length out = length pt + 16 \<and>
      (\<exists>c. epoch_cipher cr (ky_key (sg_keys cfg)) (sg_lane cfg) (drop_bit 22 seq) = Some c \<and>
           lane_open cr c (sg_lane cfg) seq (build_aad (sg_lane cfg) seq off fl) out = Some pt)"
    and "seals_always cr \<Longrightarrow> r \<noteq> None"
proof -
  obtain c where c: "cipher_for cr seq ks = (c, ks')"
    and r: "r = (case c of None \<Rightarrow> None
              | Some ci \<Rightarrow> lane_seal cr ci (sg_lane cfg) seq (build_aad (sg_lane cfg) seq off fl) pt)"
    using assms(4) by (auto simp: seal_block_def Let_def split: prod.splits)
  note ok = cipher_for_correct [OF _ _ c] and s = assms(2)[unfolded schedule_ok_def, rule_format, OF assms(3)]
  show "schedule_ok cr cfg ks'" using ok s by (simp add: schedule_ok_def)
  have ce: "c = epoch_cipher cr (ky_key (sg_keys cfg)) (sg_lane cfg) (drop_bit 22 seq)" using ok(1) s by simp
  show "length out = length pt + 16 \<and>
      (\<exists>c. epoch_cipher cr (ky_key (sg_keys cfg)) (sg_lane cfg) (drop_bit 22 seq) = Some c \<and>
           lane_open cr c (sg_lane cfg) seq (build_aad (sg_lane cfg) seq off fl) out = Some pt)" if ro: "r = Some out"
  proof -
    obtain ci where ci: "c = Some ci" "lane_seal cr ci (sg_lane cfg) seq (build_aad (sg_lane cfg) seq off fl) pt = Some out"
      using ro r by (cases c) auto
    then show ?thesis using ce seal_opens [OF assms(1) ci(2)] by auto
  qed
  show "r \<noteq> None" if a: "seals_always cr"
  proof -
    obtain ci where ci: "c = Some ci" "epoch_cipher cr (ky_key (sg_keys cfg)) (sg_lane cfg) (drop_bit 22 seq) = Some ci"
      using a ce unfolding seals_always_def by (metis option.exhaust)
    then have "lc_initialized ci" by (auto simp: epoch_cipher_def split: option.splits if_splits)
    moreover obtain ct tag where "cr_encrypt cr (lc_key ci) (build_nonce (sg_lane cfg) seq)
        (build_aad (sg_lane cfg) seq off fl) pt = Some (ct, tag)"
      using a unfolding seals_always_def by (metis option.exhaust surj_pair)
    ultimately show ?thesis using r ci(1) by (simp add: lane_seal_def)
  qed
qed

lemma tag_room_le [simp]: "tag_room cfg \<le> 16"
  by (simp add: tag_room_def)

lemma unat_block_ceiling: "unat (block_ceiling cfg) = 16384 - tag_room cfg"
  by (simp add: block_ceiling_def unat_of_nat)

lemma block_datagram_opens:
  assumes a: "aead_ok cr" and ks: "schedule_ok cr cfg ks"
    and len: "unat len \<le> unat (block_ceiling cfg)" "unat len \<le> length body"
    and d: "block_datagram cr cfg time seq off fl len body room ks = (r, ks')"
  shows "schedule_ok cr cfg ks'"
    and "r = Some dg \<Longrightarrow> \<exists>hdr. block_body cr (send_key cfg) (sg_lane cfg) dg = Some (hdr, take (unat len) body) \<and>
       bh_seq_no hdr = seq \<and> bh_offset hdr = off \<and> bh_flags hdr = fl \<and> bh_stream_id hdr = sg_lane cfg"
    and "r = Some dg \<Longrightarrow> length dg = 31 + unat len + tag_room cfg"
    and "seals_always cr \<Longrightarrow> 31 + unat len + tag_room cfg \<le> room \<Longrightarrow> r \<noteq> None"
proof -
  let ?hdr = "\<lparr>bh_stream_id = sg_lane cfg, bh_seq_no = seq, bh_flags = fl, bh_payload_len = len, bh_offset = off\<rparr>"
  have "schedule_ok cr cfg ks' \<and>
    (r = Some dg \<longrightarrow> (\<exists>hdr. block_body cr (send_key cfg) (sg_lane cfg) dg = Some (hdr, take (unat len) body) \<and>
       bh_seq_no hdr = seq \<and> bh_offset hdr = off \<and> bh_flags hdr = fl \<and> bh_stream_id hdr = sg_lane cfg) \<and>
       length dg = 31 + unat len + tag_room cfg) \<and>
    (seals_always cr \<and> 31 + unat len + tag_room cfg \<le> room \<longrightarrow> r \<noteq> None)"
  proof (cases "ky_enabled (sg_keys cfg)")
    case False
    then have r: "r = encode_data_datagram ?hdr time (Some body) (replicate room 0)" "ks' = ks"
      using d by (simp_all add: block_datagram_def)
    have n: "unat len \<le> kMaxPayloadSize" using len(1) by (simp add: unat_block_ceiling)
    have "block_body cr None (sg_lane cfg) (data_prefix ?hdr time @ take (unat len) body) = Some (?hdr, take (unat len) body)"
      using decode_data_prefix [of ?hdr "take (unat len) body" time] n len(2) by (simp add: block_body_def min_absorb2)
    with False r n len(2) ks show ?thesis
      by (auto simp: encode_data_datagram_def send_key_def Let_def tag_room_def min_absorb2)
  next
    case True
    then obtain s where s: "seal_block cr cfg seq off fl (take (unat len) body) ks = (s, ks')"
      and r: "r = (case s of None \<Rightarrow> None
                | Some out \<Rightarrow> encode_data_datagram (?hdr\<lparr>bh_payload_len := len + of_nat kAeadTagLen\<rparr>) time (Some out) (replicate room 0))"
      using d by (auto simp: block_datagram_def split: prod.splits option.splits)
    note so = seal_block_opens [OF a ks True s]
    let ?h = "?hdr\<lparr>bh_payload_len := len + 16\<rparr>"
    have n: "unat (len + 16) = unat len + 16" "unat len + 16 \<le> kMaxPayloadSize"
      using len(1) True by (simp_all add: unat_block_ceiling tag_room_def unat_word_ariths)
    then have nz: "len + 16 \<noteq> 0" by (metis add_is_0 numeral_neq_zero unat_0)
    have "(\<exists>hdr. block_body cr (send_key cfg) (sg_lane cfg) dg = Some (hdr, take (unat len) body) \<and>
       bh_seq_no hdr = seq \<and> bh_offset hdr = off \<and> bh_flags hdr = fl \<and> bh_stream_id hdr = sg_lane cfg) \<and>
       length dg = 31 + unat len + tag_room cfg" if "r = Some dg"
    proof -
      from that r obtain out where out: "s = Some out"
        "encode_data_datagram ?h time (Some out) (replicate room 0) = Some dg" by (cases s) auto
      from so(2) [OF out(1)] len(2) obtain c where l: "length out = unat len + 16"
        and c: "epoch_cipher cr (ky_key (sg_keys cfg)) (sg_lane cfg) (drop_bit 22 seq) = Some c"
        "lane_open cr c (sg_lane cfg) seq (build_aad (sg_lane cfg) seq off fl) out = Some (take (unat len) body)"
        by auto
      have dg: "dg = data_prefix ?h time @ out" using out(2) n l by (auto simp: encode_data_datagram_def Let_def split: if_splits)
      have "decode_data_datagram dg = accept (?h, time, Some out)"
        using decode_data_prefix [of ?h out time] n l nz by (simp add: dg)
      then show ?thesis using True c n l dg by (auto simp: block_body_def send_key_def tag_room_def)
    qed
    moreover have "r \<noteq> None" if "seals_always cr" "31 + unat len + tag_room cfg \<le> room"
      using so(3) [OF that(1)] that(2) r n True by (auto simp: encode_data_datagram_def Let_def tag_room_def)
    ultimately show ?thesis using so(1) by blast
  qed
  then show "schedule_ok cr cfg ks'"
    "r = Some dg \<Longrightarrow> \<exists>hdr. block_body cr (send_key cfg) (sg_lane cfg) dg = Some (hdr, take (unat len) body) \<and>
       bh_seq_no hdr = seq \<and> bh_offset hdr = off \<and> bh_flags hdr = fl \<and> bh_stream_id hdr = sg_lane cfg"
    "r = Some dg \<Longrightarrow> length dg = 31 + unat len + tag_room cfg"
    "seals_always cr \<Longrightarrow> 31 + unat len + tag_room cfg \<le> room \<Longrightarrow> r \<noteq> None" by blast+
qed

section \<open>The blocks tile the plan\<close>

definition plan_positions :: "ResumeRange list \<Rightarrow> nat list" where
  "plan_positions plan = concat (map (\<lambda>r. [unat (fst r)..<unat (fst r) + unat (snd r)]) plan)"

definition block_positions :: "(u64 \<times> byte list) list \<Rightarrow> nat list" where
  "block_positions blks = concat (map (\<lambda>(off, b). [unat off..<unat off + length b]) blks)"

text \<open>What is still to be cut: the end of the current range and the ranges after it.\<close>

definition rest_positions :: "sender \<Rightarrow> nat list" where
  "rest_positions s =
     (if sd_ri s < length (sd_plan s)
      then [unat (sd_next_offset s)..<unat (fst (sd_plan s ! sd_ri s)) + unat (snd (sd_plan s ! sd_ri s))] @
           plan_positions (drop (Suc (sd_ri s)) (sd_plan s))
      else [])"

definition plan_ok :: "send_cfg \<Rightarrow> sender \<Rightarrow> bool" where
  "plan_ok cfg s \<longleftrightarrow>
     ranges_ok 0 (length (sg_data cfg)) (sd_plan s) \<and> length (sg_data cfg) < 2 ^ 62 \<and>
     0 < sd_block s \<and> sd_block s \<le> block_ceiling cfg"

definition blocks_of_data :: "send_cfg \<Rightarrow> sender \<Rightarrow> bool" where
  "blocks_of_data cfg s \<longleftrightarrow>
     (\<forall>(off, b) \<in> set (sd_blocks s).
        unat off + length b \<le> length (sg_data cfg) \<and> b = take (length b) (drop (unat off) (sg_data cfg)) \<and>
        (sd_plan s \<noteq> [] \<longrightarrow> b \<noteq> []))"

definition cut_inv :: "send_cfg \<Rightarrow> sender \<Rightarrow> bool" where
  "cut_inv cfg s \<longleftrightarrow>
     plan_ok cfg s \<and> blocks_of_data cfg s \<and> length (sd_blocks s) = unat (sd_next_seq s) \<and>
     block_positions (sd_blocks s) @ rest_positions s = plan_positions (sd_plan s) \<and> sd_ri s \<le> length (sd_plan s) \<and>
     (sd_ri s < length (sd_plan s) \<longrightarrow> unat (sd_next_offset s) < unat (fst (sd_plan s ! sd_ri s)) + unat (snd (sd_plan s ! sd_ri s))) \<and>
     (sd_plan s = [] \<longrightarrow> sd_next_offset s = 0 \<and> length (sd_blocks s) \<le> 1) \<and>
     (sd_sent_last s \<longleftrightarrow> sd_ri s = length (sd_plan s) \<and> sd_blocks s \<noteq> [])"

lemma plan_positions_simps [simp]:
  "plan_positions [] = []" "plan_positions (r # rs) = [unat (fst r)..<unat (fst r) + unat (snd r)] @ plan_positions rs"
  by (simp_all add: plan_positions_def)

lemma block_positions_simps [simp]:
  "block_positions [] = []" "block_positions (a @ b) = block_positions a @ block_positions b"
  "block_positions [(off, d)] = [unat off..<unat off + length d]"
  by (simp_all add: block_positions_def)

lemma set_plan_positions: "set (plan_positions plan) = bytes_of plan"
  by (induction plan) (auto simp: bytes_of_def)

lemma length_plan_positions: "length (plan_positions plan) = range_sum plan"
  by (induction plan) auto

lemma ranges_ok_end:
  "ranges_ok lo hi rs \<Longrightarrow> r \<in> set rs \<Longrightarrow> unat (fst r) + unat (snd r) \<le> hi \<and> 0 < unat (snd r)"
proof (induction rs arbitrary: lo)
  case (Cons q rs)
  then show ?case using ranges_ok_le [of "unat (fst q) + unat (snd q)" hi rs] by auto
qed simp

text \<open>A block is cut at every turn of the packing loop's body.\<close>

definition cuttable :: "sender \<Rightarrow> bool" where
  "cuttable s \<longleftrightarrow> sd_ri s < length (sd_plan s) \<or> sd_plan s = [] \<and> sd_blocks s = []"

lemma cut_facts:
  assumes i: "cut_inv cfg s" and c: "cuttable s"
  shows "unat (sd_next_offset s) + unat (cut_len s) \<le> length (sg_data cfg)"
    "unat (cut_len s) \<le> unat (sd_block s)"
    "unat (sd_next_offset s + ucast (cut_len s)) = unat (sd_next_offset s) + unat (cut_len s)"
    "sd_ri s < length (sd_plan s) \<Longrightarrow>
       unat (range_end s) = unat (fst (sd_plan s ! sd_ri s)) + unat (snd (sd_plan s ! sd_ri s)) \<and>
       unat (cut_len s) = min (unat (sd_block s)) (unat (range_end s) - unat (sd_next_offset s)) \<and> 0 < unat (cut_len s)"
    "sd_plan s = [] \<Longrightarrow> cut_len s = 0 \<and> cut_is_last s"
proof -
  note i' = i[unfolded cut_inv_def plan_ok_def]
  show pl: "cut_len s = 0 \<and> cut_is_last s" if "sd_plan s = []"
    using that i' by (simp add: cut_len_def range_end_def cut_is_last_def)
  have main: "unat (range_end s) = unat (fst (sd_plan s ! sd_ri s)) + unat (snd (sd_plan s ! sd_ri s)) \<and>
     unat (cut_len s) = min (unat (sd_block s)) (unat (range_end s) - unat (sd_next_offset s)) \<and> 0 < unat (cut_len s) \<and>
     unat (range_end s) \<le> length (sg_data cfg)" if l: "sd_ri s < length (sd_plan s)"
  proof -
    let ?r = "sd_plan s ! sd_ri s"
    have e: "unat (fst ?r) + unat (snd ?r) \<le> length (sg_data cfg)"
      using ranges_ok_end [of 0 "length (sg_data cfg)" "sd_plan s" ?r] i' l by simp
    then have re: "unat (range_end s) = unat (fst ?r) + unat (snd ?r)"
      using l i' by (simp add: range_end_def unat_word_ariths)
    have lt: "unat (sd_next_offset s) < unat (range_end s)" using i' l re by simp
    then have d: "unat (range_end s - sd_next_offset s) = unat (range_end s) - unat (sd_next_offset s)"
      by (simp add: unat_sub_if_size)
    have u: "unat (ucast (sd_block s) :: u64) = unat (sd_block s)" by (simp add: unat_ucast_up)
    have m: "unat (min (ucast (sd_block s)) (range_end s - sd_next_offset s)) =
       min (unat (sd_block s)) (unat (range_end s) - unat (sd_next_offset s))"
      by (simp add: min_def word_le_nat_alt u d)
    have "unat (cut_len s) = min (unat (sd_block s)) (unat (range_end s) - unat (sd_next_offset s))"
      using unsigned_less [of "sd_block s", where 'a = nat]
      by (simp add: cut_len_def unsigned_ucast_eq m) (simp add: take_bit_eq_mod min_def)
    moreover have "0 < unat (sd_block s)" using i' by (simp add: word_less_nat_alt)
    ultimately show ?thesis using re lt e by simp
  qed
  show r: "sd_ri s < length (sd_plan s) \<Longrightarrow>
     unat (range_end s) = unat (fst (sd_plan s ! sd_ri s)) + unat (snd (sd_plan s ! sd_ri s)) \<and>
     unat (cut_len s) = min (unat (sd_block s)) (unat (range_end s) - unat (sd_next_offset s)) \<and> 0 < unat (cut_len s)"
    using main by blast
  show b: "unat (sd_next_offset s) + unat (cut_len s) \<le> length (sg_data cfg)" "unat (cut_len s) \<le> unat (sd_block s)"
    using c main pl i' by (auto simp: cuttable_def)
  show "unat (sd_next_offset s + ucast (cut_len s)) = unat (sd_next_offset s) + unat (cut_len s)"
    using b i' by (simp add: unat_word_ariths unat_ucast_up)
qed

lemma length_block_positions:
  "(\<forall>(off, b) \<in> set blks. b \<noteq> []) \<Longrightarrow> length blks \<le> length (block_positions blks)"
proof (induction blks)
  case (Cons x blks)
  then have "0 < length (snd x)" "length blks \<le> length (block_positions blks)" by auto
  then have "Suc (length blks) \<le> length (snd x) + length (block_positions blks)" by linarith
  then show ?case by (cases x) (simp add: block_positions_def)
qed simp

lemma few_blocks: "cut_inv cfg s \<Longrightarrow> length (sd_blocks s) < 2 ^ 62 + 1"
proof -
  assume i: "cut_inv cfg s"
  have "length (block_positions (sd_blocks s)) \<le> length (plan_positions (sd_plan s))"
    using i unfolding cut_inv_def by (metis le_add1 length_append)
  then have "length (block_positions (sd_blocks s)) < 2 ^ 62"
    using i ranges_ok_le [of 0 "length (sg_data cfg)" "sd_plan s"]
    by (simp add: cut_inv_def plan_ok_def length_plan_positions)
  then show ?thesis
    using i length_block_positions [of "sd_blocks s"]
    by (cases "sd_plan s = []") (fastforce simp: cut_inv_def blocks_of_data_def)+
qed

text \<open>The fields of the lane after a cut, by the three ways a range can go on.\<close>

definition range_done :: "sender \<Rightarrow> bool" where
  "range_done s \<longleftrightarrow> sd_ri s < length (sd_plan s) \<and> range_end s \<le> sd_next_offset s + ucast (cut_len s)"

definition sizes :: "sender \<Rightarrow> u16 \<times> u16 \<times> u16 \<times> u16" where
  "sizes s = (sd_block s, sd_growth_ceiling s, sd_mtu_ceiling s, sd_pre_growth_block s)"

lemma advance_fields [simp]:
  "sd_next_seq (advance cfg dg s) = sd_next_seq s + 1"
  "sd_plan (advance cfg dg s) = sd_plan s"
  "sd_ri (advance cfg dg s) = (if range_done s then Suc (sd_ri s) else sd_ri s)"
  "sd_next_offset (advance cfg dg s) =
     (if range_done s \<and> Suc (sd_ri s) < length (sd_plan s) then fst (sd_plan s ! Suc (sd_ri s)) else sd_next_offset s + ucast (cut_len s))"
  "sd_sent_last (advance cfg dg s) \<longleftrightarrow> sd_sent_last s \<or> cut_is_last s"
  "sd_blocks (advance cfg dg s) =
     sd_blocks s @ [(sd_next_offset s, take (unat (cut_len s)) (drop (unat (sd_next_offset s)) (sg_data cfg)))]"
  "sd_data (advance cfg dg s) = sd_data s @ [dg]" "sd_block (advance cfg dg s) = sd_block s"
  "sd_reg (advance cfg dg s) = sd_reg s" "sd_cipher (advance cfg dg s) = sd_cipher s"
  "sizes (advance cfg dg s) = sizes s"
  "sd_base (advance cfg dg s) = sd_base s" "sd_ctl (advance cfg dg s) = sd_ctl s" "sd_res (advance cfg dg s) = sd_res s"
  by (simp_all add: advance_def Let_def range_done_def[symmetric] sizes_def cong: if_cong) (auto simp: range_done_def)

lemma advance_rest:
  assumes i: "cut_inv cfg s" and c: "cuttable s"
  shows "[unat (sd_next_offset s)..<unat (sd_next_offset s) + unat (cut_len s)] @ rest_positions (advance cfg dg s) = rest_positions s"
proof (cases "sd_ri s < length (sd_plan s)")
  case False
  then have p: "sd_plan s = []" using c by (simp add: cuttable_def)
  then show ?thesis using cut_facts(5) [OF i c p] by (simp add: rest_positions_def)
next
  case True
  note f = cut_facts [OF i c] and fr = cut_facts(4) [OF i c True]
  let ?E = "unat (range_end s)" and ?n = "unat (sd_next_offset s)" and ?k = "unat (cut_len s)"
  have lt: "?n < ?E" using i True fr by (simp add: cut_inv_def)
  have dn: "range_done s \<longleftrightarrow> ?n + ?k = ?E" using True f(3) fr lt by (auto simp: range_done_def word_le_nat_alt)
  have rest: "rest_positions s = [?n..<?E] @ plan_positions (drop (Suc (sd_ri s)) (sd_plan s))"
    using True fr by (simp add: rest_positions_def)
  show ?thesis
  proof (cases "range_done s")
    case True
    have "rest_positions (advance cfg dg s) = plan_positions (drop (Suc (sd_ri s)) (sd_plan s))"
      using True plan_positions_simps(2) [of "sd_plan s ! Suc (sd_ri s)" "drop (Suc (Suc (sd_ri s))) (sd_plan s)"]
      by (auto simp: rest_positions_def Cons_nth_drop_Suc simp del: plan_positions_simps(2))
    then show ?thesis using True dn rest by simp
  next
    case False
    then have "rest_positions (advance cfg dg s) = [?n + ?k..<?E] @ plan_positions (drop (Suc (sd_ri s)) (sd_plan s))"
      using True f(3) fr by (simp add: rest_positions_def)
    moreover have "[?n..<?n + ?k] @ [?n + ?k..<?E] = [?n..<?E]"
      using fr lt upt_add_eq_append [of ?n "?n + ?k" "?E - (?n + ?k)"] by simp
    ultimately show ?thesis using rest by (simp only: append_assoc [symmetric])
  qed
qed

lemma last_cut:
  assumes i: "cut_inv cfg s" and c: "cuttable s"
  shows "cut_is_last s \<longleftrightarrow> (if range_done s then Suc (sd_ri s) else sd_ri s) = length (sd_plan s)"
  using cut_facts(5) [OF i c] c i by (cases "sd_plan s = []") (auto simp: cut_is_last_def range_done_def cuttable_def cut_inv_def)

lemma advance_cut:
  assumes i: "cut_inv cfg s" and c: "cuttable s"
  shows "cut_inv cfg (advance cfg dg s)"
proof -
  note f = cut_facts [OF i c] and i' = i[unfolded cut_inv_def plan_ok_def]
  let ?b = "take (unat (cut_len s)) (drop (unat (sd_next_offset s)) (sg_data cfg))"
  have lb: "length ?b = unat (cut_len s)" using f(1) by simp
  have "blocks_of_data cfg (advance cfg dg s)"
    using i' c f(1,4) lb by (fastforce simp: blocks_of_data_def cuttable_def)
  moreover have "length (sd_blocks (advance cfg dg s)) = unat (sd_next_seq (advance cfg dg s))"
    using i' few_blocks [OF i] by (simp add: unat_word_ariths)
  moreover have "block_positions (sd_blocks (advance cfg dg s)) @ rest_positions (advance cfg dg s) = plan_positions (sd_plan s)"
    using advance_rest [OF i c, of dg] i' lb by simp
  moreover have "unat (fst (sd_plan s ! Suc (sd_ri s))) < unat (fst (sd_plan s ! Suc (sd_ri s))) + unat (snd (sd_plan s ! Suc (sd_ri s)))"
    if "Suc (sd_ri s) < length (sd_plan s)"
    using ranges_ok_end [of 0 "length (sg_data cfg)" "sd_plan s" "sd_plan s ! Suc (sd_ri s)"] i' that by simp
  moreover have "unat (sd_next_offset s + ucast (cut_len s)) < unat (range_end s)" if "\<not> range_done s" "sd_ri s < length (sd_plan s)"
    using that by (simp add: range_done_def word_le_nat_alt)
  ultimately show ?thesis
    using i' f(4,5) last_cut [OF i c] c by (auto simp: cut_inv_def plan_ok_def cuttable_def range_done_def)
qed

section \<open>The registry and the wire\<close>

definition view_ok :: "send_cfg \<Rightarrow> sender \<Rightarrow> u64 \<Rightarrow> block_view \<Rightarrow> bool" where
  "view_ok cfg s k v \<longleftrightarrow>
     (case v of (bytes, len, _, off, fl) \<Rightarrow>
        unat k < length (sd_blocks s) \<and> sd_blocks s ! unat k = (off, bytes) \<and> unat len \<le> unat (block_ceiling cfg) \<and>
        (fl AND kFlagLastBlock \<noteq> 0 \<longrightarrow> sd_sent_last s \<and> Suc (unat k) = length (sd_blocks s)))"

definition reg_ok :: "send_cfg \<Rightarrow> sender \<Rightarrow> bool" where
  "reg_ok cfg s \<longleftrightarrow>
     reg_inv (sd_reg s) \<and> rg_window_size (sd_reg s) = 1024 \<and>
     (\<forall>k v. look_view (sd_reg s) k = Some v \<longrightarrow> view_ok cfg s k v)"

definition sent_ok :: "Crypto \<Rightarrow> send_cfg \<Rightarrow> sender \<Rightarrow> byte list \<Rightarrow> bool" where
  "sent_ok cr cfg s dg \<longleftrightarrow>
     (\<exists>hdr b. block_body cr (send_key cfg) (sg_lane cfg) dg = Some (hdr, b) \<and> bh_stream_id hdr = sg_lane cfg \<and>
        unat (bh_seq_no hdr) < length (sd_blocks s) \<and> sd_blocks s ! unat (bh_seq_no hdr) = (bh_offset hdr, b) \<and>
        (bh_flags hdr AND kFlagLastBlock \<noteq> 0 \<longrightarrow> sd_sent_last s \<and> Suc (unat (bh_seq_no hdr)) = length (sd_blocks s)))"

definition send_inv :: "Crypto \<Rightarrow> send_cfg \<Rightarrow> sender \<Rightarrow> bool" where
  "send_inv cr cfg s \<longleftrightarrow>
     cut_inv cfg s \<and> reg_ok cfg s \<and> schedule_ok cr cfg (sd_cipher s) \<and> (\<forall>dg \<in> set (sd_data s). sent_ok cr cfg s dg) \<and>
     unat (sd_base s) \<le> unat (sd_next_seq s) \<and> unat (sd_next_seq s) \<le> unat (sd_base s) + 1024"

text \<open>
  How the lane may change: blocks are only added, never after the last one, the registry forgets
  none of the blocks in flight, the block size stays and the lane does not become successful.
\<close>

definition not_newly_ok :: "sender \<Rightarrow> sender \<Rightarrow> bool" where
  "not_newly_ok s s' \<longleftrightarrow> (lr_status (sd_res s') = Ok \<longrightarrow> lr_status (sd_res s) = Ok)"

definition grows :: "sender \<Rightarrow> sender \<Rightarrow> bool" where
  "grows s s' \<longleftrightarrow>
     sizes s' = sizes s \<and> not_newly_ok s s' \<and>
     sd_plan s' = sd_plan s \<and> sd_base s' = sd_base s \<and> sd_next_seq s \<le> sd_next_seq s' \<and>
     (\<exists>bs. sd_blocks s' = sd_blocks s @ bs \<and> (sd_sent_last s \<longrightarrow> bs = [] \<and> sd_sent_last s')) \<and>
     (\<forall>k. sd_base s \<le> k \<and> k < sd_next_seq s' \<and> look_view (sd_reg s') k = None \<longrightarrow>
        k < sd_next_seq s \<and> look_view (sd_reg s) k = None)"

lemma grows_refl [simp]: "grows s s"
  by (simp add: grows_def not_newly_ok_def)

lemma grows_trans: "grows s s' \<Longrightarrow> grows s' s'' \<Longrightarrow> grows s s''"
  unfolding grows_def not_newly_ok_def by (auto intro: order_trans)

lemma grows_blocks:
  "grows s s' \<Longrightarrow> length (sd_blocks s) \<le> length (sd_blocks s') \<and> (k < length (sd_blocks s) \<longrightarrow> sd_blocks s' ! k = sd_blocks s ! k) \<and>
     (sd_sent_last s \<longrightarrow> sd_sent_last s' \<and> sd_blocks s' = sd_blocks s)"
  by (auto simp: grows_def nth_append)

lemma sent_ok_mono: "sent_ok cr cfg s dg \<Longrightarrow> grows s s' \<Longrightarrow> sent_ok cr cfg s' dg"
  using grows_blocks [of s s'] unfolding sent_ok_def by fastforce

lemma view_ok_mono: "view_ok cfg s k v \<Longrightarrow> grows s s' \<Longrightarrow> view_ok cfg s' k v"
  using grows_blocks [of s s'] unfolding view_ok_def by (auto split: prod.splits)

lemma cut_frame [simp]:
  "cut_len (s\<lparr>sd_reg := r, sd_cipher := ks\<rparr>) = cut_len s" "cut_is_last (s\<lparr>sd_reg := r, sd_cipher := ks\<rparr>) = cut_is_last s"
  "range_done (s\<lparr>sd_reg := r, sd_cipher := ks\<rparr>) = range_done s"
  "cut_inv cfg (s\<lparr>sd_reg := r, sd_cipher := ks\<rparr>) = cut_inv cfg s" "cuttable (s\<lparr>sd_reg := r, sd_cipher := ks\<rparr>) = cuttable s"
  by (simp_all add: cut_len_def cut_is_last_def range_done_def range_end_def cut_inv_def plan_ok_def blocks_of_data_def
      rest_positions_def cuttable_def)

lemma store_take:
  "fst (store reg k (Some body) len t off fl) = store_view reg k (take (unat len) body, len, t, off, fl)"
  by (simp add: store_view_def store_def Let_def)

lemma window_index:
  assumes "rg_window_size reg = 1024" "unat b \<le> unat k" "unat k < unat n" "unat n < unat b + 1024"
  shows "index_of reg k \<noteq> index_of reg n"
proof
  assume "index_of reg k = index_of reg n"
  then have "(unat b + (unat k - unat b)) mod 1024 = (unat b + (unat n - unat b)) mod 1024"
    using assms by (simp add: index_of_def)
  then have "unat k - unat b = unat n - unat b" by (rule mod_window_inj) (use assms in auto)
  with assms show False by simp
qed

text \<open>One turn of the packing loop that gets its datagram.\<close>

definition cut_one :: "send_cfg \<Rightarrow> u64 \<Rightarrow> byte list \<Rightarrow> LaneKeySchedule \<Rightarrow> sender \<Rightarrow> sender" where
  "cut_one cfg now d ks s =
     advance cfg d (s\<lparr>sd_reg := fst (store (sd_reg s) (sd_next_seq s) (Some (drop (unat (sd_next_offset s)) (sg_data cfg)))
        (cut_len s) now (sd_next_offset s) (cut_flags s)), sd_cipher := ks\<rparr>)"

lemma cuttable_not_last: "cut_inv cfg s \<Longrightarrow> cuttable s \<Longrightarrow> \<not> sd_sent_last s"
  by (auto simp: cut_inv_def cuttable_def)

definition cut_view :: "send_cfg \<Rightarrow> u64 \<Rightarrow> sender \<Rightarrow> block_view" where
  "cut_view cfg now s =
     (take (unat (cut_len s)) (drop (unat (sd_next_offset s)) (sg_data cfg)), cut_len s, now, sd_next_offset s, cut_flags s)"

lemma cut_one_reg:
  assumes i: "send_inv cr cfg s" and c: "cuttable s"
  shows "sd_reg (cut_one cfg now d ks s) = store_view (sd_reg s) (sd_next_seq s) (cut_view cfg now s)" "ok_view (cut_view cfg now s)"
    "unat (cut_len s) \<le> unat (block_ceiling cfg)"
    "unat (cut_len s) \<le> length (drop (unat (sd_next_offset s)) (sg_data cfg))"
proof -
  have ci: "cut_inv cfg s" using i by (simp add: send_inv_def)
  note f = cut_facts [OF ci c]
  show "sd_reg (cut_one cfg now d ks s) = store_view (sd_reg s) (sd_next_seq s) (cut_view cfg now s)"
    by (simp add: cut_one_def store_take cut_view_def)
  show l: "unat (cut_len s) \<le> unat (block_ceiling cfg)"
    using f(2) ci by (simp add: cut_inv_def plan_ok_def word_le_nat_alt)
  show "unat (cut_len s) \<le> length (drop (unat (sd_next_offset s)) (sg_data cfg))" using f(1) by simp
  then show "ok_view (cut_view cfg now s)" using l by (simp add: ok_view_def cut_view_def unat_block_ceiling)
qed

lemma cut_one_inv:
  assumes i: "send_inv cr cfg s" and c: "cuttable s" and a: "aead_ok cr" and w: "unat (sd_next_seq s) < unat (sd_base s) + 1024"
    and d: "block_datagram cr cfg wire (sd_next_seq s) (sd_next_offset s) (cut_flags s) (cut_len s)
      (drop (unat (sd_next_offset s)) (sg_data cfg)) room (sd_cipher s) = (Some d, ks)"
  shows "send_inv cr cfg (cut_one cfg now d ks s)" "grows s (cut_one cfg now d ks s)"
proof -
  let ?s' = "cut_one cfg now d ks s" and ?v = "cut_view cfg now s" and ?n = "sd_next_seq s"
  have ci: "cut_inv cfg s" and r: "reg_ok cfg s" and ks: "schedule_ok cr cfg (sd_cipher s)"
    and wi: "\<forall>dg \<in> set (sd_data s). sent_ok cr cfg s dg" and b: "unat (sd_base s) \<le> unat ?n"
    using i by (simp_all add: send_inv_def)
  note reg = cut_one_reg [OF i c] and op = block_datagram_opens [OF a ks _ _ d]
  have n: "length (sd_blocks s) = unat ?n" "unat (?n + 1) = Suc (unat ?n)"
    using ci few_blocks [OF ci] by (auto simp: cut_inv_def unat_word_ariths)
  have ri: "reg_inv (sd_reg s)" "rg_window_size (sd_reg s) = 1024" using r by (simp_all add: reg_ok_def)
  have look: "look_view (sd_reg ?s') j = (if j = ?n then Some ?v else if index_of (sd_reg s) j = index_of (sd_reg s) ?n
      then None else look_view (sd_reg s) j)" for j
    unfolding reg(1) by (rule look_view_store [OF ri(1) reg(2)])
  have bl: "sd_blocks ?s' = sd_blocks s @ [(sd_next_offset s, fst ?v)]" "sd_next_seq ?s' = ?n + 1" "sd_base ?s' = sd_base s"
    "sd_plan ?s' = sd_plan s" "sd_sent_last ?s' \<longleftrightarrow> sd_sent_last s \<or> cut_is_last s" "sd_data ?s' = sd_data s @ [d]" "sd_cipher ?s' = ks"
    "sizes ?s' = sizes s" "not_newly_ok s ?s'"
    by (simp_all add: cut_one_def cut_view_def not_newly_ok_def) (simp add: sizes_def)
  have kept: "k < ?n \<and> look_view (sd_reg s) k = None" if "sd_base s \<le> k" "k < ?n + 1" "look_view (sd_reg ?s') k = None" for k
  proof -
    have "unat k < unat ?n" using that(2,3) look [of k] n(2) by (cases "k = ?n") (auto simp: word_less_nat_alt less_Suc_eq dest: unsigned_word_eqI)
    then show ?thesis using window_index [OF ri(2) _ _ w, of k] that look [of k] by (auto simp: word_le_nat_alt word_less_nat_alt split: if_splits)
  qed
  show g: "grows s ?s'"
    using kept cuttable_not_last [OF ci c] n bl by (simp add: grows_def word_le_nat_alt)
  have fl: "cut_flags s AND kFlagLastBlock \<noteq> 0 \<Longrightarrow> cut_is_last s" by (auto simp: cut_flags_def split: if_splits)
  have v: "view_ok cfg ?s' ?n ?v" using n bl fl reg(3) by (simp add: view_ok_def cut_view_def nth_append)
  have "reg_ok cfg ?s'"
    unfolding reg_ok_def
  proof (intro conjI allI impI)
    show "reg_inv (sd_reg ?s')" unfolding reg(1) by (rule reg_store.inv_put [OF ri(1) reg(2)])
    show "rg_window_size (sd_reg ?s') = 1024" using ri(2) unfolding reg(1) by (cases ?v) (simp add: store_view_def store_def Let_def)
    show "view_ok cfg ?s' k u" if "look_view (sd_reg ?s') k = Some u" for k u
    proof (cases "k = ?n")
      case False
      then have "look_view (sd_reg s) k = Some u" using that look [of k] by (simp split: if_splits)
      then show ?thesis using r view_ok_mono [OF _ g] unfolding reg_ok_def by blast
    qed (use that look [of k] v in simp)
  qed
  moreover have "sent_ok cr cfg ?s' d"
    using op(2) [OF reg(3,4) refl] n bl fl unfolding sent_ok_def by (fastforce simp: cut_view_def nth_append)
  moreover have "cut_inv cfg ?s'" using ci c by (simp add: cut_one_def advance_cut)
  ultimately show "send_inv cr cfg ?s'"
    using wi b w n(2) op(1) [OF reg(3,4)] bl sent_ok_mono [OF _ g] by (auto simp: send_inv_def)
qed

text \<open>
  The packing loop: the batch's datagrams are the ones added to the wire, all of the segment size but
  the last, which is not larger.
\<close>

definition batch_shape :: "nat \<Rightarrow> byte list list \<Rightarrow> bool" where
  "batch_shape seg ds \<longleftrightarrow> (\<forall>d \<in> set (butlast ds). length d = seg) \<and> (ds \<noteq> [] \<longrightarrow> 0 < length (last ds) \<and> length (last ds) \<le> seg)"

lemma batch_shape_Cons: "batch_shape seg ds \<Longrightarrow> length d = seg \<Longrightarrow> 0 < seg \<Longrightarrow> batch_shape seg (d # ds)"
  by (cases ds) (auto simp: batch_shape_def)

lemma pack_loop_unfold:
  "pack_loop cr cfg ((now, wire) # ts) seg ne packed used s =
     (if \<not> (sd_ri s < length (sd_plan s) \<or> ne) \<or> (range_end s - sd_next_offset s < ucast (sd_block s) \<and> packed > 0) then ([], s)
      else case block_datagram cr cfg wire (sd_next_seq s) (sd_next_offset s) (cut_flags s) (cut_len s)
                  (drop (unat (sd_next_offset s)) (sg_data cfg)) (kGsoBudget + kMaxDatagramSize - used) (sd_cipher s) of
             (None, ks) \<Rightarrow> ([], s\<lparr>sd_reg := fst (store (sd_reg s) (sd_next_seq s) (Some (drop (unat (sd_next_offset s)) (sg_data cfg)))
                            (cut_len s) now (sd_next_offset s) (cut_flags s)), sd_cipher := ks\<rparr>)
           | (Some d, ks) \<Rightarrow>
               if cut_is_last s \<or> length d \<noteq> seg then ([d], cut_one cfg now d ks s)
               else case pack_loop cr cfg ts seg ne (Suc packed) (used + length d) (cut_one cfg now d ks s) of
                      (ds, s') \<Rightarrow> (d # ds, s'))"
  by (simp add: cut_one_def Let_def split: prod.split option.split)

declare pack_loop.simps(1) [simp del]

lemma pack_loop_inv:
  assumes "send_inv cr cfg s" "aead_ok cr" "seals_always cr" "ne \<longrightarrow> sd_plan s = [] \<and> sd_blocks s = []"
    and "seg = 31 + unat (sd_block s) + tag_room cfg" "used + length ts * seg \<le> kGsoBudget"
    and "unat (sd_next_seq s) + length ts \<le> unat (sd_base s) + 1024"
    and "pack_loop cr cfg ts seg ne packed used s = (ds, s')"
  shows "send_inv cr cfg s' \<and> grows s s' \<and> sd_data s' = sd_data s @ ds \<and> batch_shape seg ds"
  using assms
proof (induction ts arbitrary: s packed used ds)
  case Nil
  then show ?case by (simp add: batch_shape_def)
next
  case (Cons t ts)
  obtain now wire where t: "t = (now, wire)" by (cases t)
  let ?stop = "\<not> (sd_ri s < length (sd_plan s) \<or> ne) \<or> (range_end s - sd_next_offset s < ucast (sd_block s) \<and> packed > 0)"
  show ?case
  proof (cases ?stop)
    case True
    then show ?thesis using Cons.prems by (auto simp: t pack_loop_unfold batch_shape_def)
  next
    case False
    then have c: "cuttable s" using Cons.prems(4) by (auto simp: cuttable_def)
    note reg = cut_one_reg [OF Cons.prems(1) c]
    obtain r ks where bd: "block_datagram cr cfg wire (sd_next_seq s) (sd_next_offset s) (cut_flags s) (cut_len s)
        (drop (unat (sd_next_offset s)) (sg_data cfg)) (kGsoBudget + kMaxDatagramSize - used) (sd_cipher s) = (r, ks)"
      by (meson surj_pair)
    have ks: "schedule_ok cr cfg (sd_cipher s)" and ci: "cut_inv cfg s" using Cons.prems(1) by (simp_all add: send_inv_def)
    note op = block_datagram_opens [OF Cons.prems(2) ks reg(3,4) bd] and bl = cut_facts(2) [OF ci c]
    have "unat (cut_len s) + tag_room cfg \<le> 16384" using reg(3) tag_room_le [of cfg] unfolding unat_block_ceiling by linarith
    then obtain d where r: "r = Some d" using op(4) [OF Cons.prems(3)] Cons.prems(6) by fastforce
    have ld: "length d = 31 + unat (cut_len s) + tag_room cfg" by (rule op(3) [OF r])
    have w: "unat (sd_next_seq s) < unat (sd_base s) + 1024" using Cons.prems(7) by simp
    let ?s1 = "cut_one cfg now d ks s"
    note one = cut_one_inv [OF Cons.prems(1) c Cons.prems(2) w bd[unfolded r], of now]
    have s1: "sd_block ?s1 = sd_block s" "sd_base ?s1 = sd_base s" "sd_data ?s1 = sd_data s @ [d]" "sd_plan ?s1 = sd_plan s"
      "sd_next_seq ?s1 = sd_next_seq s + 1" by (simp_all add: cut_one_def)
    show ?thesis
    proof (cases "cut_is_last s \<or> length d \<noteq> seg")
      case True
      then show ?thesis using Cons.prems(5,8) False bd r one s1 ld bl by (auto simp: t pack_loop_unfold batch_shape_def)
    next
      case F2: False
      obtain ds' where p: "pack_loop cr cfg ts seg ne (Suc packed) (used + length d) ?s1 = (ds', s')" "ds = d # ds'"
        using Cons.prems(8) False F2 bd r by (auto simp: t pack_loop_unfold split: prod.splits)
      have "\<not> ne" using F2 cut_facts(5) [OF ci c] Cons.prems(4) by auto
      moreover have "unat (sd_next_seq s + 1) = Suc (unat (sd_next_seq s))"
        using few_blocks [OF ci] ci by (simp add: cut_inv_def unat_word_ariths)
      ultimately have "send_inv cr cfg s' \<and> grows ?s1 s' \<and> sd_data s' = sd_data ?s1 @ ds' \<and> batch_shape seg ds'"
        using Cons.IH [OF one(1) Cons.prems(2,3) _ _ _ _ p(1)] Cons.prems(5,6,7) F2 s1 by simp
      then show ?thesis using grows_trans [OF one(2)] s1 p(2) F2 batch_shape_Cons [of seg ds' d] Cons.prems(5) by auto
    qed
  qed
qed

lemma segment_size_eq: "send_inv cr cfg s \<Longrightarrow> segment_size cfg s = 31 + unat (sd_block s) + tag_room cfg"
proof -
  assume "send_inv cr cfg s"
  then have "unat (sd_block s) \<le> 16384 - tag_room cfg"
    by (simp add: send_inv_def cut_inv_def plan_ok_def word_le_nat_alt unat_block_ceiling)
  then have "31 + unat (sd_block s) + tag_room cfg < 65536" using tag_room_le [of cfg] by linarith
  then have "unat (of_nat (31 + unat (sd_block s) + tag_room cfg) :: u16) = 31 + unat (sd_block s) + tag_room cfg"
    unfolding unsigned_of_nat of_nat_id by (intro take_bit_nat_eq_self) simp
  then show ?thesis by (simp add: segment_size_def)
qed

text \<open>The part of the state the invariant is about.\<close>

definition core where
  "core s = ((sd_plan s, sd_block s, sd_next_seq s, sd_blocks s, sd_ri s, sd_next_offset s, sd_sent_last s), sd_reg s, sd_base s)"

lemma send_inv_wire:
  assumes c: "core s' = core s" and i: "send_inv cr cfg s" "schedule_ok cr cfg (sd_cipher s')"
    and d: "\<forall>dg \<in> set (sd_data s'). dg \<in> set (sd_data s) \<or> sent_ok cr cfg s dg"
  shows "send_inv cr cfg s'"
proof -
  have "cut_inv cfg s' = cut_inv cfg s"
    using c by (simp add: core_def cut_inv_def plan_ok_def blocks_of_data_def rest_positions_def)
  moreover have "reg_ok cfg s' = reg_ok cfg s" using c by (simp add: core_def reg_ok_def view_ok_def)
  moreover have "sent_ok cr cfg s' = sent_ok cr cfg s" using c by (simp add: core_def sent_ok_def fun_eq_iff)
  ultimately show ?thesis using i d c by (auto simp: send_inv_def core_def)
qed

lemma send_inv_core: "core s' = core s \<Longrightarrow> sd_cipher s' = sd_cipher s \<Longrightarrow> sd_data s' = sd_data s \<Longrightarrow> send_inv cr cfg s \<Longrightarrow> send_inv cr cfg s'"
  by (rule send_inv_wire) (auto simp: send_inv_def)

lemma grows_core: "core s' = core s \<Longrightarrow> sizes s' = sizes s \<Longrightarrow> not_newly_ok s s' \<Longrightarrow> grows s s'"
  by (simp add: core_def grows_def)

lemma send_batch_inv:
  assumes i: "send_inv cr cfg s" "aead_ok cr" "seals_always cr" and b: "send_batch cr cfg now ts after pace s = (w, s')"
  shows "send_inv cr cfg s'" "grows s s'"
    "\<exists>ds. sd_data s' = sd_data s @ ds \<and> batch_shape (segment_size cfg s) ds \<and> (w \<longleftrightarrow> ds \<noteq> [])"
proof -
  have "send_inv cr cfg s' \<and> grows s s' \<and>
    (\<exists>ds. sd_data s' = sd_data s @ ds \<and> batch_shape (segment_size cfg s) ds \<and> (w \<longleftrightarrow> ds \<noteq> []))"
  proof (cases "(sd_ri s < length (sd_plan s) \<or> need_empty_last s) \<and> sd_next_seq s < sd_base s + send_window \<and>
         sd_sent_bytes s - sd_acked_bytes s < window_bytes cfg s \<and> now \<ge> sd_next_batch_ns s")
    case False
    then show ?thesis using b i by (auto simp: send_batch_def batch_shape_def)
  next
    case True
    let ?ts = "take (max_segs cfg s) ts" and ?seg = "segment_size cfg s"
    obtain ds s1 where p: "pack_loop cr cfg ?ts ?seg (need_empty_last s) 0 0 s = (ds, s1)" by (meson surj_pair)
    have b': "unat (sd_base s) \<le> unat (sd_next_seq s)" "unat (sd_next_seq s) \<le> unat (sd_base s) + 1024"
      using i(1) by (simp_all add: send_inv_def)
    then have d: "unat (sd_next_seq s - sd_base s) = unat (sd_next_seq s) - unat (sd_base s)" by (simp add: unat_sub_if_size)
    then have "unat (send_window - (sd_next_seq s - sd_base s)) = 1024 - (unat (sd_next_seq s) - unat (sd_base s))"
      using b' by (simp add: unat_sub_if_size)
    then have n: "length ?ts \<le> kGsoBudget div ?seg" "length ?ts \<le> 1024 - (unat (sd_next_seq s) - unat (sd_base s))"
      unfolding max_segs_def Let_def length_take by linarith+
    have "length ?ts * ?seg \<le> kGsoBudget"
      using n(1) by (metis div_times_less_eq_dividend le_trans mult_le_mono1)
    moreover have "need_empty_last s \<longrightarrow> sd_plan s = [] \<and> sd_blocks s = []"
      using i(1) by (auto simp: need_empty_last_def send_inv_def cut_inv_def)
    ultimately have r: "send_inv cr cfg s1 \<and> grows s s1 \<and> sd_data s1 = sd_data s @ ds \<and> batch_shape ?seg ds"
      using pack_loop_inv [OF i _ segment_size_eq [OF i(1)] _ _ p] n(2) b' by simp
    let ?u = "s1\<lparr>sd_next_batch_ns := after + pace\<rparr>"
    have "core ?u = core s1" "sizes ?u = sizes s1" "not_newly_ok s1 ?u" by (simp_all add: core_def sizes_def not_newly_ok_def)
    then have "send_inv cr cfg ?u \<and> grows s ?u \<and> sd_data ?u = sd_data s @ ds"
      using r send_inv_core [of ?u s1 cr cfg] grows_core [of ?u s1] grows_trans [of s s1 ?u] by simp
    moreover have "w = (ds \<noteq> [])" "s' = (if ds \<noteq> [] then ?u else s1)" using b True p by (auto simp: send_batch_def)
    ultimately show ?thesis using r by auto
  qed
  then show "send_inv cr cfg s'" "grows s s'"
    "\<exists>ds. sd_data s' = sd_data s @ ds \<and> batch_shape (segment_size cfg s) ds \<and> (w \<longleftrightarrow> ds \<noteq> [])" by blast+
qed

text \<open>The fallback of a refused segmented send cuts the staging buffer into the same datagrams.\<close>

lemma slice_batch_shape:
  "batch_shape seg ds \<Longrightarrow> 0 < seg \<Longrightarrow> slice_batch seg (length ds) (concat ds) = ds"
proof (induction ds)
  case (Cons d ds)
  show ?case
  proof (cases ds)
    case Nil
    then show ?thesis using Cons.prems by (simp add: batch_shape_def)
  next
    case (Cons d' ds')
    then have "length d = seg" "batch_shape seg ds" using Cons.prems(1) by (auto simp: batch_shape_def)
    then show ?thesis using Cons.IH Cons.prems(2) by auto
  qed
qed simp

section \<open>Retransmissions\<close>

lemma slot_room: "reg_inv reg \<Longrightarrow> lookup reg k = Some sl \<Longrightarrow> unat (sl_payload_len sl) \<le> length (sl_payload sl)"
  using index_in_range [of reg k] by (auto simp: reg_inv_def lookup_def Let_def list_all_length split: if_splits)

lemma resend_inv:
  assumes i: "send_inv cr cfg s" "aead_ok cr" and r: "resend cr cfg wire acc k s = (ok, s')"
  shows "send_inv cr cfg s'" "grows s s'" "sd_next_seq s' = sd_next_seq s"
proof -
  have "send_inv cr cfg s' \<and> grows s s' \<and> sd_next_seq s' = sd_next_seq s"
  proof (cases "lookup (sd_reg s) k")
    case None
    then show ?thesis using r i by (simp add: resend_def)
  next
    case (Some sl)
    let ?fl = "sl_flags sl OR kFlagRetransmission"
    obtain dg ks where bd: "block_datagram cr cfg wire k (sl_offset sl) ?fl (sl_payload_len sl) (sl_payload sl)
        (kMaxDatagramSize + 64) (sd_cipher s) = (dg, ks)" by (meson surj_pair)
    have v: "view_ok cfg s k (slot_view sl)" and ri: "reg_inv (sd_reg s)"
      using i(1) Some unfolding send_inv_def reg_ok_def look_view_def by (metis option.map(2))+
    note len = slot_room [OF ri Some]
    have ks: "schedule_ok cr cfg (sd_cipher s)" using i(1) by (simp add: send_inv_def)
    have v': "unat k < length (sd_blocks s)" "sd_blocks s ! unat k = (sl_offset sl, take (unat (sl_payload_len sl)) (sl_payload sl))"
      "unat (sl_payload_len sl) \<le> unat (block_ceiling cfg)"
      "sl_flags sl AND kFlagLastBlock \<noteq> 0 \<longrightarrow> sd_sent_last s \<and> Suc (unat k) = length (sd_blocks s)"
      using v by (simp_all add: view_ok_def slot_view_def)
    note op = block_datagram_opens [OF i(2) ks v'(3) len bd]
    have fl: "(?fl AND kFlagLastBlock) = sl_flags sl AND kFlagLastBlock" by (simp add: bit.conj_disj_distrib2)
    have sent: "sent_ok cr cfg s d" if "dg = Some d" for d
      using op(2) [OF that] v' fl unfolding sent_ok_def by fastforce
    let ?s1 = "s\<lparr>sd_cipher := ks\<rparr>"
    let ?s2 = "\<lambda>d. ?s1\<lparr>sd_data := sd_data ?s1 @ [d], sd_retransmits := sd_retransmits ?s1 + 1\<rparr>"
    have c: "core ?s1 = core s" "core (?s2 d) = core s" for d by (simp_all add: core_def)
    have o: "sizes ?s1 = sizes s" "not_newly_ok s ?s1" "sizes (?s2 d) = sizes s" "not_newly_ok s (?s2 d)" for d
      by (simp_all add: sizes_def not_newly_ok_def)
    have s1: "send_inv cr cfg ?s1" "grows s ?s1"
      by (rule send_inv_wire [OF c(1) i(1)]) (use op(1) grows_core [OF c(1) o(1,2)] in simp_all)
    have s2: "send_inv cr cfg (?s2 d)" "grows s (?s2 d)" if "dg = Some d" for d
      by (rule send_inv_wire [OF c(2) i(1)]) (use op(1) grows_core [OF c(2) o(3,4)] sent [OF that] in simp_all)
    show ?thesis using r Some bd s1 s2 by (auto simp: resend_def Let_def split: option.splits if_splits)
  qed
  then show "send_inv cr cfg s'" "grows s s'" "sd_next_seq s' = sd_next_seq s" by blast+
qed

lemma resend_list_inv:
  assumes "send_inv cr cfg s" "aead_ok cr"
  shows "send_inv cr cfg (resend_list cr cfg wire qs s) \<and> grows s (resend_list cr cfg wire qs s)"
  using assms
proof (induction qs arbitrary: s)
  case (Cons q qs)
  obtain k acc where q: "q = (k, acc)" by (cases q)
  obtain ok s1 where r: "resend cr cfg wire acc k s = (ok, s1)" by (meson surj_pair)
  note i = resend_inv [OF Cons.prems r]
  show ?case using Cons.IH [OF i(1) Cons.prems(2)] grows_trans [OF i(2)] by (simp add: q r)
qed simp

lemma rto_loop_inv:
  "rto_loop cr cfg wire acc n q holes snt s = (h, st, rf, s') \<Longrightarrow> send_inv cr cfg s \<Longrightarrow> aead_ok cr \<Longrightarrow>
     send_inv cr cfg s' \<and> grows s s' \<and> sd_next_seq s' = sd_next_seq s"
proof (induction cr cfg wire acc n q holes snt s rule: rto_loop.induct)
  case (1 cr cfg wire acc n q holes snt s)
  let ?go = "q < n \<and> holes < kRtoHoles \<and> \<not> (q \<noteq> sd_base s \<and> q \<ge> sd_received_end s)"
  show ?case
  proof (cases "?go \<and> lookup (sd_reg s) q \<noteq> None")
    case False
    show ?thesis
    proof (cases ?go)
      case True
      with False 1 show ?thesis by (simp add: rto_loop.simps [of cr cfg wire acc n q])
    next
      case F: False
      then have "s' = s" using 1(3) by (auto simp: rto_loop.simps [of cr cfg wire acc n q])
      then show ?thesis using 1(4) by simp
    qed
  next
    case True
    obtain ok s1 where r: "resend cr cfg wire (acc q) q s = (ok, s1)" by (meson surj_pair)
    note i = resend_inv [OF 1(4,5) r]
    show ?thesis
    proof (cases ok)
      case True
      then have "rto_loop cr cfg wire acc n (q + 1) (Suc holes) True s1 = (h, st, rf, s')"
        using 1(3) \<open>?go \<and> lookup (sd_reg s) q \<noteq> None\<close> r by (auto simp: rto_loop.simps [of cr cfg wire acc n q])
      then have "send_inv cr cfg s' \<and> grows s1 s' \<and> sd_next_seq s' = sd_next_seq s1"
        using 1(2) [OF _ _ _ refl _ i(1) 1(5)] r True \<open>?go \<and> lookup (sd_reg s) q \<noteq> None\<close> by fastforce
      then show ?thesis using i grows_trans [OF i(2)] by auto
    next
      case False
      then have "s' = s1" using 1(3) \<open>?go \<and> lookup (sd_reg s) q \<noteq> None\<close> r by (auto simp: rto_loop.simps [of cr cfg wire acc n q])
      then show ?thesis using i by simp
    qed
  qed
qed

section \<open>The other handlers\<close>

text \<open>Steps that leave the blocks, the registry and the wire alone.\<close>

definition calm :: "sender \<Rightarrow> sender \<Rightarrow> bool" where
  "calm s s' \<longleftrightarrow> core s' = core s \<and> sizes s' = sizes s \<and> not_newly_ok s s' \<and> sd_cipher s' = sd_cipher s \<and> sd_data s' = sd_data s"

lemma calm_inv: "calm s s' \<Longrightarrow> send_inv cr cfg s \<Longrightarrow> send_inv cr cfg s' \<and> grows s s'"
  using send_inv_core [of s' s cr cfg] grows_core [of s' s] by (simp add: calm_def)

lemma calm_simps:
  "calm s (ctl_send dgs to s)" "st \<noteq> Ok \<Longrightarrow> calm s (give_up_send cr cfg st tell s)" "calm s (sender_probe cr cfg now rnd src s)"
  "calm s (sender_on_path cr cfg type dg src s)" "calm s (sender_on_close cr cfg dg s)"
  by (auto simp: calm_def core_def sizes_def not_newly_ok_def ctl_send_def give_up_send_def sender_probe_def sender_on_path_def sender_on_close_def Let_def
      split: prod.split option.split)

text \<open>The blocks that no retransmission can repair any more.\<close>

definition gone :: "sender \<Rightarrow> u64 set" where
  "gone s = {k. k < sd_next_seq s \<and> (k < sd_base s \<or> look_view (sd_reg s) k = None)}"

lemma grows_gone: "grows s s' \<Longrightarrow> send_inv cr cfg s \<Longrightarrow> gone s' \<subseteq> gone s"
proof
  fix k assume g: "grows s s'" and i: "send_inv cr cfg s" and k: "k \<in> gone s'"
  have b: "sd_base s' = sd_base s" "sd_base s \<le> sd_next_seq s"
    using g i by (simp_all add: grows_def send_inv_def word_le_nat_alt)
  show "k \<in> gone s"
  proof (cases "k < sd_base s")
    case True
    with b show ?thesis by (simp add: gone_def)
  next
    case False
    with g k b show ?thesis by (auto simp: grows_def gone_def)
  qed
qed

lemma window_frees: "rg_window_size (fold (\<lambda>k r. confirm r k) ks reg) = rg_window_size reg"
  by (induction ks arbitrary: reg) (simp_all add: confirm_def Let_def)

lemma ack_reg_step:
  assumes i: "send_inv cr cfg s" and w: "wf_ack a"
    and ap: "apply_ack (sd_reg s) a (sd_base s) (sd_next_seq s) re = (reg, base, re', bytes)"
    and s': "core s' = (fst (core s), reg, base)" "sd_cipher s' = sd_cipher s" "sd_data s' = sd_data s"
  shows "send_inv cr cfg s'" "gone s' \<subseteq> gone s \<union> {k. acked a (sd_base s) (sd_next_seq s) k}"
proof -
  have f: "sd_plan s' = sd_plan s" "sd_block s' = sd_block s" "sd_next_seq s' = sd_next_seq s" "sd_blocks s' = sd_blocks s"
    "sd_ri s' = sd_ri s" "sd_next_offset s' = sd_next_offset s" "sd_sent_last s' = sd_sent_last s" "sd_reg s' = reg" "sd_base s' = base"
    using s'(1) by (simp_all add: core_def)
  have ci: "cut_inv cfg s" "reg_inv (sd_reg s)" "rg_window_size (sd_reg s) = 1024" "sd_base s \<le> sd_next_seq s"
    using i by (simp_all add: send_inv_def reg_ok_def word_le_nat_alt)
  have "unat (sd_next_seq s) + 1024 \<le> 2 ^ 64" using few_blocks [OF ci(1)] ci(1) by (simp add: cut_inv_def)
  note sp = apply_ack_spec [OF ci(2) w ci(4) this ap]
  have lv: "look_view reg k = (if acked a (sd_base s) (sd_next_seq s) k then None else look_view (sd_reg s) k)" for k
    using sp(5) [of k] by (simp add: look_view_def)
  have "reg = fst (fold ack_take (ack_list a (sd_base s) (sd_next_seq s)) (sd_reg s, 0))"
    using apply_ack_eq [OF w, of "sd_next_seq s" "sd_reg s" "sd_base s" re] \<open>unat (sd_next_seq s) + 1024 \<le> 2 ^ 64\<close> ap by auto
  then have "rg_window_size reg = 1024" using ci(3) by (simp add: fst_fold_ack_take window_frees)
  then have "reg_ok cfg s'" using sp(1) lv i f ci(3) by (auto simp: send_inv_def reg_ok_def view_ok_def)
  moreover have "cut_inv cfg s' = cut_inv cfg s"
    using f by (simp add: cut_inv_def plan_ok_def blocks_of_data_def rest_positions_def)
  moreover have "sent_ok cr cfg s' = sent_ok cr cfg s" using f by (simp add: sent_ok_def fun_eq_iff)
  ultimately show "send_inv cr cfg s'"
    using i f s' sp(3,4) by (auto simp: send_inv_def word_le_nat_alt)
  show "gone s' \<subseteq> gone s \<union> {k. acked a (sd_base s) (sd_next_seq s) k}"
    using f lv sp(2) by (auto simp: gone_def acked_def ack_new_base_def split: if_splits)
qed

section \<open>The block size\<close>

text \<open>
  The block size stays between the configured one and what the path and the wire format allow,
  through growth, losses and re-probing.
\<close>

definition size_inv :: "send_cfg \<Rightarrow> sender \<Rightarrow> bool" where
  "size_inv cfg s \<longleftrightarrow>
     0 < first_block cfg \<and> first_block cfg \<le> sd_block s \<and> sd_block s \<le> sd_growth_ceiling s \<and>
     sd_growth_ceiling s \<le> sd_mtu_ceiling s \<and> sd_mtu_ceiling s \<le> block_ceiling cfg \<and>
     (sd_pre_growth_block s \<noteq> 0 \<longrightarrow> first_block cfg \<le> sd_pre_growth_block s \<and> sd_pre_growth_block s \<le> sd_mtu_ceiling s)"

lemma size_inv_sizes: "sizes s' = sizes s \<Longrightarrow> size_inv cfg s' = size_inv cfg s"
  by (simp add: sizes_def size_inv_def)

lemma unat_grown:
  "unat (ucast (min (ucast c) (ucast b * 2 :: u32)) :: u16) = min (unat (c :: u16)) (unat (b :: u16) * 2)"
proof -
  have u: "unat (ucast c :: u32) = unat c" "unat (ucast b :: u32) = unat b" by (simp_all add: unat_ucast_up)
  have lt: "unat c < 65536" "unat b < 65536" using unsigned_less [of c, where 'a = nat] unsigned_less [of b, where 'a = nat] by simp_all
  then have "unat (ucast b * 2 :: u32) = unat b * 2" using u by (simp add: unat_word_ariths)
  then have "unat (min (ucast c) (ucast b * 2 :: u32)) = min (unat c) (unat b * 2)" by (simp add: min_def word_le_nat_alt u)
  then show ?thesis using lt by (simp add: unsigned_ucast_eq) (simp add: take_bit_eq_mod min_def)
qed

lemma mtu_bound_bounds:
  "first_block cfg \<le> mtu_bound cfg mtu ov" "mtu_bound cfg mtu ov \<le> block_ceiling cfg"
proof -
  have f: "unat (first_block cfg) \<le> unat (block_ceiling cfg)" by (simp add: first_block_def min_def word_le_nat_alt)
  let ?m = "\<lambda>r. max (unat (first_block cfg)) (min (unat (block_ceiling cfg)) r)"
  have "?m r < 65536" for r
    using f unsigned_less [of "block_ceiling cfg", where 'a = nat] by (simp add: max_def min_def)
  then have "unat (of_nat (?m r) :: u16) = ?m r" for r
    unfolding unsigned_of_nat of_nat_id by (intro take_bit_nat_eq_self) simp
  then show "first_block cfg \<le> mtu_bound cfg mtu ov" "mtu_bound cfg mtu ov \<le> block_ceiling cfg"
    using f by (simp_all add: mtu_bound_def Let_def word_le_nat_alt)
qed

lemma adapt_size: "size_inv cfg s \<Longrightarrow> size_inv cfg (adapt_block cfg adv s)"
proof -
  assume i: "size_inv cfg s"
  have n: "size_inv cfg (note_clean s)" using i by (auto simp: note_clean_def size_inv_def Let_def intro: order_trans)
  have sh: "size_inv cfg (shrink_block cfg s)" if "size_inv cfg s" for s
    using that by (auto simp: shrink_block_def size_inv_def Let_def intro: order_trans)
  have g: "size_inv cfg (grow_block s)" if "size_inv cfg s" for s
    using that unat_grown [of "sd_growth_ceiling s" "sd_block s"]
    by (auto simp: grow_block_def size_inv_def Let_def word_le_nat_alt word_less_nat_alt)
  show ?thesis using i n sh g by (simp add: adapt_block_def Let_def)
qed

definition resized :: "sender \<Rightarrow> sender \<Rightarrow> bool" where
  "resized s s' \<longleftrightarrow>
     core s' = core (s\<lparr>sd_block := sd_block s'\<rparr>) \<and> sd_mtu_ceiling s' = sd_mtu_ceiling s \<and> sd_cipher s' = sd_cipher s \<and> sd_data s' = sd_data s \<and> sd_res s' = sd_res s"

lemma resized_parts: "resized s (note_clean s)" "resized s (shrink_block cfg s)" "resized s (grow_block s)"
  by (simp_all add: resized_def core_def note_clean_def shrink_block_def grow_block_def Let_def)

lemma resized_trans: "resized s s' \<Longrightarrow> resized s' s'' \<Longrightarrow> resized s s''"
  by (simp add: resized_def core_def)

lemma adapt_frame: "resized s (adapt_block cfg adv s)"
  using resized_parts resized_trans [OF resized_parts(1)] by (simp add: adapt_block_def Let_def resized_def core_def)

section \<open>The lane as a whole\<close>

definition full_inv :: "Crypto \<Rightarrow> send_cfg \<Rightarrow> sender \<Rightarrow> bool" where
  "full_inv cr cfg s \<longleftrightarrow>
     send_inv cr cfg s \<and> size_inv cfg s \<and> (lr_status (sd_res s) = Ok \<longrightarrow> sd_sent_last s \<and> sd_base s = sd_next_seq s)"

text \<open>\<open>A\<close> are the blocks the step's acknowledgement acknowledges.\<close>

definition evolves :: "u64 set \<Rightarrow> sender \<Rightarrow> sender \<Rightarrow> bool" where
  "evolves A s s' \<longleftrightarrow>
     sd_plan s' = sd_plan s \<and> sd_mtu_ceiling s' = sd_mtu_ceiling s \<and> gone s' \<subseteq> gone s \<union> A \<and>
     (\<exists>bs. sd_blocks s' = sd_blocks s @ bs \<and> (sd_sent_last s \<longrightarrow> bs = [] \<and> sd_sent_last s'))"

lemma grows_full:
  assumes g: "grows s s'" and i: "full_inv cr cfg s" "send_inv cr cfg s'"
  shows "full_inv cr cfg s'" "evolves A s s'"
proof -
  have "size_inv cfg s'" using g i size_inv_sizes [of s' s cfg] by (simp add: grows_def full_inv_def)
  moreover have "sd_sent_last s' \<and> sd_base s' = sd_next_seq s'" if "lr_status (sd_res s') = Ok"
  proof -
    have s: "sd_sent_last s" "sd_base s = sd_next_seq s" using that g i by (auto simp: grows_def not_newly_ok_def full_inv_def)
    then have b: "sd_sent_last s'" "sd_blocks s' = sd_blocks s" "sd_base s' = sd_base s" using g by (auto simp: grows_def)
    have "length (sd_blocks s) = unat (sd_next_seq s)" "length (sd_blocks s') = unat (sd_next_seq s')"
      using i by (simp_all add: full_inv_def send_inv_def cut_inv_def)
    with b s show ?thesis by (auto intro: unsigned_word_eqI)
  qed
  ultimately show "full_inv cr cfg s'" using i(2) by (simp add: full_inv_def)
  show "evolves A s s'" using g grows_gone [OF g] i(1) by (auto simp: evolves_def grows_def full_inv_def sizes_def)
qed

lemma calm_full: "calm s s' \<Longrightarrow> full_inv cr cfg s \<Longrightarrow> full_inv cr cfg s' \<and> evolves A s s'"
  using calm_inv [of s s' cr cfg] grows_full [of s s' cr cfg] by (simp add: full_inv_def)

lemma resized_full:
  assumes r: "resized s s'" and i: "full_inv cr cfg s" "size_inv cfg s'"
  shows "full_inv cr cfg s' \<and> evolves A s s'"
proof -
  have f: "sd_plan s' = sd_plan s" "sd_next_seq s' = sd_next_seq s" "sd_blocks s' = sd_blocks s" "sd_ri s' = sd_ri s"
    "sd_next_offset s' = sd_next_offset s" "sd_sent_last s' = sd_sent_last s" "sd_reg s' = sd_reg s" "sd_base s' = sd_base s"
    "sd_cipher s' = sd_cipher s" "sd_data s' = sd_data s" "sd_res s' = sd_res s" "sd_mtu_ceiling s' = sd_mtu_ceiling s"
    using r by (simp_all add: resized_def core_def)
  have "0 < sd_block s' \<and> sd_block s' \<le> block_ceiling cfg" using i(2) by (auto simp: size_inv_def)
  moreover have "rest_positions s' = rest_positions s" "blocks_of_data cfg s' = blocks_of_data cfg s"
    using f by (simp_all add: rest_positions_def blocks_of_data_def)
  ultimately have "cut_inv cfg s'" using i(1) f by (auto simp: full_inv_def send_inv_def cut_inv_def plan_ok_def)
  moreover have "reg_ok cfg s' = reg_ok cfg s" "sent_ok cr cfg s' = sent_ok cr cfg s"
    using f by (simp_all add: reg_ok_def view_ok_def sent_ok_def fun_eq_iff)
  ultimately show ?thesis using i f by (simp add: full_inv_def send_inv_def evolves_def gone_def)
qed

lemma seq_room: "send_inv cr cfg s \<Longrightarrow> unat (sd_next_seq s) + 1024 \<le> 2 ^ 64 \<and> sd_base s \<le> sd_next_seq s \<and> reg_inv (sd_reg s)"
  using few_blocks [of cfg s] by (auto simp: send_inv_def cut_inv_def reg_ok_def word_le_nat_alt)

lemma sender_on_ack_full:
  assumes i: "full_inv cr cfg s" and w: "wf_ack a"
  shows "full_inv cr cfg (sender_on_ack cr cfg now wire rnd a src s) \<and>
    evolves {k. ack_nonce a = sd_nonce s \<and> acked a (sd_base s) (sd_next_seq s) k} s (sender_on_ack cr cfg now wire rnd a src s)"
proof (cases "ack_nonce a = sd_nonce s")
  case False
  then show ?thesis using i by (simp add: sender_on_ack_def evolves_def)
next
  case True
  let ?p = "if \<not> peer_eq src (sd_dst s) then sender_probe cr cfg now rnd src s else s" and ?s' = "sender_on_ack cr cfg now wire rnd a src s"
  have p: "calm s ?p" using calm_simps(3) by (simp add: calm_def not_newly_ok_def)
  obtain reg base re bytes where ap: "apply_ack (sd_reg ?p) a (sd_base ?p) (sd_next_seq ?p) (Some (sd_received_end ?p)) = (reg, base, re, bytes)"
    by (meson prod_cases4)
  have f: "core ?s' = (fst (core ?p), reg, base)" "sd_cipher ?s' = sd_cipher ?p" "sd_data ?s' = sd_data ?p" "sizes ?s' = sizes ?p"
    "lr_status (sd_res ?s') = lr_status (sd_res ?p)"
    using True ap by (simp_all add: sender_on_ack_def Let_def core_def sizes_def)
  have pf: "full_inv cr cfg ?p" "evolves {} s ?p" using calm_full [OF p i] by blast+
  then have pi: "send_inv cr cfg ?p" by (simp add: full_inv_def)
  note st = ack_reg_step [OF pi w ap f(1,2,3)]
  have e: "sd_plan ?s' = sd_plan ?p" "sd_blocks ?s' = sd_blocks ?p" "sd_sent_last ?s' = sd_sent_last ?p" "sd_next_seq ?s' = sd_next_seq ?p"
    "sd_base ?s' = base" "sd_base ?p = sd_base s" "sd_next_seq ?p = sd_next_seq s" "gone ?p = gone s" "sd_mtu_ceiling ?s' = sd_mtu_ceiling ?p"
    using f(1,4) p by (simp_all add: core_def calm_def gone_def sizes_def)
  have "base = sd_next_seq ?p" if "sd_base ?p = sd_next_seq ?p"
    using that apply_ack_spec(3,4) [OF _ w _ _ ap] seq_room [OF pi] by (metis antisym)
  then have "full_inv cr cfg ?s'"
    using st(1) pf(1) f(4,5) e size_inv_sizes [OF f(4), of cfg] by (auto simp: full_inv_def)
  moreover have "evolves {k. ack_nonce a = sd_nonce s \<and> acked a (sd_base s) (sd_next_seq s) k} s ?s'"
    using st(2) pf(2) e True by (auto simp: evolves_def)
  ultimately show ?thesis by blast
qed

lemma sender_on_nack_full:
  assumes i: "full_inv cr cfg s" and a: "aead_ok cr"
  shows "full_inv cr cfg (sender_on_nack cr cfg wire acc nk s) \<and> evolves A s (sender_on_nack cr cfg wire acc nk s)"
proof -
  let ?s1 = "s\<lparr>sd_cc := on_loss (sd_cc s), sd_loss_seen := True\<rparr>"
  have c: "calm s ?s1" by (simp add: calm_def core_def sizes_def not_newly_ok_def)
  have i1: "send_inv cr cfg ?s1" "grows s ?s1" using calm_inv [OF c, of cr cfg] i by (simp_all add: full_inv_def)
  show ?thesis using resend_list_inv [OF i1(1) a] grows_trans [OF i1(2)] grows_full [OF _ i] by (simp add: sender_on_nack_def)
qed

text \<open>Which acknowledgement of this session a datagram carries, if the lane would act on it.\<close>

definition heard_ack :: "Crypto \<Rightarrow> sender \<Rightarrow> byte list \<Rightarrow> Ack option" where
  "heard_ack cr s dg =
     (case decode_ack dg of
        accept a \<Rightarrow> if peek_msg_type dg = accept MsgAck \<and> ctl_authentic cr (sd_auth s) dg \<and> ack_nonce a = sd_nonce s
                    then Some a else None
      | _ \<Rightarrow> None)"

definition heard :: "Crypto \<Rightarrow> sender \<Rightarrow> byte list \<Rightarrow> u64 set" where
  "heard cr s dg = (case heard_ack cr s dg of None \<Rightarrow> {} | Some a \<Rightarrow> {k. acked a (sd_base s) (sd_next_seq s) k})"

lemma sender_on_datagram_full:
  assumes i: "full_inv cr cfg s" and a: "aead_ok cr"
  shows "full_inv cr cfg (sender_on_datagram cr cfg now wire rnd acc dg src s) \<and>
    evolves (heard cr s dg) s (sender_on_datagram cr cfg now wire rnd acc dg src s)"
proof -
  have same: "full_inv cr cfg s \<and> evolves (heard cr s dg) s s" using i by (simp add: evolves_def)
  have ack: "full_inv cr cfg (sender_on_ack cr cfg now wire rnd m src s) \<and> evolves (heard cr s dg) s (sender_on_ack cr cfg now wire rnd m src s)"
    if "decode_ack dg = accept m" "peek_msg_type dg = accept MsgAck" "ctl_authentic cr (sd_auth s) dg" for m
  proof -
    have "wf_ack m" using ack_codec.dec_sound that(1) by blast
    moreover have "heard cr s dg = {k. ack_nonce m = sd_nonce s \<and> acked m (sd_base s) (sd_next_seq s) k}"
      using that by (simp add: heard_def heard_ack_def)
    ultimately show ?thesis using sender_on_ack_full [OF i] by simp
  qed
  show ?thesis
    using same ack sender_on_nack_full [OF i a] calm_full [OF calm_simps(4) i] calm_full [OF calm_simps(5) i]
    by (auto simp: sender_on_datagram_def split: option.splits)
qed

lemma rto_tick_full:
  assumes i: "full_inv cr cfg s" and a: "aead_ok cr" and r: "rto_tick cr cfg t wire acc s = (adv, s')"
  shows "full_inv cr cfg s' \<and> evolves A s s'"
proof -
  have si: "send_inv cr cfg s" using i by (simp add: full_inv_def)
  have cf: "full_inv cr cfg v \<and> evolves A s v" if "grows s u" "send_inv cr cfg u" "calm u v" for u v
    using calm_inv [OF that(3,2)] grows_trans [OF that(1)] grows_full [OF _ i] by blast
  obtain h st rf u where l: "rto_loop cr cfg wire acc (sd_next_seq s) (sd_base s) 0 False s = (h, st, rf, u)" by (meson prod_cases4)
  note li = rto_loop_inv [OF l si a]
  have "calm u u" "calm s s" "calm u (u\<lparr>sd_last_progress := t\<rparr>)" "calm u (u\<lparr>sd_cc := on_timeout (sd_cc u), sd_last_progress := t\<rparr>)"
    "calm s (s\<lparr>sd_last_base := sd_base s, sd_last_progress := t, sd_last_real_progress := t, sd_cc := on_progress (sd_cc s)\<rparr>)"
    by (simp_all add: calm_def core_def sizes_def not_newly_ok_def)
  then have "calm s s' \<or> calm u s'" using r l by (auto simp: rto_tick_def Let_def split: if_splits)
  then show ?thesis using li cf [of s s'] cf [of u s'] si grows_refl by blast
qed

text \<open>
  The steps of the lane's loop, for every clock, every datagram and every answer of the socket. The
  label is the set of blocks that the step's acknowledgement acknowledges. The lane leaves the loop
  with everything acknowledged (\<^verbatim>\<open>sent_last && base >= next_seq\<close>) before it finishes.
\<close>

inductive send_step :: "Crypto \<Rightarrow> send_cfg \<Rightarrow> u64 set \<Rightarrow> sender \<Rightarrow> sender \<Rightarrow> bool" for cr cfg where
  send_step_top: "send_step cr cfg {} s (send_top cr cfg cancelled now s)"
| send_step_batch: "send_step cr cfg {} s (snd (send_batch cr cfg now ts after pace s))"
| send_step_datagram: "send_step cr cfg (heard cr s dg) s (sender_on_datagram cr cfg now wire rnd acc dg src s)"
| send_step_timers: "send_step cr cfg {} s (case rto_tick cr cfg t wire acc s of (adv, s') \<Rightarrow> adapt_block cfg adv s')"
| send_step_bottom: "send_step cr cfg {} s (snd (send_bottom cr cfg t s))"
| send_step_digest: "send_step cr cfg {} s (snd (digest_top cr cfg dg cancelled start t next_send s))"
| send_step_echo: "send_step cr cfg {} s (snd (digest_receive cr cfg dm dg s))"
| send_step_finish: "send_step cr cfg {} s (finish_send cr cfg s)" if "sd_sent_last s" "sd_next_seq s \<le> sd_base s"

lemma evolves_trans: "evolves A s s' \<Longrightarrow> evolves B s' s'' \<Longrightarrow> evolves (A \<union> B) s s''"
  unfolding evolves_def by auto

lemma calm_more:
  "st \<noteq> Ok \<Longrightarrow> calm s ((give_up_send cr cfg st tell s)\<lparr>sd_stop_all := x\<rparr>)"
  "calm s (snd (send_bottom cr cfg t s))" "calm s (snd (digest_top cr cfg dg cancelled start t next_send s))"
  "calm s (snd (digest_receive cr cfg dm dg s))" "calm s (send_top cr cfg cancelled now s)"
proof -
  have g: "calm s (give_up_send cr cfg st tell s)" if "st \<noteq> Ok" for st tell s using calm_simps(2) that .
  then show st: "calm s ((give_up_send cr cfg st tell s)\<lparr>sd_stop_all := x\<rparr>)" if "st \<noteq> Ok" for st tell x s
    using that by (fastforce simp: calm_def core_def sizes_def not_newly_ok_def)
  let ?r = "s\<lparr>sd_res := (sd_res s)\<lparr>lr_retransmits := sd_retransmits s\<rparr>\<rparr>"
  have "calm s (give_up_send cr cfg TransferStatus.Timeout True ?r)"
    using g [of TransferStatus.Timeout ?r True] by (simp add: calm_def core_def sizes_def not_newly_ok_def)
  then show "calm s (snd (send_bottom cr cfg t s))"
    by (simp add: send_bottom_def Let_def) (simp add: calm_def core_def sizes_def not_newly_ok_def)
  have r: "calm s s" by (simp add: calm_def not_newly_ok_def)
  show "calm s (snd (digest_top cr cfg dg cancelled start t next_send s))"
    using g st calm_simps(1) r by (simp add: digest_top_def)
  show "calm s (snd (digest_receive cr cfg dm dg s))"
    using calm_simps(5) r by (simp add: digest_receive_def split: option.split)
  show "calm s (send_top cr cfg cancelled now s)"
    using g st by (simp add: send_top_def) (simp add: calm_def core_def sizes_def not_newly_ok_def)
qed

lemma finish_full:
  assumes i: "full_inv cr cfg s" and f: "sd_sent_last s" "sd_next_seq s \<le> sd_base s"
  shows "full_inv cr cfg (finish_send cr cfg s) \<and> evolves A s (finish_send cr cfg s)"
proof -
  let ?s' = "finish_send cr cfg s"
  have e: "core ?s' = core s" "sd_cipher ?s' = sd_cipher s" "sd_data ?s' = sd_data s" "sizes ?s' = sizes s"
    by (simp_all add: finish_send_def ctl_send_def core_def sizes_def Let_def split: prod.split)
  have "send_inv cr cfg ?s'" using send_inv_core [OF e(1,2,3)] i by (simp add: full_inv_def)
  moreover have "sd_base s = sd_next_seq s" using f i seq_room [of cr cfg s] by (simp add: full_inv_def)
  ultimately show ?thesis
    using e f i size_inv_sizes [OF e(4), of cfg] by (simp add: full_inv_def evolves_def gone_def core_def sizes_def)
qed

lemma send_step_full:
  assumes st: "send_step cr cfg A s s'" and i: "full_inv cr cfg s" and a: "aead_ok cr" "seals_always cr"
  shows "full_inv cr cfg s' \<and> evolves A s s'"
  using st
proof cases
  case (send_step_batch now ts after pace)
  have "send_inv cr cfg s'" "grows s s'"
    using send_batch_inv [of cr cfg s now ts after pace] i a send_step_batch by (simp_all add: full_inv_def prod_eq_iff)
  then show ?thesis using grows_full i by blast
next
  case (send_step_timers t wire acc)
  obtain adv u where r: "rto_tick cr cfg t wire acc s = (adv, u)" by (meson surj_pair)
  have u: "full_inv cr cfg u" "evolves {} s u" using rto_tick_full [OF i a(1) r] by blast+
  have "full_inv cr cfg (adapt_block cfg adv u) \<and> evolves {} u (adapt_block cfg adv u)"
    by (rule resized_full [OF adapt_frame u(1)]) (use u adapt_size in \<open>simp add: full_inv_def\<close>)
  then show ?thesis using send_step_timers r evolves_trans [OF u(2), of "{}"] by auto
qed (use calm_full [OF calm_more(2) i] calm_full [OF calm_more(3) i] calm_full [OF calm_more(4) i] calm_full [OF calm_more(5) i]
    finish_full [OF i] sender_on_datagram_full [OF i a(1)] in auto)

text \<open>A run of the lane: the states reached from \<open>s\<close>, with everything that was acknowledged on the way.\<close>

inductive send_run :: "Crypto \<Rightarrow> send_cfg \<Rightarrow> sender \<Rightarrow> u64 set \<Rightarrow> sender \<Rightarrow> bool" for cr cfg s where
  send_run_start: "send_run cr cfg s {} s"
| send_run_step: "send_run cr cfg s A s' \<Longrightarrow> send_step cr cfg B s' s'' \<Longrightarrow> send_run cr cfg s (A \<union> B) s''"

lemma send_run_full:
  assumes "send_run cr cfg s A s'" "full_inv cr cfg s" "aead_ok cr" "seals_always cr"
  shows "full_inv cr cfg s' \<and> evolves A s s'"
  using assms(1)
proof induction
  case send_run_start
  then show ?case using assms(2) by (simp add: evolves_def)
next
  case (send_run_step A s' B s'')
  then show ?case using send_step_full [OF send_run_step.hyps(2) _ assms(3,4)] evolves_trans by blast
qed

lemma send_run_trans: "send_run cr cfg s' B s'' \<Longrightarrow> send_run cr cfg s A s' \<Longrightarrow> send_run cr cfg s (A \<union> B) s''"
proof (induction rule: send_run.induct)
  case (send_run_step B u C v)
  then show ?case using send_run.send_run_step [of cr cfg s "A \<union> B" u C v] by (simp add: Un_assoc)
qed simp

text \<open>A turn of the loop is such a run.\<close>

lemma send_drain_run: "\<exists>A. send_run cr cfg s A (send_drain cr cfg acc es s)"
proof (induction es arbitrary: s)
  case Nil
  show ?case using send_run_start by auto
next
  case (Cons e es)
  obtain now wire rnd dg src where e: "e = (now, wire, rnd, dg, src)" by (metis prod_cases5)
  let ?u = "sender_on_datagram cr cfg now wire rnd acc dg src s"
  have u: "send_run cr cfg s ({} \<union> heard cr s dg) ?u" by (rule send_run_step [OF send_run_start send_step_datagram])
  moreover obtain B where "send_run cr cfg ?u B (send_drain cr cfg acc es ?u)" using Cons.IH by blast
  ultimately have "\<exists>A. send_run cr cfg s A (send_drain cr cfg acc es ?u)" using send_run_trans by blast
  then show ?case using u by (auto simp: e Let_def)
qed

lemma send_turn_run: "\<exists>A. send_run cr cfg s A (snd (send_turn cr cfg e s))"
proof -
  have one: "\<exists>A. send_run cr cfg s A v" if "send_run cr cfg s A u" "send_step cr cfg B u v" for A B u v
    using send_run_step [OF that] by blast
  let ?u = "send_top cr cfg (su_cancelled e) (su_poll e) s"
  let ?v = "snd (send_batch cr cfg (su_batch_now e) (su_times e) (su_after e) (su_pace e) ?u)"
  let ?w = "send_drain cr cfg (su_accepts e) (take 64 (su_arrived e)) ?v"
  let ?x = "case rto_tick cr cfg (su_t e) (su_wire e) (su_accepts e) ?w of (adv, s') \<Rightarrow> adapt_block cfg adv s'"
  obtain A where u: "send_run cr cfg s A ?u" using one [OF send_run_start send_step_top] by blast
  obtain B where "send_run cr cfg s B ?v" using one [OF u send_step_batch] by blast
  then obtain C where w: "send_run cr cfg s C ?w" using send_drain_run send_run_trans by blast
  obtain D where x: "send_run cr cfg s D ?x" using one [OF w send_step_timers] by blast
  have "\<exists>E. send_run cr cfg s E (snd (send_bottom cr cfg (su_t e) ?x))" using one [OF x send_step_bottom] .
  then show ?thesis using u w by (auto simp: send_turn_def Let_def split: prod.split)
qed

text \<open>What the lane's setup leaves is a key schedule of the lane's key.\<close>

lemma send_setup_schedule: "send_setup cr cfg resolved opened = Inr (ks, auth) \<Longrightarrow> schedule_ok cr cfg ks"
  using schedule_init [of cr cfg ks]
  by (cases "ky_enabled (sg_keys cfg)") (auto simp: send_setup_def schedule_ok_def Let_def split: if_splits prod.splits)

lemma new_sender_full:
  assumes "length (sg_data cfg) < 2 ^ 62" "sg_block_size cfg \<noteq> 0" "schedule_ok cr cfg ks"
  shows "full_inv cr cfg (new_sender cfg mtu now ks auth dst nonce ans)"
    and "gone (new_sender cfg mtu now ks auth dst nonce ans) = {}"
proof -
  let ?s = "new_sender cfg mtu now ks auth dst nonce ans"
  obtain plan bytes where p: "session_plan (shard_bytes cfg) (ra_answer ans) = (plan, bytes)" by (meson surj_pair)
  have sh: "unat (shard_bytes cfg) = length (sg_data cfg)" using assms(1) unat_add_lt [of 0 "length (sg_data cfg)"] by (simp add: shard_bytes_def)
  have ok: "ranges_ok 0 (length (sg_data cfg)) plan" using session_plan_ok [OF p] sh by simp
  have f: "sd_plan ?s = plan" "sd_blocks ?s = []" "sd_next_seq ?s = 0" "sd_base ?s = 0" "sd_ri ?s = 0" "sd_sent_last ?s = False"
    "sd_data ?s = []" "sd_cipher ?s = ks" "sd_reg ?s = new_registry (sg_lane cfg) 1024" "sd_block ?s = first_block cfg"
    "sd_growth_ceiling ?s = mtu_bound cfg mtu (ip_udp_overhead dst)" "sd_mtu_ceiling ?s = mtu_bound cfg mtu (ip_udp_overhead dst)"
    "sd_pre_growth_block ?s = 0" "sd_next_offset ?s = (case plan of [] \<Rightarrow> 0 | r # _ \<Rightarrow> fst r)" "lr_status (sd_res ?s) = Incomplete"
    by (simp_all add: new_sender_def p new_lane_result_def Let_def)
  have "0 < unat (block_ceiling cfg)" using tag_room_le [of cfg] unfolding unat_block_ceiling by linarith
  then have fb: "0 < first_block cfg" "first_block cfg \<le> block_ceiling cfg"
    using assms(2) by (auto simp: first_block_def min_def word_less_nat_alt unat_gt_0 word_gt_0)
  have si: "size_inv cfg ?s" using f fb(1) mtu_bound_bounds by (simp add: size_inv_def)
  have "rest_positions ?s = plan_positions plan" using f by (cases plan) (simp_all add: rest_positions_def)
  moreover have "unat (fst r) < unat (fst r) + unat (snd r)" if "plan = r # rs" for r rs using ok that by simp
  ultimately have "cut_inv cfg ?s"
    using f ok fb assms(1) by (cases plan) (simp_all add: cut_inv_def plan_ok_def blocks_of_data_def)
  moreover have "lookup (new_registry (sg_lane cfg) 1024) k = None" for k
    using index_in_range [OF reg_inv_new, of "sg_lane cfg" 1024 k]
    by (simp add: lookup_def new_registry_def Let_def empty_slot_def)
  then have "reg_ok cfg ?s"
    using f reg_inv_new [of "sg_lane cfg" 1024] by (simp add: reg_ok_def look_view_def) (simp add: new_registry_def clamp_window_def)
  ultimately show "full_inv cr cfg ?s" using f si assms(3) by (simp add: full_inv_def send_inv_def)
  show "gone ?s = {}" using f by (simp add: gone_def)
qed

lemma run_inv:
  assumes "length (sg_data cfg) < 2 ^ 62" "sg_block_size cfg \<noteq> 0" "schedule_ok cr cfg ks" "aead_ok cr" "seals_always cr"
    and "send_run cr cfg (new_sender cfg mtu now ks auth dst nonce ans) A s"
  shows "full_inv cr cfg s" "gone s \<subseteq> A" "sd_plan s = fst (session_plan (shard_bytes cfg) (ra_answer ans))"
    "sd_mtu_ceiling s = mtu_bound cfg mtu (ip_udp_overhead dst)"
  using send_run_full [OF assms(6) new_sender_full(1) [OF assms(1,2,3)] assms(4,5)] new_sender_full(2) [OF assms(1,2,3)]
  by (auto simp: evolves_def new_sender_def Let_def split: prod.splits)

section \<open>Properties\<close>

text \<open>
  C6: the blocks of a sending lane tile its plan. In every run, whatever the clocks, the socket and
  the receiver do, and however the block size, the windows and the batches change on the way, the
  positions of the blocks cut so far, in the order of their sequence numbers, are a beginning of the
  plan's positions; the lane has cut its last block exactly when nothing is left; and each block is the
  lane's data at its offset. A lane with nothing to send cuts one empty block.
\<close>

theorem blocks_tile_plan:
  assumes "length (sg_data cfg) < 2 ^ 62" "sg_block_size cfg \<noteq> 0" "schedule_ok cr cfg ks" "aead_ok cr" "seals_always cr"
    and "send_run cr cfg (new_sender cfg mtu now ks auth dst nonce ans) A s"
  shows "\<exists>rest. block_positions (sd_blocks s) @ rest = plan_positions (fst (session_plan (shard_bytes cfg) (ra_answer ans))) \<and>
      (sd_sent_last s \<longleftrightarrow> rest = [] \<and> sd_blocks s \<noteq> []) \<and>
      (\<forall>n < length (sd_blocks s). snd (sd_blocks s ! n) =
         take (length (snd (sd_blocks s ! n))) (drop (unat (fst (sd_blocks s ! n))) (sg_data cfg)))"
proof (intro exI [of _ "rest_positions s"] conjI allI impI)
  note i = run_inv(1) [OF assms] and p = run_inv(3) [OF assms]
  have c: "cut_inv cfg s" using i by (simp add: full_inv_def send_inv_def)
  show "block_positions (sd_blocks s) @ rest_positions s = plan_positions (fst (session_plan (shard_bytes cfg) (ra_answer ans)))"
    using c p by (simp add: cut_inv_def)
  have "rest_positions s = [] \<longleftrightarrow> sd_ri s = length (sd_plan s)" using c by (auto simp: cut_inv_def rest_positions_def)
  then show "sd_sent_last s \<longleftrightarrow> rest_positions s = [] \<and> sd_blocks s \<noteq> []" using c by (simp add: cut_inv_def)
  fix n assume "n < length (sd_blocks s)"
  then have "sd_blocks s ! n \<in> set (sd_blocks s)" by simp
  then show "snd (sd_blocks s ! n) = take (length (snd (sd_blocks s ! n))) (drop (unat (fst (sd_blocks s ! n))) (sg_data cfg))"
    using c by (fastforce simp: cut_inv_def blocks_of_data_def)
qed

definition tx_cfg :: send_cfg where
  "tx_cfg = \<lparr>sg_lane = 0, sg_keys = \<lparr>ky_enabled = False, ky_key = [], ky_salt = []\<rparr>, sg_data = [7, 8, 9], sg_block_size = 2,
     sg_timeout_ms = 1000, sg_connect_timeout_ms = 1000\<rparr>"

definition tx_sender :: sender where
  "tx_sender = new_sender tx_cfg 0 0 new_key_schedule None (Inet 4433 [127, 0, 0, 1]) 5 (no_answer\<lparr>ra_answer := [[(0, 3)]]\<rparr>)"

lemma tx_ok: "schedule_ok demo_crypto tx_cfg new_key_schedule" "aead_ok demo_crypto" "seals_always demo_crypto"
  using demo_crypto_aead
  by (simp_all add: schedule_ok_def tx_cfg_def seals_always_def epoch_cipher_def derive_lane_epoch_key_def)

definition tx_batch :: "sender \<Rightarrow> sender" where
  "tx_batch s = snd (send_batch demo_crypto tx_cfg 0 [(0, 0), (0, 0)] 0 0 s)"

lemma tx_cfg_simps [simp]:
  "sg_data tx_cfg = [7, 8, 9]" "sg_lane tx_cfg = 0" "\<not> ky_enabled (sg_keys tx_cfg)" "tag_room tx_cfg = 0" "first_block tx_cfg = 2"
  by (simp_all add: tx_cfg_def tag_room_def first_block_def block_ceiling_def)

lemma tx_fields:
  "sd_plan tx_sender = [(0, 3)]" "sd_ri tx_sender = 0" "sd_next_seq tx_sender = 0" "sd_base tx_sender = 0"
  "sd_next_offset tx_sender = 0" "sd_block tx_sender = 2" "sd_sent_bytes tx_sender = 0" "sd_acked_bytes tx_sender = 0"
  "sd_blocks tx_sender = []" "sd_data tx_sender = []" "sd_sent_last tx_sender = False" "sd_next_batch_ns tx_sender = 0"
  "sd_peer_rwnd tx_sender = kRwndUnlimited" "sd_cc tx_sender = enable_slow_start 128 (new_controller 1024 True 1 16)"
  by (simp_all add: tx_sender_def new_sender_def tx_cfg_def no_answer_def session_plan_def shard_bytes_def first_block_def block_ceiling_def tag_room_def mtu_bound_def max_units_def Let_def)

lemma tx_cc [simp]: "cc_window (enable_slow_start 128 (new_controller 1024 True 1 16)) = 128"
  "cc_srtt_ns (enable_slow_start 128 (new_controller 1024 True 1 16)) = 0"
  by (simp_all add: enable_slow_start_def new_controller_def Let_def)

lemmas tx_eval = window_bytes_def rwnd_bytes_def segment_size_def max_segs_def send_batch_def pack_loop_unfold cut_len_def cut_is_last_def cut_flags_def range_end_def range_done_def
  block_datagram_def encode_data_datagram_def Let_def

lemma advance_more [simp]: "sd_sent_bytes (advance cfg d s) = sd_sent_bytes s + ucast (cut_len s)" "sd_acked_bytes (advance cfg d s) = sd_acked_bytes s"
  "sd_cc (advance cfg d s) = sd_cc s" "sd_peer_rwnd (advance cfg d s) = sd_peer_rwnd s" "sd_next_batch_ns (advance cfg d s) = sd_next_batch_ns s"
  by (simp_all add: advance_def Let_def)

lemma tx_one:
  "sd_blocks (tx_batch tx_sender) = [(0, [7, 8])]" "sd_sent_last (tx_batch tx_sender) = False" "sd_plan (tx_batch tx_sender) = [(0, 3)]"
  "sd_ri (tx_batch tx_sender) = 0" "sd_next_offset (tx_batch tx_sender) = 2" "sd_next_seq (tx_batch tx_sender) = 1"
  "sd_base (tx_batch tx_sender) = 0" "sd_block (tx_batch tx_sender) = 2" "sd_sent_bytes (tx_batch tx_sender) = 2"
  "sd_acked_bytes (tx_batch tx_sender) = 0" "sd_peer_rwnd (tx_batch tx_sender) = kRwndUnlimited"
  "sd_cc (tx_batch tx_sender) = enable_slow_start 128 (new_controller 1024 True 1 16)" "sd_next_batch_ns (tx_batch tx_sender) = 0"
  by (simp_all add: tx_batch_def tx_eval tx_fields cut_one_def)

lemma tx_two:
  "sd_blocks (tx_batch (tx_batch tx_sender)) = [(0, [7, 8]), (2, [9])]" "sd_sent_last (tx_batch (tx_batch tx_sender))"
  by (simp_all add: tx_batch_def [of "tx_batch tx_sender"] tx_eval tx_one cut_one_def)

lemma tx_start: "length (sg_data tx_cfg) < 2 ^ 62" "sg_block_size tx_cfg \<noteq> 0"
  by (simp_all add: tx_cfg_def)

lemma tx_run: "send_run demo_crypto tx_cfg tx_sender {} (tx_batch (tx_batch tx_sender))"
proof -
  have st: "send_step demo_crypto tx_cfg {} s (tx_batch s)" for s unfolding tx_batch_def by (rule send_step_batch)
  show ?thesis using send_run_step [OF send_run_step [OF send_run_start st] st] by simp
qed

theorem blocks_tile_plan_witness:
  "block_positions (sd_blocks (tx_batch (tx_batch tx_sender))) = [0, 1, 2] \<and> sd_sent_last (tx_batch (tx_batch tx_sender)) \<and>
   sd_blocks (tx_batch (tx_batch tx_sender)) = [(0, [7, 8]), (2, [9])]"
proof -
  have "fst (session_plan (shard_bytes tx_cfg) (ra_answer (no_answer\<lparr>ra_answer := [[(0, 3)]]\<rparr>))) = [(0, 3)]"
    by (simp add: shard_bytes_def session_plan_def no_answer_def Let_def)
  then show ?thesis
    using blocks_tile_plan [OF tx_start tx_ok tx_run[unfolded tx_sender_def]] tx_two
    by (auto simp: tx_sender_def [symmetric] upt_rec)
qed

text \<open>
  C7: every data datagram a lane ever sends, first transmission or retransmission, in plain or sealed
  under the key of any epoch, opens at the receiver to the block its sequence number stands for, at that
  block's offset; and only the final block is ever marked as the last one, so a receiver cannot take the
  stream for complete too early.
\<close>

theorem datagrams_open_to_blocks:
  assumes "length (sg_data cfg) < 2 ^ 62" "sg_block_size cfg \<noteq> 0" "schedule_ok cr cfg ks" "aead_ok cr" "seals_always cr"
    and "send_run cr cfg (new_sender cfg mtu now ks auth dst nonce ans) A s" and "dg \<in> set (sd_data s)"
  shows "\<exists>hdr b. block_body cr (send_key cfg) (sg_lane cfg) dg = Some (hdr, b) \<and> bh_stream_id hdr = sg_lane cfg \<and>
      unat (bh_seq_no hdr) < length (sd_blocks s) \<and> sd_blocks s ! unat (bh_seq_no hdr) = (bh_offset hdr, b) \<and>
      (bh_flags hdr AND kFlagLastBlock \<noteq> 0 \<longrightarrow> sd_sent_last s \<and> Suc (unat (bh_seq_no hdr)) = length (sd_blocks s))"
  using run_inv(1) [OF assms(1-6)] assms(7) by (simp add: full_inv_def send_inv_def sent_ok_def)

lemma tx_sent: "\<exists>dg. sd_data (tx_batch tx_sender) = [dg]"
  by (simp add: tx_batch_def tx_eval tx_fields cut_one_def)

theorem datagrams_open_to_blocks_witness:
  "\<exists>dg hdr b. sd_data (tx_batch tx_sender) = [dg] \<and> block_body demo_crypto None 0 dg = Some (hdr, b) \<and>
     [(0, [7, 8])] ! unat (bh_seq_no hdr) = (bh_offset hdr, b)"
proof -
  obtain dg where dg: "sd_data (tx_batch tx_sender) = [dg]" using tx_sent by blast
  have "send_step demo_crypto tx_cfg {} tx_sender (tx_batch tx_sender)" unfolding tx_batch_def by (rule send_step_batch)
  then have r: "send_run demo_crypto tx_cfg tx_sender {} (tx_batch tx_sender)"
    using send_run_step [OF send_run_start] by fastforce
  from datagrams_open_to_blocks [OF tx_start tx_ok r[unfolded tx_sender_def], of dg] dg
  show ?thesis by (auto simp: tx_sender_def [symmetric] tx_one send_key_def)
qed

text \<open>
  C8: a block that no acknowledgement has covered can always be sent again: whatever happened before,
  the registry still holds it, and a retransmission the socket accepts puts a datagram on the wire that
  opens to this block, marked as a retransmission.
\<close>

theorem unacked_blocks_can_be_resent:
  assumes "length (sg_data cfg) < 2 ^ 62" "sg_block_size cfg \<noteq> 0" "schedule_ok cr cfg ks" "aead_ok cr" "seals_always cr"
    and "send_run cr cfg (new_sender cfg mtu now ks auth dst nonce ans) A s"
    and "k < sd_next_seq s" "k \<notin> A"
  shows "\<exists>dg s' hdr b. resend cr cfg wire True k s = (True, s') \<and> sd_data s' = sd_data s @ [dg] \<and>
      block_body cr (send_key cfg) (sg_lane cfg) dg = Some (hdr, b) \<and> bh_seq_no hdr = k \<and>
      sd_blocks s ! unat k = (bh_offset hdr, b) \<and> bh_flags hdr AND kFlagRetransmission \<noteq> 0"
proof -
  have i: "send_inv cr cfg s" and g: "gone s \<subseteq> A" using run_inv(1,2) [OF assms(1-6)] by (simp_all add: full_inv_def)
  have "look_view (sd_reg s) k \<noteq> None" using g assms(7,8) by (auto simp: gone_def)
  then obtain sl where sl: "lookup (sd_reg s) k = Some sl" by (auto simp: look_view_def)
  then have v: "view_ok cfg s k (slot_view sl)" and ri: "reg_inv (sd_reg s)" and ks: "schedule_ok cr cfg (sd_cipher s)"
    using i unfolding send_inv_def reg_ok_def look_view_def by (metis option.map(2))+
  note len = slot_room [OF ri sl]
  obtain r ks' where bd: "block_datagram cr cfg wire k (sl_offset sl) (sl_flags sl OR kFlagRetransmission) (sl_payload_len sl)
      (sl_payload sl) (kMaxDatagramSize + 64) (sd_cipher s) = (r, ks')" by (meson surj_pair)
  have v': "sd_blocks s ! unat k = (sl_offset sl, take (unat (sl_payload_len sl)) (sl_payload sl))"
    "unat (sl_payload_len sl) \<le> unat (block_ceiling cfg)"
    using v by (simp_all add: view_ok_def slot_view_def)
  note op = block_datagram_opens [OF assms(4) ks v'(2) len bd]
  have "31 + unat (sl_payload_len sl) + tag_room cfg \<le> kMaxDatagramSize + 64"
    using v'(2) tag_room_le [of cfg] by (simp add: unat_block_ceiling del: tag_room_le)
  from op(4) [OF assms(5) this] obtain dg where dg: "r = Some dg" by blast
  have "(sl_flags sl OR kFlagRetransmission) AND kFlagRetransmission \<noteq> 0" by (simp add: bit.conj_disj_distrib2 bit.conj_disj_distrib)
  with op(2) [OF dg] sl bd dg v' show ?thesis by (fastforce simp: resend_def Let_def)
qed

theorem unacked_blocks_can_be_resent_witness:
  "\<exists>dg s' hdr. resend demo_crypto tx_cfg 0 True 1 (tx_batch (tx_batch tx_sender)) = (True, s') \<and>
     sd_data s' = sd_data (tx_batch (tx_batch tx_sender)) @ [dg] \<and>
     block_body demo_crypto (send_key tx_cfg) 0 dg = Some (hdr, [9])"
proof -
  let ?s = "tx_batch (tx_batch tx_sender)"
  have "sd_next_seq ?s = 2"
    by (simp add: tx_batch_def [of "tx_batch tx_sender"] tx_eval tx_one cut_one_def)
  then have "1 < sd_next_seq ?s" "1 \<notin> ({} :: u64 set)" by simp_all
  from unacked_blocks_can_be_resent [OF tx_start tx_ok tx_run[unfolded tx_sender_def] this[unfolded tx_sender_def], of 0]
  show ?thesis by (auto simp: tx_sender_def [symmetric] tx_two)
qed

text \<open>
  C9: the well-formedness of a sending lane, kept by every step. The block size stays between the
  configured size and the bound for the path's MTU, which the wire format's maximum bounds; the next
  sequence number is the number of blocks cut; at most a window of 1024 blocks is in flight; and every slot
  of the registry fits its buffer.
\<close>

theorem sender_stays_well_formed:
  assumes "length (sg_data cfg) < 2 ^ 62" "sg_block_size cfg \<noteq> 0" "schedule_ok cr cfg ks" "aead_ok cr" "seals_always cr"
    and "send_run cr cfg (new_sender cfg mtu now ks auth dst nonce ans) A s"
  shows "0 < sd_block s \<and> first_block cfg \<le> sd_block s \<and> sd_block s \<le> mtu_bound cfg mtu (ip_udp_overhead dst) \<and>
    mtu_bound cfg mtu (ip_udp_overhead dst) \<le> block_ceiling cfg \<and>
    unat (sd_next_seq s) = length (sd_blocks s) \<and> unat (sd_base s) \<le> unat (sd_next_seq s) \<and>
    unat (sd_next_seq s) \<le> unat (sd_base s) + 1024 \<and> reg_inv (sd_reg s)"
proof -
  have i: "send_inv cr cfg s" "size_inv cfg s" using run_inv(1) [OF assms] by (simp_all add: full_inv_def)
  then show ?thesis
    using run_inv(4) [OF assms] mtu_bound_bounds(2) [of cfg mtu "ip_udp_overhead dst"]
    by (auto simp: send_inv_def cut_inv_def reg_ok_def size_inv_def)
qed

theorem sender_stays_well_formed_witness:
  "sd_block (tx_batch (tx_batch tx_sender)) \<le> mtu_bound tx_cfg 0 (ip_udp_overhead (Inet 4433 [127, 0, 0, 1])) \<and>
   unat (sd_next_seq (tx_batch (tx_batch tx_sender))) = 2"
  using sender_stays_well_formed [OF tx_start tx_ok tx_run[unfolded tx_sender_def]] tx_two
  by (simp add: tx_sender_def [symmetric])

end
