(* ===== verification/Spec2Isabelle.thy ===== *)
theory Spec2Isabelle
  imports Handshake Reassembly Congestion Digest Orchestrator Legacy Http Lane_System Send_Blocks
begin

text \<open>
  A verification library for the FUSE transport.
\<close>

end
